(* ===== verification/Lotos_Prelude.thy ===== *)
theory Lotos_Prelude
  imports Main "HOL-Library.Word" "HOL-Library.Monad_Syntax"
begin

text \<open>
  Shared vocabulary of the development: the status codes of \<^verbatim>\<open>src/src/misc.h\<close> and
  \<^verbatim>\<open>src/src/http_parser.h\<close>, C integers at their width, character classes, pointers and byte
  memory, the C library string routines the server calls, and the facts about them that the
  component theories use. A function of the model that can run into undefined behaviour (a read
  through a null or dangling pointer, outside an object, or of an indeterminate byte) has an
  \<open>option\<close> result, and \<open>None\<close> stands for undefined behaviour.
\<close>

named_theorems width_simps \<open>conversions between C integer widths that are exact in range\<close>
named_theorems mem_simps \<open>reading and writing byte memory\<close>

section \<open>Status codes\<close>

text \<open>\<open>ERROR\<close> and \<open>INVALID_REQUEST\<close> are the same integer in the source.\<close>

abbreviation (input) ERROR :: int where "ERROR \<equiv> - 1"
abbreviation (input) OK :: int where "OK \<equiv> 0"
abbreviation (input) AGAIN :: int where "AGAIN \<equiv> 1"
abbreviation (input) INVALID_REQUEST :: int where "INVALID_REQUEST \<equiv> - 1"
abbreviation (input) CRLF_LINE :: int where "CRLF_LINE \<equiv> 2"

section \<open>C integers\<close>

text \<open>
  A C \<open>int\<close> is an \<open>int\<close> kept in range by the conversion below wherever the source assigns a
  wider value to it (two's complement, 32 bits). A \<open>size_t\<close> that can wrap is a \<open>64 word\<close>.
\<close>

definition to_int32 :: "int \<Rightarrow> int" where
  "to_int32 x = signed_take_bit 31 x"

abbreviation (input) INT_MAX :: int where "INT_MAX \<equiv> 2147483647"
abbreviation (input) BUFSIZ :: int where "BUFSIZ \<equiv> 8192"

section \<open>Characters\<close>

abbreviation (input) NUL :: char where "NUL \<equiv> CHR 0x00"
abbreviation (input) TAB :: char where "TAB \<equiv> CHR 0x09"
abbreviation (input) LF :: char where "LF \<equiv> CHR 0x0A"
abbreviation (input) CR :: char where "CR \<equiv> CHR 0x0D"
abbreviation (input) SP :: char where "SP \<equiv> CHR 0x20"

definition ord_char :: "char \<Rightarrow> int" where
  "ord_char c = of_char c"

text \<open>The value of a plain (signed) \<open>char\<close>.\<close>

definition schar :: "char \<Rightarrow> int" where
  "schar c = (if ord_char c < 128 then ord_char c else ord_char c - 256)"

definition is_lower_char :: "char \<Rightarrow> bool" where
  "is_lower_char c \<longleftrightarrow> 97 \<le> ord_char c \<and> ord_char c \<le> 122"

definition is_upper_char :: "char \<Rightarrow> bool" where
  "is_upper_char c \<longleftrightarrow> 65 \<le> ord_char c \<and> ord_char c \<le> 90"

definition is_digit_char :: "char \<Rightarrow> bool" where
  "is_digit_char c \<longleftrightarrow> 48 \<le> ord_char c \<and> ord_char c \<le> 57"

definition is_alpha_char :: "char \<Rightarrow> bool" where
  "is_alpha_char c \<longleftrightarrow> is_lower_char c \<or> is_upper_char c"

definition tolower :: "char \<Rightarrow> char" where
  "tolower c = (if is_upper_char c then char_of (ord_char c + 32) else c)"

section \<open>Pointers and byte memory\<close>

text \<open>
  A character pointer is null, an offset into an allocated block, or an offset into a string
  literal. A block is the list of its bytes; a byte that was never written is \<open>None\<close>.
\<close>

datatype cptr = PNull | PBlk nat int | PLit string int

type_synonym block = "char option list"
type_synonym memory = "nat \<rightharpoonup> block"

fun ptr_add :: "cptr \<Rightarrow> int \<Rightarrow> cptr" where
  "ptr_add PNull i = PNull"
| "ptr_add (PBlk a k) i = PBlk a (k + i)"
| "ptr_add (PLit s k) i = PLit s (k + i)"

definition byte_at :: "block \<Rightarrow> int \<Rightarrow> char option" where
  "byte_at bs k = (if 0 \<le> k \<and> k < int (length bs) then bs ! nat k else None)"

text \<open>The object of a string literal: its characters and the terminating NUL.\<close>

definition lit_block :: "string \<Rightarrow> block" where
  "lit_block s = map Some (s @ [NUL])"

fun load :: "memory \<Rightarrow> cptr \<Rightarrow> char option" where
  "load m PNull = None"
| "load m (PBlk a k) = (case m a of None \<Rightarrow> None | Some bs \<Rightarrow> byte_at bs k)"
| "load m (PLit s k) = byte_at (lit_block s) k"

fun store :: "memory \<Rightarrow> cptr \<Rightarrow> char \<Rightarrow> memory option" where
  "store m PNull c = None"
| "store m (PBlk a k) c =
     (case m a of None \<Rightarrow> None
      | Some bs \<Rightarrow> if 0 \<le> k \<and> k < int (length bs) then Some (m(a \<mapsto> bs[nat k := Some c])) else None)"
| "store m (PLit s k) c = None"

text \<open>The bytes from a pointer to the end of its object, for the C string routines.\<close>

fun bytes_from :: "memory \<Rightarrow> cptr \<Rightarrow> block" where
  "bytes_from m PNull = []"
| "bytes_from m (PBlk a k) =
     (case m a of None \<Rightarrow> [] | Some bs \<Rightarrow> if 0 \<le> k then drop (nat k) bs else [])"
| "bytes_from m (PLit s k) = (if 0 \<le> k then drop (nat k) (lit_block s) else [])"

section \<open>C library string routines\<close>

fun strlen_bytes :: "block \<Rightarrow> nat option" where
  "strlen_bytes [] = None"
| "strlen_bytes (None # bs) = None"
| "strlen_bytes (Some c # bs) =
     (if c = NUL then Some 0 else map_option Suc (strlen_bytes bs))"

text \<open>
  \<open>strncasecmp (s, lit, n) == 0\<close> for a C string literal \<open>lit\<close> with \<open>n = strlen lit\<close>: the bytes
  are compared up to the first difference, so no byte after it is read.
\<close>

fun strncase_eq :: "block \<Rightarrow> string \<Rightarrow> bool option" where
  "strncase_eq bs [] = Some True"
| "strncase_eq [] (x # xs) = None"
| "strncase_eq (None # bs) (x # xs) = None"
| "strncase_eq (Some c # bs) (x # xs) =
     (if tolower c = tolower x then strncase_eq bs xs else Some False)"

text \<open>
  \<open>atoi\<close> as the C library has it: \<open>(int) strtol (s, NULL, 10)\<close>, with \<open>strtol\<close> saturating at
  the 64-bit limits.
\<close>

definition is_space_char :: "char \<Rightarrow> bool" where
  "is_space_char c \<longleftrightarrow> ord_char c = 32 \<or> (9 \<le> ord_char c \<and> ord_char c \<le> 13)"

fun scan_digits :: "int \<Rightarrow> block \<Rightarrow> int option" where
  "scan_digits acc [] = None"
| "scan_digits acc (None # bs) = None"
| "scan_digits acc (Some c # bs) =
     (if is_digit_char c then scan_digits (acc * 10 + (ord_char c - 48)) bs else Some acc)"

fun skip_spaces :: "block \<Rightarrow> block" where
  "skip_spaces (Some c # bs) = (if is_space_char c then skip_spaces bs else Some c # bs)"
| "skip_spaces bs = bs"

definition strtol10 :: "block \<Rightarrow> int option" where
  "strtol10 bs =
     (let clamp = (\<lambda>v. max (- (2 ^ 63)) (min v (2 ^ 63 - 1))) in
      case skip_spaces bs of
        Some c # rest \<Rightarrow>
          if c = CHR ''-'' then map_option (\<lambda>v. clamp (- v)) (scan_digits 0 rest)
          else if c = CHR ''+'' then map_option clamp (scan_digits 0 rest)
          else map_option clamp (scan_digits 0 (Some c # rest))
      | _ \<Rightarrow> None)"

definition atoi :: "block \<Rightarrow> int option" where
  "atoi bs = map_option to_int32 (strtol10 bs)"

section \<open>Facts\<close>

lemma to_int32_id [width_simps]: "- (2 ^ 31) \<le> x \<Longrightarrow> x < 2 ^ 31 \<Longrightarrow> to_int32 x = x"
  by (simp add: to_int32_def signed_take_bit_int_eq_self)

lemma to_int32_range: "- (2 ^ 31) \<le> to_int32 x \<and> to_int32 x < 2 ^ 31"
  using signed_take_bit_int_greater_eq_minus_exp [of 31 x] signed_take_bit_int_less_exp [of 31 x]
  by (simp add: to_int32_def)

lemma ord_char_range: "0 \<le> ord_char c \<and> ord_char c < 256"
  unfolding ord_char_def using of_char_mod_256 [where 'a = int, of c]
    pos_mod_bound [of 256 "of_char c"] pos_mod_sign [of 256 "of_char c"]
  by simp

lemma byte_at_inside [mem_simps]:
  "0 \<le> k \<Longrightarrow> k < int (length bs) \<Longrightarrow> byte_at bs k = bs ! nat k"
  by (simp add: byte_at_def)

end
