(* ===== verification/Buffer.thy ===== *)
theory Buffer
  imports Lotos_Prelude
begin

text \<open>
  The growable byte buffer of \<^verbatim>\<open>src/src/buffer.h\<close> and \<^verbatim>\<open>src/src/buffer.c\<close>. The struct's
  flexible array member is the list of the bytes allocated for it, one more than
  \<open>len + free\<close>. The allocator is outside the program: \<open>malloc\<close> succeeds or not, and
  \<open>realloc\<close> fails, grows the block in place, or moves it, which the caller must notice since the
  old pointer is then dead. The locale \<open>append_target\<close> is the interface the response code relies
  on.
\<close>

section \<open>State\<close>

record buffer_t =
  b_len :: int
  b_free :: int
  b_buf :: block

abbreviation (input) BUFFER_LIMIT :: int where "BUFFER_LIMIT \<equiv> BUFSIZ * 250"

datatype realloc_outcome = Realloc_null | Realloc_in_place | Realloc_moved

text \<open>
  What the caller of \<open>buffer_cat\<close> gets: a null pointer (its own buffer is still allocated and
  unchanged), the same pointer, or a new pointer (its own buffer is gone).
\<close>

datatype cat_result = Cat_null buffer_t | Cat_same buffer_t | Cat_moved buffer_t

section \<open>Operations\<close>

text \<open>Conversion of an \<open>int\<close> to \<open>size_t\<close>.\<close>

definition to_size :: "int \<Rightarrow> int" where
  "to_size x = x mod 2 ^ 64"

definition memcpy_at :: "block \<Rightarrow> int \<Rightarrow> string \<Rightarrow> block option" where
  "memcpy_at bs k s =
     (if 0 \<le> k \<and> k + int (length s) \<le> int (length bs)
      then Some (take (nat k) bs @ map Some s @ drop (nat k + length s) bs) else None)"

definition put_byte :: "block \<Rightarrow> int \<Rightarrow> char \<Rightarrow> block option" where
  "put_byte bs k c = (if 0 \<le> k \<and> k < int (length bs) then Some (bs[nat k := Some c]) else None)"

definition resize_block :: "block \<Rightarrow> nat \<Rightarrow> block" where
  "resize_block bs n = take n bs @ replicate (n - length bs) None"

definition buffer_new :: "bool \<Rightarrow> int \<Rightarrow> buffer_t option" where
  "buffer_new malloc_ok initlen =
     (if malloc_ok
      then Some \<lparr>b_len = 0, b_free = to_int32 initlen,
                 b_buf = (replicate (nat (initlen + 1)) None)[0 := Some NUL]\<rparr>
      else None)"

definition buffer_init :: "bool \<Rightarrow> buffer_t option" where
  "buffer_init malloc_ok = buffer_new malloc_ok BUFSIZ"

definition buffer_clear :: "buffer_t \<Rightarrow> buffer_t" where
  "buffer_clear pb = pb\<lparr>b_free := to_int32 (b_free pb + b_len pb), b_len := 0\<rparr>"

definition buffer_len :: "buffer_t \<Rightarrow> int" where
  "buffer_len pb = to_size (b_len pb)"

definition buffer_avail :: "buffer_t \<Rightarrow> int" where
  "buffer_avail pb = to_size (b_free pb)"

text \<open>The end pointer of the buffer whose block is \<open>a\<close>.\<close>

definition buffer_end :: "nat \<Rightarrow> buffer_t \<Rightarrow> cptr" where
  "buffer_end a pb = PBlk a (b_len pb)"

text \<open>The part of \<open>buffer_cat\<close> after a successful \<open>realloc\<close> to \<open>new_len\<close> data bytes.\<close>

definition cat_grown :: "buffer_t \<Rightarrow> string \<Rightarrow> int \<Rightarrow> buffer_t option" where
  "cat_grown pb s new_len = do {
     bs1 \<leftarrow> memcpy_at (resize_block (b_buf pb) (nat (new_len + 1))) (b_len pb) s;
     let len' = to_int32 (b_len pb + int (length s));
     bs2 \<leftarrow> put_byte bs1 len' NUL;
     Some \<lparr>b_len = len', b_free = to_int32 (new_len - len'), b_buf = bs2\<rparr>
   }"

definition buffer_cat :: "realloc_outcome \<Rightarrow> buffer_t \<Rightarrow> string \<Rightarrow> cat_result option" where
  "buffer_cat ra pb s =
     (let nbyte = int (length s) in
      if nbyte \<le> buffer_avail pb then do {
        bs1 \<leftarrow> memcpy_at (b_buf pb) (b_len pb) s;
        let len' = to_int32 (b_len pb + nbyte);
        bs2 \<leftarrow> put_byte bs1 len' NUL;
        Some (Cat_same \<lparr>b_len = len', b_free = to_int32 (b_free pb - nbyte), b_buf = bs2\<rparr>)
      }
      else
        let cur_len = buffer_len pb;
            new_len = to_size (cur_len + nbyte);
            new_len = (if new_len < BUFFER_LIMIT then to_size (new_len * 2)
                       else to_size (new_len + BUFFER_LIMIT)) in
        case ra of
          Realloc_null \<Rightarrow> Some (Cat_null pb)
        | Realloc_in_place \<Rightarrow> map_option Cat_same (cat_grown pb s new_len)
        | Realloc_moved \<Rightarrow> map_option Cat_moved (cat_grown pb s new_len))"

definition buffer_cat_cstr :: "realloc_outcome \<Rightarrow> buffer_t \<Rightarrow> string \<Rightarrow> cat_result option" where
  "buffer_cat_cstr ra pb cstr = buffer_cat ra pb (takeWhile (\<lambda>c. c \<noteq> NUL) cstr)"

text \<open>What \<open>buffer_print\<close> writes to standard output.\<close>

definition buffer_print :: "buffer_t \<Rightarrow> string option" where
  "buffer_print pb = map_option (\<lambda>s. s @ [LF]) (those (take (nat (b_len pb)) (b_buf pb)))"

text \<open>
  A call of \<open>buffer_cat\<close> whose caller goes on using its old pointer: fine where the block did not
  move, undefined behaviour where it did.
\<close>

definition cat_keep :: "realloc_outcome \<Rightarrow> buffer_t \<Rightarrow> string \<Rightarrow> buffer_t option" where
  "cat_keep ra pb s =
     (case buffer_cat ra pb s of
        Some (Cat_same b) \<Rightarrow> Some b | Some (Cat_null b) \<Rightarrow> Some b | _ \<Rightarrow> None)"

section \<open>Invariant and abstraction\<close>

definition buffer_inv :: "buffer_t \<Rightarrow> bool" where
  "buffer_inv b \<longleftrightarrow> 0 \<le> b_len b \<and> 0 \<le> b_free b \<and> b_len b + b_free b < 2 ^ 31 \<and>
     int (length (b_buf b)) = b_len b + b_free b + 1 \<and>
     None \<notin> set (take (nat (b_len b)) (b_buf b))"

definition buffer_data :: "buffer_t \<Rightarrow> string" where
  "buffer_data b = map the (take (nat (b_len b)) (b_buf b))"

definition nul_terminated :: "buffer_t \<Rightarrow> bool" where
  "nul_terminated b \<longleftrightarrow> byte_at (b_buf b) (b_len b) = Some NUL"

section \<open>Facts about the byte operations\<close>

lemma to_size_id [width_simps]: "0 \<le> x \<Longrightarrow> x < 2 ^ 64 \<Longrightarrow> to_size x = x"
  by (simp add: to_size_def)

lemma length_memcpy_at: "memcpy_at bs k s = Some bs' \<Longrightarrow> length bs' = length bs"
  by (auto simp: memcpy_at_def split: if_splits)

lemma length_put_byte: "put_byte bs k c = Some bs' \<Longrightarrow> length bs' = length bs"
  by (auto simp: put_byte_def split: if_splits)

lemma write_then_nul:
  assumes "k + length s < length bs"
  obtains bs1 bs2 where "memcpy_at bs (int k) s = Some bs1"
    and "put_byte bs1 (int (k + length s)) NUL = Some bs2"
    and "length bs2 = length bs"
    and "take (k + length s) bs2 = take k bs @ map Some s"
    and "bs2 ! (k + length s) = Some NUL"
proof -
  let ?bs1 = "take k bs @ map Some s @ drop (k + length s) bs"
  let ?bs2 = "?bs1[k + length s := Some NUL]"
  have len: "length ?bs1 = length bs" using assms by simp
  have "memcpy_at bs (int k) s = Some ?bs1" using assms by (simp add: memcpy_at_def)
  moreover have "put_byte ?bs1 (int (k + length s)) NUL = Some ?bs2"
    using assms by (auto simp: put_byte_def nat_add_distrib)
  moreover have "length ?bs2 = length bs" using len by (simp only: length_list_update)
  moreover have "take (k + length s) ?bs2 = take k bs @ map Some s"
    using assms by (simp add: take_update_swap list_update_beyond)
  moreover have "?bs2 ! (k + length s) = Some NUL"
    using assms len by (simp only: nth_list_update_eq)
  ultimately show thesis by (rule that)
qed

lemma length_resize_block [simp]: "length (resize_block bs n) = n"
  by (simp add: resize_block_def)

lemma take_resize_block [simp]: "k \<le> n \<Longrightarrow> k \<le> length bs \<Longrightarrow> take k (resize_block bs n) = take k bs"
  by (simp add: resize_block_def min_def)

lemma buffer_data_append:
  assumes "take (k + length s) bs2 = take k bs @ map Some s"
    and "take k bs = take (nat (b_len b)) (b_buf b)" and "b_len b = int k"
  shows "buffer_data \<lparr>b_len = int (k + length s), b_free = f, b_buf = bs2\<rparr> = buffer_data b @ s"
proof -
  have *: "nat (int k + int (length s)) = k + length s" by simp
  show ?thesis unfolding buffer_data_def using assms * by (simp add: comp_def)
qed

section \<open>The operations keep the invariant and append\<close>

definition cat_ok :: "buffer_t \<Rightarrow> string \<Rightarrow> buffer_t \<Rightarrow> bool" where
  "cat_ok b s b' \<longleftrightarrow> buffer_inv b' \<and> nul_terminated b' \<and> buffer_data b' = buffer_data b @ s"

lemma length_buffer_data: "buffer_inv b \<Longrightarrow> int (length (buffer_data b)) = b_len b"
  by (auto simp: buffer_inv_def buffer_data_def min_def)

lemma cat_ok_len: "buffer_inv b \<Longrightarrow> cat_ok b s b' \<Longrightarrow> b_len b' = b_len b + int (length s)"
  using length_buffer_data [of b] length_buffer_data [of b'] by (simp add: cat_ok_def)

lemma buffer_inv_nat:
  assumes "buffer_inv b"
  obtains k f where "b_len b = int k" and "b_free b = int f"
    and "length (b_buf b) = k + f + 1" and "k + f < 2 ^ 31"
    and "None \<notin> set (take k (b_buf b))"
proof -
  obtain k f where "b_len b = int k" "b_free b = int f"
    using assms unfolding buffer_inv_def by (metis nonneg_int_cases)
  with assms show thesis by (intro that [of k f]) (auto simp: buffer_inv_def)
qed

lemma cat_ok_intro:
  assumes b: "b_len b = int k" "None \<notin> set (take k (b_buf b))"
    and bs: "length bs2 = k + length s + g + 1" "k + length s + g < 2 ^ 31"
    and w: "take (k + length s) bs2 = take k (b_buf b) @ map Some s"
    and z: "bs2 ! (k + length s) = Some NUL"
  shows "cat_ok b s \<lparr>b_len = int (k + length s), b_free = int g, b_buf = bs2\<rparr>"
proof -
  have *: "nat (int k + int (length s)) = k + length s" by simp
  have "buffer_data \<lparr>b_len = int (k + length s), b_free = int g, b_buf = bs2\<rparr> = buffer_data b @ s"
    using w b by (intro buffer_data_append [where bs = "b_buf b"]) auto
  moreover have "buffer_inv \<lparr>b_len = int (k + length s), b_free = int g, b_buf = bs2\<rparr>"
    using bs w b * by (simp add: buffer_inv_def image_iff)
  moreover have "nul_terminated \<lparr>b_len = int (k + length s), b_free = int g, b_buf = bs2\<rparr>"
    using z bs * by (simp add: nul_terminated_def byte_at_def)
  ultimately show ?thesis by (simp add: cat_ok_def)
qed

lemma buffer_cat_fits:
  assumes inv: "buffer_inv b" and fits: "int (length s) \<le> b_free b"
  shows "\<exists>b'. buffer_cat ra b s = Some (Cat_same b') \<and> cat_ok b s b' \<and>
           b_free b' = b_free b - int (length s) \<and> length (b_buf b') = length (b_buf b)"
proof -
  obtain k f where kf: "b_len b = int k" "b_free b = int f"
    "length (b_buf b) = k + f + 1" "k + f < 2 ^ 31" "None \<notin> set (take k (b_buf b))"
    using inv by (rule buffer_inv_nat)
  then have sf: "length s \<le> f" using fits by simp
  obtain bs1 bs2 where w: "memcpy_at (b_buf b) (int k) s = Some bs1"
    "put_byte bs1 (int (k + length s)) NUL = Some bs2" "length bs2 = length (b_buf b)"
    "take (k + length s) bs2 = take k (b_buf b) @ map Some s" "bs2 ! (k + length s) = Some NUL"
    by (rule write_then_nul [of k s "b_buf b"]) (use kf sf in auto)
  let ?b = "\<lparr>b_len = int (k + length s), b_free = int (f - length s), b_buf = bs2\<rparr>"
  have "to_int32 (int k + int (length s)) = int (k + length s)"
    "to_int32 (int f - int (length s)) = int (f - length s)" "to_size (int f) = int f"
    using kf sf by (auto simp: width_simps)
  then have "buffer_cat ra b s = Some (Cat_same ?b)"
    using kf sf w by (simp add: buffer_cat_def buffer_avail_def Let_def)
  moreover have "cat_ok b s ?b"
    using kf sf w by (intro cat_ok_intro) auto
  ultimately show ?thesis using kf sf w(3) by auto
qed

lemma cat_grown_ok:
  assumes inv: "buffer_inv b" and n: "b_len b + int (length s) \<le> n" "n < 2 ^ 31"
  shows "\<exists>b'. cat_grown b s n = Some b' \<and> cat_ok b s b' \<and>
           b_free b' = n - (b_len b + int (length s))"
proof -
  obtain k f where kf: "b_len b = int k" "b_free b = int f"
    "length (b_buf b) = k + f + 1" "k + f < 2 ^ 31" "None \<notin> set (take k (b_buf b))"
    using inv by (rule buffer_inv_nat)
  obtain m where m: "n = int m" using n kf by (metis nonneg_int_cases of_nat_0_le_iff order_trans add_nonneg_nonneg)
  let ?bs = "resize_block (b_buf b) (m + 1)"
  obtain bs1 bs2 where w: "memcpy_at ?bs (int k) s = Some bs1"
    "put_byte bs1 (int (k + length s)) NUL = Some bs2" "length bs2 = length ?bs"
    "take (k + length s) bs2 = take k ?bs @ map Some s" "bs2 ! (k + length s) = Some NUL"
    by (rule write_then_nul [of k s ?bs]) (use kf n m in auto)
  let ?b = "\<lparr>b_len = int (k + length s), b_free = int (m - (k + length s)), b_buf = bs2\<rparr>"
  have t: "take k ?bs = take k (b_buf b)" using kf n m by simp
  have "to_int32 (int k + int (length s)) = int (k + length s)"
    "to_int32 (n - int (k + length s)) = int (m - (k + length s))" "nat (n + 1) = m + 1"
    using kf n m by (auto simp: width_simps)
  then have "cat_grown b s n = Some ?b"
    using kf w by (simp add: cat_grown_def Let_def)
  moreover have "cat_ok b s ?b"
    using kf n m w t by (intro cat_ok_intro) auto
  moreover have "b_free ?b = n - (b_len b + int (length s))" using kf n m by simp
  ultimately show ?thesis by blast
qed

lemma buffer_new_ok:
  assumes "0 \<le> n" and "n < 2 ^ 31"
  shows "\<exists>b. buffer_new True n = Some b \<and> buffer_inv b \<and> nul_terminated b \<and> buffer_data b = [] \<and>
     b_free b = n"
  using assms
  by (simp add: buffer_new_def buffer_inv_def nul_terminated_def buffer_data_def byte_at_def width_simps
      nth_list_update)

lemma buffer_clear_ok:
  assumes "buffer_inv b"
  shows "buffer_inv (buffer_clear b) \<and> buffer_data (buffer_clear b) = [] \<and>
    b_free (buffer_clear b) = b_len b + b_free b"
  using assms by (simp add: buffer_clear_def buffer_inv_def buffer_data_def width_simps)

section \<open>Appending as an interface\<close>

text \<open>
  What the response code relies on: while there is room, an append of an acceptable string does not
  move the buffer, keeps the invariant and everything around the buffer, and adds exactly the bytes
  given. A sequence of appends is then one append of the concatenation.
\<close>

locale append_target =
  fixes invar :: "'b \<Rightarrow> bool" and contents :: "'b \<Rightarrow> string" and room :: "'b \<Rightarrow> int" and rest :: "'b \<Rightarrow> 'r"
    and accepts :: "string \<Rightarrow> bool" and append_to :: "'b \<Rightarrow> string \<Rightarrow> 'b option"
  assumes append_fits: "invar b \<Longrightarrow> accepts s \<Longrightarrow> int (length s) \<le> room b \<Longrightarrow>
    \<exists>b'. append_to b s = Some b' \<and> invar b' \<and> contents b' = contents b @ s \<and>
      room b' = room b - int (length s) \<and> rest b' = rest b"
begin

definition extends_by :: "string \<Rightarrow> 'b \<Rightarrow> 'b \<Rightarrow> bool" where
  "extends_by x b b' \<longleftrightarrow> invar b' \<and> contents b' = contents b @ x \<and>
     room b' = room b - int (length x) \<and> rest b' = rest b"

fun append_all :: "'b \<Rightarrow> string list \<Rightarrow> 'b option" where
  "append_all b [] = Some b"
| "append_all b (s # ss) = append_to b s \<bind> (\<lambda>b'. append_all b' ss)"

lemma extends_trans: "extends_by x b b1 \<Longrightarrow> extends_by y b1 b2 \<Longrightarrow> extends_by (x @ y) b b2"
  by (simp add: extends_by_def)

lemma append_all_fits:
  "invar b \<Longrightarrow> list_all accepts ss \<Longrightarrow> int (length (concat ss)) \<le> room b \<Longrightarrow>
   \<exists>b'. append_all b ss = Some b' \<and> extends_by (concat ss) b b'"
proof (induction ss arbitrary: b)
  case Nil
  then show ?case by (simp add: extends_by_def)
next
  case (Cons s ss)
  then have "int (length s) \<le> room b" "accepts s" by simp_all
  with Cons.prems obtain b1 where b1: "append_to b s = Some b1" "extends_by s b b1"
    using append_fits unfolding extends_by_def by blast
  with Cons.prems have "int (length (concat ss)) \<le> room b1" "invar b1" by (simp_all add: extends_by_def)
  with Cons.IH Cons.prems obtain b2 where "append_all b1 ss = Some b2" "extends_by (concat ss) b1 b2"
    by auto
  with b1 extends_trans show ?case by auto
qed

end

interpretation buf: append_target buffer_inv buffer_data b_free "\<lambda>_. ()" "\<lambda>_. True" "cat_keep ra" for ra
proof unfold_locales
  fix b and s :: string
  assume "buffer_inv b" and "int (length s) \<le> b_free b"
  then obtain b' where "buffer_cat ra b s = Some (Cat_same b')" "cat_ok b s b'"
    "b_free b' = b_free b - int (length s)"
    using buffer_cat_fits by blast
  then show "\<exists>b'. cat_keep ra b s = Some b' \<and> buffer_inv b' \<and> buffer_data b' = buffer_data b @ s \<and>
      b_free b' = b_free b - int (length s) \<and> () = ()"
    by (simp add: cat_keep_def cat_ok_def)
qed

section \<open>Properties\<close>

definition grown_capacity :: "int \<Rightarrow> int" where
  "grown_capacity n = (if n < BUFFER_LIMIT then n * 2 else n + BUFFER_LIMIT)"

lemma buffer_cat_grows:
  assumes inv: "buffer_inv b" and full: "b_free b < int (length s)"
    and bound: "b_len b + int (length s) + BUFFER_LIMIT < 2 ^ 31"
  shows "\<exists>b'. cat_ok b s b' \<and> b_len b' + b_free b' = grown_capacity (b_len b + int (length s)) \<and>
     buffer_cat ra b s =
       Some (case ra of Realloc_null \<Rightarrow> Cat_null b | Realloc_in_place \<Rightarrow> Cat_same b'
             | Realloc_moved \<Rightarrow> Cat_moved b')"
proof -
  let ?n = "b_len b + int (length s)"
  have nn: "0 \<le> b_len b" "0 \<le> b_free b" using inv by (auto simp: buffer_inv_def)
  have "?n \<le> grown_capacity ?n" "grown_capacity ?n < 2 ^ 31"
    using nn bound by (auto simp: grown_capacity_def)
  then obtain b' where b': "cat_grown b s (grown_capacity ?n) = Some b'" "cat_ok b s b'"
    "b_free b' = grown_capacity ?n - ?n"
    using cat_grown_ok [OF inv] by blast
  then have cap: "b_len b' + b_free b' = grown_capacity ?n"
    using cat_ok_len [OF inv] by simp
  have "to_size (b_free b) = b_free b" "to_size (b_len b) = b_len b" "to_size ?n = ?n"
    "to_size (?n * 2) = ?n * 2" "to_size (?n + BUFFER_LIMIT) = ?n + BUFFER_LIMIT"
    using nn bound full by (auto simp: width_simps)
  then have "buffer_cat ra b s = (case ra of Realloc_null \<Rightarrow> Some (Cat_null b)
      | Realloc_in_place \<Rightarrow> map_option Cat_same (cat_grown b s (grown_capacity ?n))
      | Realloc_moved \<Rightarrow> map_option Cat_moved (cat_grown b s (grown_capacity ?n)))"
    using full
    by (cases ra) (simp_all add: buffer_cat_def buffer_avail_def buffer_len_def grown_capacity_def Let_def)
  then show ?thesis using b' cap by (intro exI [of _ b']) (auto split: realloc_outcome.splits)
qed

text \<open>
  C24. Appending to a well-formed buffer never runs outside its block, whatever \<open>realloc\<close> does:
  with room the buffer stays where it is; without room the old contents and the new bytes are in
  the returned buffer (in place or moved), terminated by a NUL; and if \<open>realloc\<close> fails the caller
  gets null and its buffer is unchanged.
\<close>
theorem buffer_cat_correct:
  assumes "buffer_inv b" and "b_len b + int (length s) + BUFFER_LIMIT < 2 ^ 31"
  shows "case buffer_cat ra b s of
      None \<Rightarrow> False
    | Some (Cat_same b') \<Rightarrow> cat_ok b s b' \<and>
        (if int (length s) \<le> b_free b then b_free b' = b_free b - int (length s)
         else ra = Realloc_in_place)
    | Some (Cat_moved b') \<Rightarrow> cat_ok b s b' \<and> ra = Realloc_moved \<and> b_free b < int (length s)
    | Some (Cat_null b') \<Rightarrow> b' = b \<and> ra = Realloc_null \<and> b_free b < int (length s)"
proof (cases "int (length s) \<le> b_free b")
  case True
  with assms buffer_cat_fits [of b s ra] show ?thesis by auto
next
  case False
  with assms obtain b' where b': "cat_ok b s b'" "buffer_cat ra b s =
       Some (case ra of Realloc_null \<Rightarrow> Cat_null b | Realloc_in_place \<Rightarrow> Cat_same b'
             | Realloc_moved \<Rightarrow> Cat_moved b')"
    using buffer_cat_grows [of b s ra] by auto
  moreover have "0 \<le> b_free b'" using b'(1) by (simp add: cat_ok_def buffer_inv_def)
  ultimately show ?thesis using False by (auto split: realloc_outcome.splits)
qed

theorem buffer_cat_correct_witness:
  "\<exists>b b'. buffer_new True 10 = Some b \<and> buffer_cat Realloc_moved b ''abcdefghijk'' = Some (Cat_moved b') \<and>
     buffer_data b' = ''abcdefghijk''"
proof -
  obtain b where b: "buffer_new True 10 = Some b" "buffer_inv b" "buffer_data b = []" "b_free b = 10"
    using buffer_new_ok [of 10] by auto
  have "b_len b + int (length ''abcdefghijk'') + BUFFER_LIMIT < 2 ^ 31"
    using length_buffer_data [OF b(2)] b(3) by simp
  from buffer_cat_correct [OF b(2) this, of Realloc_moved]
  show ?thesis using b
    by (auto simp: cat_ok_def split: option.splits cat_result.splits)
qed

text \<open>
  A client that follows the pointer it gets back: a sequence of appends and clears, each append
  with what \<open>realloc\<close> did for it, next to the same operations on a plain string.
\<close>

datatype buf_op = Op_cat realloc_outcome string | Op_clear

fun buf_step :: "buffer_t \<Rightarrow> buf_op \<Rightarrow> buffer_t option" where
  "buf_step b (Op_cat ra s) =
     (case buffer_cat ra b s of
        Some (Cat_same b') \<Rightarrow> Some b' | Some (Cat_moved b') \<Rightarrow> Some b' | _ \<Rightarrow> None)"
| "buf_step b Op_clear = Some (buffer_clear b)"

fun buf_run :: "buffer_t \<Rightarrow> buf_op list \<Rightarrow> buffer_t option" where
  "buf_run b [] = Some b"
| "buf_run b (x # xs) = buf_step b x \<bind> (\<lambda>b'. buf_run b' xs)"

fun str_step :: "string \<Rightarrow> buf_op \<Rightarrow> string" where
  "str_step t (Op_cat ra s) = t @ s"
| "str_step t Op_clear = []"

fun op_alloc_ok :: "buf_op \<Rightarrow> bool" where
  "op_alloc_ok (Op_cat ra s) = (ra \<noteq> Realloc_null)"
| "op_alloc_ok Op_clear = True"

fun op_size :: "buf_op \<Rightarrow> nat" where
  "op_size (Op_cat ra s) = length s"
| "op_size Op_clear = 0"

lemma buf_step_refines:
  assumes inv: "buffer_inv b" and ok: "op_alloc_ok x"
    and small: "b_len b + int (op_size x) + BUFFER_LIMIT < 2 ^ 31"
  shows "\<exists>b'. buf_step b x = Some b' \<and> buffer_inv b' \<and> buffer_data b' = str_step (buffer_data b) x"
proof (cases x)
  case (Op_cat ra s)
  show ?thesis
  proof (cases "int (length s) \<le> b_free b")
    case True
    with Op_cat buffer_cat_fits [OF inv True, of ra] show ?thesis by (auto simp: cat_ok_def)
  next
    case False
    with Op_cat ok small buffer_cat_grows [OF inv, of s ra] show ?thesis
      by (cases ra) (auto simp: cat_ok_def)
  qed
next
  case Op_clear
  with buffer_clear_ok [OF inv] show ?thesis by simp
qed

lemma length_str_step: "length (str_step t x) \<le> length t + op_size x"
  by (cases x) auto

lemma buf_run_refines:
  "buffer_inv b \<Longrightarrow> list_all op_alloc_ok xs \<Longrightarrow>
   b_len b + int (sum_list (map op_size xs)) + BUFFER_LIMIT < 2 ^ 31 \<Longrightarrow>
   \<exists>b'. buf_run b xs = Some b' \<and> buffer_inv b' \<and> buffer_data b' = foldl str_step (buffer_data b) xs"
proof (induction xs arbitrary: b)
  case Nil
  then show ?case by simp
next
  case (Cons x xs)
  then have "op_alloc_ok x" "b_len b + int (op_size x) + BUFFER_LIMIT < 2 ^ 31" by auto
  with Cons.prems(1) obtain b1 where b1: "buf_step b x = Some b1" "buffer_inv b1"
    "buffer_data b1 = str_step (buffer_data b) x"
    using buf_step_refines by blast
  have "b_len b1 \<le> b_len b + int (op_size x)"
    using length_buffer_data [OF b1(2)] length_buffer_data [OF Cons.prems(1)] b1(3)
      length_str_step [of "buffer_data b" x] by simp
  with Cons.prems have "b_len b1 + int (sum_list (map op_size xs)) + BUFFER_LIMIT < 2 ^ 31" by simp
  from Cons.IH [OF b1(2) _ this] Cons.prems(2) b1 show ?case by auto
qed

text \<open>
  C25. A buffer created with any capacity behaves as a plain string under every sequence of appends
  and clears in which the allocator does not fail, whether \<open>realloc\<close> moves the block or not: no
  operation leaves the block, and the contents are those of the string.
\<close>
theorem buffer_refines_string:
  assumes "0 \<le> n" and "n < 2 ^ 31" and "list_all op_alloc_ok xs"
    and "int (sum_list (map op_size xs)) + BUFFER_LIMIT < 2 ^ 31"
  shows "\<exists>b b'. buffer_new True n = Some b \<and> buf_run b xs = Some b' \<and> buffer_inv b' \<and>
           buffer_data b' = foldl str_step [] xs"
proof -
  obtain b where b: "buffer_new True n = Some b" "buffer_inv b" "buffer_data b = []"
    using buffer_new_ok [OF assms(1,2)] by blast
  moreover have "b_len b = 0" using length_buffer_data [OF b(2)] b(3) by simp
  ultimately show ?thesis using buf_run_refines [OF b(2) assms(3)] assms(4) by simp
qed

theorem buffer_refines_string_witness:
  "\<exists>b b'. buffer_new True 10 = Some b \<and>
     buf_run b [Op_cat Realloc_moved ''abc'', Op_cat Realloc_moved ''defghijk'', Op_clear,
       Op_cat Realloc_in_place ''cstr''] = Some b' \<and> buffer_data b' = ''cstr''"
  using buffer_refines_string [of 10 "[Op_cat Realloc_moved ''abc'',
      Op_cat Realloc_moved ''defghijk'', Op_clear, Op_cat Realloc_in_place ''cstr'']"]
  by auto

end
