(* ===== verification/Kernel.thy ===== *)
theory Kernel
  imports Buffer "HOL-Library.AList"
begin

text \<open>
  The operating system as the server sees it. Nothing here is code of the repository: the kernel is
  a state the system calls read and change, and every answer it may give is an input of the model.
  A socket carries the answers that its next \<open>recv\<close> and \<open>send\<close> calls get, so a statement for every
  socket is a statement for every way the network and the peer can behave; when the answers are
  used up the call would block. Directory lookup is an arbitrary function. The clock stands still
  while one call of the model runs.
\<close>

section \<open>State\<close>

text \<open>
  A \<open>recv\<close> gets bytes or fails; no bytes is the end of the stream. A \<open>send\<close> or \<open>sendfile\<close> has
  some of its bytes taken, at least one, or fails.
\<close>

datatype recv_answer = Recv_bytes string | Recv_fail
datatype send_answer = Send_some nat | Send_fail

record sock =
  s_in :: "recv_answer list"
  s_send :: "send_answer list"
  s_out :: string

text \<open>A regular file with its contents, or a directory with the size \<open>stat\<close> reports for it.\<close>

datatype inode = Regular string | Directory int

text \<open>An open file is an inode number and an offset.\<close>

datatype fd_object = Fd_sock sock | Fd_file nat nat | Fd_other

record kernel =
  k_fds :: "(int \<times> fd_object) list"
  k_epoll :: "int \<rightharpoonup> (32 word \<times> nat option)"
  k_epoll_room :: bool
  k_pending :: "sock option list"
  k_namei :: "nat \<Rightarrow> string \<Rightarrow> nat option"
  k_inode :: "nat \<Rightarrow> inode"
  k_now :: int
  k_realloc :: "realloc_outcome list"
  k_malloc :: "bool list"

datatype 'a sysret = Ret 'a | Eagain | Fail

section \<open>Descriptors\<close>

definition fd_lookup :: "'x kernel_scheme \<Rightarrow> int \<Rightarrow> fd_object option" where
  "fd_lookup k fd = map_of (k_fds k) fd"

definition fd_update :: "int \<Rightarrow> fd_object \<Rightarrow> 'x kernel_scheme \<Rightarrow> 'x kernel_scheme" where
  "fd_update fd ob k = k\<lparr>k_fds := AList.update fd ob (k_fds k)\<rparr>"

text \<open>A new descriptor is the least one that is not open.\<close>

definition new_fd :: "'x kernel_scheme \<Rightarrow> int" where
  "new_fd k = hd (filter (\<lambda>i. i \<notin> fst ` set (k_fds k)) (map int [0..<Suc (length (k_fds k))]))"

definition close_fd :: "int \<Rightarrow> 'x kernel_scheme \<Rightarrow> 'x kernel_scheme" where
  "close_fd fd k = k\<lparr>k_fds := AList.delete fd (k_fds k)\<rparr>"

section \<open>Sockets\<close>

definition sys_recv :: "int \<Rightarrow> nat \<Rightarrow> 'x kernel_scheme \<Rightarrow> string sysret \<times> 'x kernel_scheme" where
  "sys_recv fd n k =
     (case fd_lookup k fd of
        Some (Fd_sock s) \<Rightarrow>
          (case s_in s of
             [] \<Rightarrow> (Eagain, k)
           | Recv_fail # as \<Rightarrow> (Fail, fd_update fd (Fd_sock (s\<lparr>s_in := as\<rparr>)) k)
           | Recv_bytes x # as \<Rightarrow>
               (Ret (take n x),
                fd_update fd (Fd_sock (s\<lparr>s_in := (if length x \<le> n then as else Recv_bytes (drop n x) # as)\<rparr>)) k))
      | _ \<Rightarrow> (Fail, k))"

text \<open>How many of \<open>n\<close> bytes a socket takes: none are offered, or the kernel's answer.\<close>

definition sock_take :: "nat \<Rightarrow> sock \<Rightarrow> nat sysret \<times> sock" where
  "sock_take n s =
     (case s_send s of
        Send_fail # as \<Rightarrow> (Fail, s\<lparr>s_send := as\<rparr>)
      | Send_some j # as \<Rightarrow> if n = 0 then (Ret 0, s) else (Ret (min n (Suc j)), s\<lparr>s_send := as\<rparr>)
      | [] \<Rightarrow> if n = 0 then (Ret 0, s) else (Eagain, s))"

definition sys_send :: "int \<Rightarrow> string \<Rightarrow> 'x kernel_scheme \<Rightarrow> nat sysret \<times> 'x kernel_scheme" where
  "sys_send fd x k =
     (case fd_lookup k fd of
        Some (Fd_sock s) \<Rightarrow>
          (case sock_take (length x) s of
             (Ret j, s') \<Rightarrow> (Ret j, fd_update fd (Fd_sock (s'\<lparr>s_out := s_out s' @ take j x\<rparr>)) k)
           | (r, s') \<Rightarrow> (r, fd_update fd (Fd_sock s') k))
      | _ \<Rightarrow> (Fail, k))"

text \<open>\<open>sendfile\<close> from the current offset of the file, with the count as a \<open>size_t\<close>.\<close>

definition sys_sendfile :: "int \<Rightarrow> int \<Rightarrow> int \<Rightarrow> 'x kernel_scheme \<Rightarrow> nat sysret \<times> 'x kernel_scheme" where
  "sys_sendfile out_fd in_fd cnt k =
     (case (fd_lookup k out_fd, fd_lookup k in_fd) of
        (Some (Fd_sock s), Some (Fd_file i off)) \<Rightarrow>
          (case k_inode k i of
             Directory _ \<Rightarrow> (Fail, k)
           | Regular x \<Rightarrow>
               let avail = take (nat (to_size cnt)) (drop off x) in
               (case sock_take (length avail) s of
                  (Ret j, s') \<Rightarrow>
                    (Ret j, fd_update in_fd (Fd_file i (off + j))
                       (fd_update out_fd (Fd_sock (s'\<lparr>s_out := s_out s' @ take j avail\<rparr>)) k))
                | (r, s') \<Rightarrow> (r, fd_update out_fd (Fd_sock s') k)))
      | _ \<Rightarrow> (Fail, k))"

definition sys_accept :: "'x kernel_scheme \<Rightarrow> int \<times> 'x kernel_scheme" where
  "sys_accept k =
     (case k_pending k of
        [] \<Rightarrow> (ERROR, k)
      | None # ps \<Rightarrow> (ERROR, k\<lparr>k_pending := ps\<rparr>)
      | Some s # ps \<Rightarrow> (new_fd k, fd_update (new_fd k) (Fd_sock s) (k\<lparr>k_pending := ps\<rparr>)))"

section \<open>Files\<close>

definition sys_openat :: "int \<Rightarrow> string \<Rightarrow> 'x kernel_scheme \<Rightarrow> int \<times> 'x kernel_scheme" where
  "sys_openat dirfd path k =
     (case fd_lookup k dirfd of
        Some (Fd_file d _) \<Rightarrow>
          (case k_namei k d path of
             None \<Rightarrow> (ERROR, k)
           | Some i \<Rightarrow> (new_fd k, fd_update (new_fd k) (Fd_file i 0) k))
      | _ \<Rightarrow> (ERROR, k))"

text \<open>\<open>fstat\<close>: whether it is a directory and its size; nothing is stored for a bad descriptor.\<close>

definition sys_fstat :: "int \<Rightarrow> 'x kernel_scheme \<Rightarrow> (bool \<times> int) option" where
  "sys_fstat fd k =
     (case fd_lookup k fd of
        Some (Fd_file i _) \<Rightarrow>
          Some (case k_inode k i of Regular x \<Rightarrow> (False, int (length x)) | Directory n \<Rightarrow> (True, n))
      | _ \<Rightarrow> None)"

section \<open>Epoll\<close>

datatype epoll_op = EPOLL_CTL_ADD | EPOLL_CTL_MOD | EPOLL_CTL_DEL

abbreviation (input) EPOLLIN :: "32 word" where "EPOLLIN \<equiv> 0x1"
abbreviation (input) EPOLLOUT :: "32 word" where "EPOLLOUT \<equiv> 0x4"
abbreviation (input) EPOLLET :: "32 word" where "EPOLLET \<equiv> 0x80000000"

definition epoll_ctl :: "epoll_op \<Rightarrow> int \<Rightarrow> 32 word \<times> nat option \<Rightarrow> 'x kernel_scheme \<Rightarrow> int \<times> 'x kernel_scheme" where
  "epoll_ctl oper fd ev k =
     (case oper of
        EPOLL_CTL_ADD \<Rightarrow>
          if k_epoll k fd = None \<and> k_epoll_room k then (OK, k\<lparr>k_epoll := (k_epoll k)(fd \<mapsto> ev)\<rparr>) else (ERROR, k)
      | EPOLL_CTL_MOD \<Rightarrow>
          if k_epoll k fd = None then (ERROR, k) else (OK, k\<lparr>k_epoll := (k_epoll k)(fd \<mapsto> ev)\<rparr>)
      | EPOLL_CTL_DEL \<Rightarrow>
          if k_epoll k fd = None then (ERROR, k) else (OK, k\<lparr>k_epoll := (k_epoll k)(fd := None)\<rparr>))"

section \<open>Memory\<close>

text \<open>What the next call of the allocator does; without further answers it fails.\<close>

definition next_realloc :: "'x kernel_scheme \<Rightarrow> realloc_outcome \<times> 'x kernel_scheme" where
  "next_realloc k =
     (case k_realloc k of [] \<Rightarrow> (Realloc_null, k) | r # rs \<Rightarrow> (r, k\<lparr>k_realloc := rs\<rparr>))"

definition next_malloc :: "'x kernel_scheme \<Rightarrow> bool \<times> 'x kernel_scheme" where
  "next_malloc k =
     (case k_malloc k of [] \<Rightarrow> (False, k) | r # rs \<Rightarrow> (r, k\<lparr>k_malloc := rs\<rparr>))"

section \<open>Facts\<close>

lemma fd_lookup_update [simp]:
  "fd_lookup (fd_update fd ob k) = (fd_lookup k)(fd \<mapsto> ob)"
  by (auto simp: fd_lookup_def fd_update_def update_conv fun_eq_iff)

lemma fd_lookup_close [simp]: "fd_lookup (close_fd fd k) = (fd_lookup k)(fd := None)"
  by (auto simp: fd_lookup_def close_fd_def delete_conv' fun_eq_iff)

text \<open>There is always an unused descriptor among the first \<open>n + 1\<close>.\<close>

lemma new_fd_props: "0 \<le> new_fd k \<and> new_fd k \<notin> fst ` set (k_fds k)"
proof -
  let ?used = "fst ` set (k_fds k)" and ?c = "map int [0..<Suc (length (k_fds k))]"
  let ?f = "filter (\<lambda>i. i \<notin> ?used) ?c"
  have "card ?used \<le> length (k_fds k)"
    by (metis card_image_le card_length finite_set le_trans)
  moreover have "card (set ?c) = Suc (length (k_fds k))"
    by (simp add: card_image del: upt_Suc)
  ultimately have "\<not> set ?c \<subseteq> ?used"
    by (metis card_mono finite_imageI finite_set not_less_eq_eq order_trans)
  then have "?f \<noteq> []" by (auto simp: filter_empty_conv)
  then have "new_fd k \<in> set ?f" unfolding new_fd_def by (rule hd_in_set)
  then show ?thesis by (auto simp del: upt_Suc)
qed

lemma new_fd_fresh: "fd_lookup k (new_fd k) = None"
  using new_fd_props [of k] by (simp add: fd_lookup_def map_of_eq_None_iff)

lemma new_fd_nonneg [simp]: "0 \<le> new_fd k" "new_fd k \<noteq> - 1"
  using new_fd_props [of k] by auto

lemma kernel_sel_update [simp]:
  "k_epoll (fd_update fd ob k) = k_epoll k" "k_inode (fd_update fd ob k) = k_inode k"
  "k_namei (fd_update fd ob k) = k_namei k" "k_now (fd_update fd ob k) = k_now k"
  "k_epoll (close_fd fd k) = k_epoll k" "k_inode (close_fd fd k) = k_inode k"
  "k_namei (close_fd fd k) = k_namei k" "k_now (close_fd fd k) = k_now k"
  by (simp_all add: fd_update_def close_fd_def)

lemma fd_lookup_cong: "k_fds k = k_fds k' \<Longrightarrow> fd_lookup k = fd_lookup k'"
  by (simp add: fd_lookup_def fun_eq_iff)

end
