(* ===== verification/Conn_Heap.thy ===== *)
theory Conn_Heap
  imports Lotos_Prelude
begin

text \<open>
  The binary min-heap of connections at the start of \<^verbatim>\<open>src/src/connection.c\<close>: an array of
  pointers to connections ordered by \<open>active_time\<close>, each connection knowing its index. Connection
  objects live in a store from addresses to records; an array read outside the array, or an access
  through a null or dead pointer, is undefined behaviour; it and a failed \<open>assert\<close> are the value \<open>None\<close>. The later fields of a connection, and the
  rest of the server's state, are record extensions.
\<close>

section \<open>State\<close>

text \<open>
  \<open>struct connection\<close>: the epoll events it is registered for, the time of its last activity, its
  heap index. Its \<open>saddr\<close> only feeds a debug message and is left out; its request is an extension.
\<close>

record connection_t =
  c_fd :: int
  c_events :: "32 word"
  c_active_time :: int
  c_heap_idx :: int

record 'c heap_state =
  hs_conns :: "nat \<rightharpoonup> 'c"
  lotos_connections :: "int \<Rightarrow> nat option"
  heap_size :: int

type_synonym ('a, 'x) hstate = "('a connection_t_scheme, 'x) heap_state_scheme"

abbreviation (input) MAX_CONNECTION :: int where "MAX_CONNECTION \<equiv> 10240"

section \<open>Operations\<close>

definition LCHILD :: "int \<Rightarrow> int" where "LCHILD x = push_bit 1 x + 1"
definition RCHILD :: "int \<Rightarrow> int" where "RCHILD x = LCHILD x + 1"
definition PARENT :: "int \<Rightarrow> int" where "PARENT x = drop_bit 1 (x - 1)"
definition INHEAP :: "int \<Rightarrow> int \<Rightarrow> bool" where "INHEAP n x \<longleftrightarrow> - 1 < x \<and> x < n"

text \<open>Reading and writing a slot of the array, and dereferencing what is in it.\<close>

definition rd_slot :: "('a, 'x) hstate \<Rightarrow> int \<Rightarrow> nat option option" where
  "rd_slot s i = (if 0 \<le> i \<and> i < MAX_CONNECTION then Some (lotos_connections s i) else None)"

definition wr_slot :: "('a, 'x) hstate \<Rightarrow> int \<Rightarrow> nat option \<Rightarrow> ('a, 'x) hstate option" where
  "wr_slot s i v =
     (if 0 \<le> i \<and> i < MAX_CONNECTION
      then Some (s\<lparr>lotos_connections := (lotos_connections s)(i := v)\<rparr>) else None)"

definition deref :: "('a, 'x) hstate \<Rightarrow> nat option \<Rightarrow> 'a connection_t_scheme option" where
  "deref s r = (case r of None \<Rightarrow> None | Some p \<Rightarrow> hs_conns s p)"

definition conn_at :: "('a, 'x) hstate \<Rightarrow> int \<Rightarrow> 'a connection_t_scheme option" where
  "conn_at s i = do { r \<leftarrow> rd_slot s i; deref s r }"

definition upd_conn ::
  "('a connection_t_scheme \<Rightarrow> 'a connection_t_scheme) \<Rightarrow> nat option \<Rightarrow> ('a, 'x) hstate \<Rightarrow> ('a, 'x) hstate option"
where
  "upd_conn f r s = (case r of None \<Rightarrow> None
     | Some p \<Rightarrow> (case hs_conns s p of None \<Rightarrow> None
        | Some c \<Rightarrow> Some (s\<lparr>hs_conns := (hs_conns s)(p \<mapsto> f c)\<rparr>)))"

definition c_swap :: "int \<Rightarrow> int \<Rightarrow> ('a, 'x) hstate \<Rightarrow> ('a, 'x) hstate option" where
  "c_swap x y s = (if x \<ge> 0 \<and> x < heap_size s \<and> y \<ge> 0 \<and> y < heap_size s then do {
     tmp \<leftarrow> rd_slot s x;
     q \<leftarrow> rd_slot s y;
     s \<leftarrow> wr_slot s x q;
     s \<leftarrow> wr_slot s y tmp;
     r \<leftarrow> rd_slot s x;
     s \<leftarrow> upd_conn (\<lambda>c. c\<lparr>c_heap_idx := x\<rparr>) r s;
     r \<leftarrow> rd_slot s y;
     upd_conn (\<lambda>c. c\<lparr>c_heap_idx := y\<rparr>) r s
   } else None)"

partial_function (option) heap_bubble_up :: "int \<Rightarrow> ('a, 'x) hstate \<Rightarrow> ('a, 'x) hstate option" where
  "heap_bubble_up idx s =
     (if PARENT idx \<ge> 0 then do {
        let fidx = PARENT idx;
        c \<leftarrow> conn_at s idx;
        fc \<leftarrow> conn_at s fidx;
        if c_active_time c \<ge> c_active_time fc then Some s
        else do { s' \<leftarrow> c_swap idx fidx s; heap_bubble_up fidx s' }
      }
      else Some s)"

declare heap_bubble_up.simps [code]

text \<open>The child \<open>heap_bubble_down\<close> compares with, given the two child indices in the heap.\<close>

definition proper_child :: "int \<Rightarrow> int \<Rightarrow> ('a, 'x) hstate \<Rightarrow> int option" where
  "proper_child lchild rchild s =
     (if INHEAP (heap_size s) lchild \<and> INHEAP (heap_size s) rchild then do {
        cl \<leftarrow> conn_at s lchild;
        cr \<leftarrow> conn_at s rchild;
        Some (if c_active_time cl < c_active_time cr then lchild else rchild)
      }
      else if lchild > heap_size s then Some rchild else Some lchild)"

partial_function (option) heap_bubble_down :: "int \<Rightarrow> ('a, 'x) hstate \<Rightarrow> ('a, 'x) hstate option" where
  "heap_bubble_down idx s =
     (let n = heap_size s;
          lchild = (if INHEAP n (LCHILD idx) then LCHILD idx else n + 1);
          rchild = (if INHEAP n (RCHILD idx) then RCHILD idx else n + 1) in
      if lchild > n \<and> rchild > n then Some s
      else do {
        child \<leftarrow> proper_child lchild rchild s;
        c \<leftarrow> conn_at s idx;
        cc \<leftarrow> conn_at s child;
        if c_active_time c \<le> c_active_time cc then Some s
        else if \<not> INHEAP n child then None
        else do { s' \<leftarrow> c_swap idx child s; heap_bubble_down child s' }
      })"

declare heap_bubble_down.simps [code]

definition heap_insert :: "nat \<Rightarrow> ('a, 'x) hstate \<Rightarrow> (int \<times> ('a, 'x) hstate) option" where
  "heap_insert c s =
     (if heap_size s \<ge> MAX_CONNECTION then Some (ERROR, s)
      else do {
        s \<leftarrow> wr_slot s (heap_size s) (Some c);
        let s = s\<lparr>heap_size := heap_size s + 1\<rparr>;
        s \<leftarrow> upd_conn (\<lambda>x. x\<lparr>c_heap_idx := heap_size s - 1\<rparr>) (Some c) s;
        s \<leftarrow> heap_bubble_up (heap_size s - 1) s;
        Some (0, s)
      })"

definition connection_register :: "nat \<Rightarrow> ('a, 'x) hstate \<Rightarrow> (int \<times> ('a, 'x) hstate) option" where
  "connection_register c s =
     (if heap_size s \<ge> MAX_CONNECTION then Some (ERROR, s) else heap_insert c s)"

definition connection_unregister :: "nat \<Rightarrow> ('a, 'x) hstate \<Rightarrow> ('a, 'x) hstate option" where
  "connection_unregister c s = (if \<not> heap_size s \<ge> 1 then None else do {
     x \<leftarrow> hs_conns s c;
     lst \<leftarrow> rd_slot s (heap_size s - 1);
     s \<leftarrow> wr_slot s (c_heap_idx x) lst;
     r \<leftarrow> rd_slot s (c_heap_idx x);
     s \<leftarrow> upd_conn (\<lambda>y. y\<lparr>c_heap_idx := c_heap_idx x\<rparr>) r s;
     let s = s\<lparr>heap_size := heap_size s - 1\<rparr>;
     x \<leftarrow> hs_conns s c;
     heap_bubble_down (c_heap_idx x) s
   })"

text \<open>The two re-orderings on activity; \<open>now\<close> is what \<open>time(NULL)\<close> returns.\<close>

definition connecion_set_reactivated :: "int \<Rightarrow> nat \<Rightarrow> ('a, 'x) hstate \<Rightarrow> ('a, 'x) hstate option" where
  "connecion_set_reactivated now c s = do {
     s \<leftarrow> upd_conn (\<lambda>x. x\<lparr>c_active_time := now\<rparr>) (Some c) s;
     x \<leftarrow> hs_conns s c;
     heap_bubble_down (c_heap_idx x) s
   }"

definition connecion_set_expired :: "nat \<Rightarrow> ('a, 'x) hstate \<Rightarrow> ('a, 'x) hstate option" where
  "connecion_set_expired c s = do {
     s \<leftarrow> upd_conn (\<lambda>x. x\<lparr>c_active_time := 0\<rparr>) (Some c) s;
     x \<leftarrow> hs_conns s c;
     heap_bubble_up (c_heap_idx x) s
   }"

section \<open>Heap order, abstractly\<close>

text \<open>
  A heap is a function from indices to keys. The two partial orders below are what holds while an
  element moves up or down: order holds everywhere but at one index, and across it.
\<close>

definition par :: "int \<Rightarrow> int" where "par i = (i - 1) div 2"

definition ord_heap :: "(int \<Rightarrow> int) \<Rightarrow> int \<Rightarrow> bool" where
  "ord_heap A n \<longleftrightarrow> (\<forall>i. 0 < i \<and> i < n \<longrightarrow> A (par i) \<le> A i)"

definition ord_up :: "(int \<Rightarrow> int) \<Rightarrow> int \<Rightarrow> int \<Rightarrow> bool" where
  "ord_up A n k \<longleftrightarrow> (\<forall>i. 0 < i \<and> i < n \<and> i \<noteq> k \<longrightarrow> A (par i) \<le> A i) \<and>
     (\<forall>j. 0 < k \<and> j < n \<and> 0 < j \<and> par j = k \<longrightarrow> A (par k) \<le> A j)"

definition ord_down :: "(int \<Rightarrow> int) \<Rightarrow> int \<Rightarrow> int \<Rightarrow> bool" where
  "ord_down A n k \<longleftrightarrow> (\<forall>i. 0 < i \<and> i < n \<and> par i \<noteq> k \<longrightarrow> A (par i) \<le> A i) \<and>
     (\<forall>j. 0 < k \<and> j < n \<and> 0 < j \<and> par j = k \<longrightarrow> A (par k) \<le> A j)"

definition swapped :: "(int \<Rightarrow> 'k) \<Rightarrow> int \<Rightarrow> int \<Rightarrow> int \<Rightarrow> 'k" where
  "swapped A x y = A(x := A y, y := A x)"

lemma par_less: "0 < i \<Longrightarrow> 0 \<le> par i \<and> par i < i"
  by (auto simp: par_def)

lemma par_children: "0 \<le> k \<Longrightarrow> 0 < i \<Longrightarrow> par i = k \<longleftrightarrow> i = 2 * k + 1 \<or> i = 2 * k + 2"
  by (auto simp: par_def)

lemma ord_up_swap:
  assumes "ord_up A n k" and "0 < k" and "k < n" and "A k < A (par k)"
  shows "ord_up (swapped A k (par k)) n (par k)"
proof -
  have p: "0 \<le> par k" "par k < k" using par_less [OF assms(2)] by auto
  have up: "\<And>i. 0 < i \<Longrightarrow> i < n \<Longrightarrow> i \<noteq> k \<Longrightarrow> A (par i) \<le> A i"
    and across: "\<And>j. j < n \<Longrightarrow> 0 < j \<Longrightarrow> par j = k \<Longrightarrow> A (par k) \<le> A j"
    using assms(1,2) by (auto simp: ord_up_def)
  have "swapped A k (par k) (par i) \<le> swapped A k (par k) i" if "0 < i" "i < n" "i \<noteq> par k" for i
    using that up [of i] across [of i] assms(2-4) par_less [of i] p
    by (auto simp: swapped_def)
  moreover have "swapped A k (par k) (par (par k)) \<le> swapped A k (par k) j"
    if "0 < par k" "j < n" "0 < j" "par j = par k" for j
    using that up [of j] up [of "par k"] assms(2-4) par_less [of "par k"] p
    by (auto simp: swapped_def)
  ultimately show ?thesis by (auto simp: ord_up_def)
qed

lemma ord_up_done: "ord_up A n k \<Longrightarrow> k \<le> 0 \<or> A (par k) \<le> A k \<Longrightarrow> ord_heap A n"
  unfolding ord_up_def ord_heap_def by (metis not_less)

lemma ord_down_swap:
  assumes "ord_down A n k" and "0 \<le> k" and "m < n" and "m = 2 * k + 1 \<or> m = 2 * k + 2"
    and least: "\<And>j. j < n \<Longrightarrow> j = 2 * k + 1 \<or> j = 2 * k + 2 \<Longrightarrow> A m \<le> A j" and "A m < A k"
  shows "ord_down (swapped A k m) n m"
proof -
  have km: "k < m" "par m = k" using assms(2,4) by (auto simp: par_def)
  have down: "\<And>i. 0 < i \<Longrightarrow> i < n \<Longrightarrow> par i \<noteq> k \<Longrightarrow> A (par i) \<le> A i"
    and across: "\<And>j. 0 < k \<Longrightarrow> j < n \<Longrightarrow> 0 < j \<Longrightarrow> par j = k \<Longrightarrow> A (par k) \<le> A j"
    using assms(1) by (auto simp: ord_down_def)
  have "swapped A k m (par i) \<le> swapped A k m i" if "0 < i" "i < n" "par i \<noteq> m" for i
  proof (cases "par i = k")
    case True
    then have "A m \<le> A i" using that least par_children [OF assms(2) that(1)] by blast
    with True km assms(6) that par_less [OF that(1)] show ?thesis by (auto simp: swapped_def)
  next
    case False
    with down [OF that(1,2)] that km across [of m] assms(2,3) show ?thesis
      by (auto simp: swapped_def)
  qed
  moreover have "swapped A k m (par m) \<le> swapped A k m j" if "j < n" "0 < j" "par j = m" for j
    using that km down [of j] par_less [OF that(2)] by (auto simp: swapped_def)
  ultimately show ?thesis by (auto simp: ord_down_def)
qed

lemma ord_down_done:
  assumes "ord_down A n k" and "\<And>j. 0 < j \<Longrightarrow> j < n \<Longrightarrow> par j = k \<Longrightarrow> A k \<le> A j"
  shows "ord_heap A n"
  unfolding ord_heap_def
proof (intro allI impI)
  fix i assume "0 < i \<and> i < n"
  with assms show "A (par i) \<le> A i" by (cases "par i = k") (auto simp: ord_down_def)
qed

lemma ord_heap_root: "ord_heap A n \<Longrightarrow> 0 \<le> i \<Longrightarrow> i < n \<Longrightarrow> A 0 \<le> A i"
proof (induction "nat i" arbitrary: i rule: less_induct)
  case less
  show ?case
  proof (cases "i = 0")
    case False
    then have p: "0 \<le> par i" "par i < i" using less.prems par_less [of i] by auto
    with less have "A 0 \<le> A (par i)" by auto
    also have "\<dots> \<le> A i" using less.prems False by (auto simp: ord_heap_def)
    finally show ?thesis .
  qed simp
qed

section \<open>Well-formed heaps\<close>

text \<open>Every slot in use points to a live connection that knows its index.\<close>

definition heap_wf :: "('a, 'x) hstate \<Rightarrow> bool" where
  "heap_wf s \<longleftrightarrow> 0 \<le> heap_size s \<and> heap_size s \<le> MAX_CONNECTION \<and>
     (\<forall>i. 0 \<le> i \<and> i < heap_size s \<longrightarrow>
        (\<exists>p c. lotos_connections s i = Some p \<and> hs_conns s p = Some c \<and> c_heap_idx c = i))"

definition slot_ptr :: "('a, 'x) hstate \<Rightarrow> int \<Rightarrow> nat" where
  "slot_ptr s i = the (lotos_connections s i)"

definition atime :: "('a, 'x) hstate \<Rightarrow> nat \<Rightarrow> int" where
  "atime s p = c_active_time (the (hs_conns s p))"

definition keys :: "('a, 'x) hstate \<Rightarrow> int \<Rightarrow> int" where
  "keys s i = atime s (slot_ptr s i)"

definition members :: "('a, 'x) hstate \<Rightarrow> nat set" where
  "members s = slot_ptr s ` {0..<heap_size s}"

text \<open>The store without the heap indices: what the heap operations must not touch.\<close>

definition strip_idx :: "('a, 'x) hstate \<Rightarrow> nat \<rightharpoonup> 'a connection_t_scheme" where
  "strip_idx s p = map_option (c_heap_idx_update (\<lambda>_. 0)) (hs_conns s p)"

definition heap_moves :: "('a, 'x) hstate \<Rightarrow> ('a, 'x) hstate \<Rightarrow> bool" where
  "heap_moves s s' \<longleftrightarrow> heap_wf s' \<and> heap_size s' = heap_size s \<and> members s' = members s \<and>
     strip_idx s' = strip_idx s \<and> heap_state.more s' = heap_state.more s"

lemma heap_wfD:
  assumes "heap_wf s" and "0 \<le> i" and "i < heap_size s"
  shows "lotos_connections s i = Some (slot_ptr s i)"
    and "\<exists>c. hs_conns s (slot_ptr s i) = Some c \<and> c_heap_idx c = i \<and> c_active_time c = keys s i"
    and "i < MAX_CONNECTION"
  using assms by (auto simp: heap_wf_def slot_ptr_def keys_def atime_def dest!: spec [of _ i])

lemma conn_at_wf:
  assumes "heap_wf s" and "0 \<le> i" and "i < heap_size s"
  shows "\<exists>c. conn_at s i = Some c \<and> hs_conns s (slot_ptr s i) = Some c \<and> c_active_time c = keys s i"
  using heap_wfD [OF assms] assms(2) by (auto simp: conn_at_def rd_slot_def deref_def)

lemma slot_ptr_inj:
  assumes "heap_wf s" and "0 \<le> i" "i < heap_size s" "0 \<le> j" "j < heap_size s"
  shows "slot_ptr s i = slot_ptr s j \<longleftrightarrow> i = j"
  using heap_wfD(2) [OF assms(1-3)] heap_wfD(2) [OF assms(1,4,5)] by (metis option.inject)

lemma strip_idx_atime: "strip_idx s' = strip_idx s \<Longrightarrow> atime s' p = atime s p"
proof -
  assume "strip_idx s' = strip_idx s"
  then have "map_option (c_heap_idx_update (\<lambda>_. 0)) (hs_conns s' p) =
      map_option (c_heap_idx_update (\<lambda>_. 0)) (hs_conns s p)"
    unfolding strip_idx_def by metis
  then show ?thesis
    by (cases "hs_conns s' p"; cases "hs_conns s p")
      (auto simp: atime_def dest: arg_cong [of _ _ c_active_time])
qed

lemma heap_moves_refl: "heap_wf s \<Longrightarrow> heap_moves s s"
  by (simp add: heap_moves_def)

lemma heap_moves_trans: "heap_moves s s' \<Longrightarrow> heap_moves s' s'' \<Longrightarrow> heap_moves s s''"
  by (simp add: heap_moves_def)

lemma swapped_image:
  "x \<in> I \<Longrightarrow> y \<in> I \<Longrightarrow> swapped f x y ` I = f ` I"
  unfolding swapped_def by (auto simp: image_iff)

lemma c_swap_ok:
  assumes wf: "heap_wf s" and x: "0 \<le> x" "x < heap_size s" and y: "0 \<le> y" "y < heap_size s"
    and xy: "x \<noteq> y"
  shows "\<exists>s'. c_swap x y s = Some s' \<and> heap_moves s s' \<and> keys s' = swapped (keys s) x y"
proof -
  obtain px cx where px: "lotos_connections s x = Some px" "hs_conns s px = Some cx" "slot_ptr s x = px"
    using heap_wfD [OF wf x] by auto
  obtain py cy where py: "lotos_connections s y = Some py" "hs_conns s py = Some cy" "slot_ptr s y = py"
    using heap_wfD [OF wf y] by auto
  have ne: "px \<noteq> py" using slot_ptr_inj [OF wf x y] xy px py by simp
  define s' where "s' = s\<lparr>lotos_connections := (lotos_connections s)(x := Some py, y := Some px),
     hs_conns := (hs_conns s)(py \<mapsto> cy\<lparr>c_heap_idx := x\<rparr>, px \<mapsto> cx\<lparr>c_heap_idx := y\<rparr>)\<rparr>"
  have "c_swap x y s = Some s'"
    using px py ne xy x y heap_wfD(3) [OF wf x] heap_wfD(3) [OF wf y]
    by (simp add: c_swap_def rd_slot_def wr_slot_def upd_conn_def s'_def)
  moreover have strip: "strip_idx s' = strip_idx s"
    using px py ne by (auto simp: strip_idx_def s'_def fun_eq_iff)
  moreover have ptr: "slot_ptr s' = swapped (slot_ptr s) x y"
    using px py xy by (auto simp: slot_ptr_def s'_def swapped_def fun_eq_iff)
  moreover have wf': "heap_wf s'"
    unfolding heap_wf_def
  proof (intro conjI allI impI)
    show "0 \<le> heap_size s'" "heap_size s' \<le> MAX_CONNECTION"
      using wf by (auto simp: heap_wf_def s'_def)
  next
    fix i assume i: "0 \<le> i \<and> i < heap_size s'"
    then have i': "0 \<le> i" "i < heap_size s" by (auto simp: s'_def)
    obtain p c where pc: "lotos_connections s i = Some p" "hs_conns s p = Some c" "c_heap_idx c = i"
      "p = slot_ptr s i"
      using heap_wfD [OF wf i'] by auto
    then show "\<exists>p c. lotos_connections s' i = Some p \<and> hs_conns s' p = Some c \<and> c_heap_idx c = i"
      using slot_ptr_inj [OF wf i' x] slot_ptr_inj [OF wf i' y] px py ne xy
      by (cases "i = x"; cases "i = y") (auto simp: s'_def)
  qed
  moreover have n: "heap_size s' = heap_size s" by (simp add: s'_def)
  moreover have "members s' = members s"
    unfolding members_def n ptr using x y by (intro swapped_image) auto
  moreover have "keys s' = swapped (keys s) x y"
    using strip_idx_atime [OF strip] ptr by (auto simp: keys_def swapped_def fun_eq_iff)
  ultimately show ?thesis by (auto simp: heap_moves_def s'_def)
qed

section \<open>Moving an element up or down\<close>

lemma PARENT_par: "PARENT i = par i"
  by (simp add: PARENT_def par_def drop_bit_eq_div)

lemma LCHILD_eq: "LCHILD i = 2 * i + 1" and RCHILD_eq: "RCHILD i = 2 * i + 2"
  by (simp_all add: LCHILD_def RCHILD_def push_bit_eq_mult)

lemma heap_bubble_up_ok:
  "heap_wf s \<Longrightarrow> 0 \<le> idx \<Longrightarrow> idx < heap_size s \<Longrightarrow> ord_up (keys s) (heap_size s) idx \<Longrightarrow>
   \<exists>s'. heap_bubble_up idx s = Some s' \<and> heap_moves s s' \<and> ord_heap (keys s') (heap_size s)"
proof (induction "nat idx" arbitrary: idx s rule: less_induct)
  case less
  show ?case
  proof (cases "0 < idx")
    case False
    then have "PARENT idx < 0" using less.prems by (simp add: PARENT_par par_def)
    with False less.prems show ?thesis
      by (subst heap_bubble_up.simps) (auto simp: heap_moves_refl intro: ord_up_done)
  next
    case True
    then have p: "0 \<le> par idx" "par idx < idx" using par_less by auto
    then have pn: "par idx < heap_size s" using less.prems by simp
    obtain c fc where c: "conn_at s idx = Some c" "c_active_time c = keys s idx"
      "conn_at s (par idx) = Some fc" "c_active_time fc = keys s (par idx)"
      using conn_at_wf less.prems p pn by metis
    show ?thesis
    proof (cases "keys s (par idx) \<le> keys s idx")
      case le: True
      with c p less.prems show ?thesis
        by (subst heap_bubble_up.simps) (auto simp: PARENT_par Let_def heap_moves_refl intro: ord_up_done)
    next
      case gt: False
      obtain s1 where s1: "c_swap idx (par idx) s = Some s1" "heap_moves s s1"
        "keys s1 = swapped (keys s) idx (par idx)"
        using c_swap_ok [of s idx "par idx"] less.prems p pn by auto
      have "ord_up (keys s1) (heap_size s1) (par idx)"
        using ord_up_swap [OF less.prems(4) True less.prems(3)] gt s1 by (simp add: heap_moves_def)
      then obtain s2 where s2: "heap_bubble_up (par idx) s1 = Some s2" "heap_moves s1 s2"
        "ord_heap (keys s2) (heap_size s1)"
        using less.hyps [of "par idx" s1] s1(2) p pn True by (auto simp: heap_moves_def)
      have "heap_bubble_up idx s = Some s2"
        using c p gt s1 s2 by (subst heap_bubble_up.simps) (simp add: PARENT_par Let_def)
      with s1(2) s2 show ?thesis using heap_moves_trans [OF s1(2) s2(2)] by (auto simp: heap_moves_def)
    qed
  qed
qed

lemma proper_child_least:
  assumes wf: "heap_wf s" and idx: "0 \<le> idx" "2 * idx + 1 < heap_size s"
    and l: "l = 2 * idx + 1" and r: "r = (if 2 * idx + 2 < heap_size s then 2 * idx + 2 else heap_size s + 1)"
  shows "\<exists>m. proper_child l r s = Some m \<and> m < heap_size s \<and> (m = 2 * idx + 1 \<or> m = 2 * idx + 2) \<and>
     (\<forall>j < heap_size s. j = 2 * idx + 1 \<or> j = 2 * idx + 2 \<longrightarrow> keys s m \<le> keys s j)"
proof (cases "2 * idx + 2 < heap_size s")
  case True
  obtain cl where "conn_at s (2 * idx + 1) = Some cl" "c_active_time cl = keys s (2 * idx + 1)"
    using conn_at_wf [OF wf, of "2 * idx + 1"] idx by auto
  moreover obtain cr where "conn_at s (2 * idx + 2) = Some cr" "c_active_time cr = keys s (2 * idx + 2)"
    using conn_at_wf [OF wf, of "2 * idx + 2"] idx True by auto
  ultimately show ?thesis using True idx l r by (auto simp: proper_child_def INHEAP_def)
next
  case False
  with idx l r show ?thesis by (auto simp: proper_child_def INHEAP_def)
qed

text \<open>
  Bubbling down ends and stays memory-safe from any index; it restores the order when only that
  index is out of place.
\<close>

lemma heap_bubble_down_ok:
  "heap_wf s \<Longrightarrow> 0 \<le> idx \<Longrightarrow>
   \<exists>s'. heap_bubble_down idx s = Some s' \<and> heap_moves s s' \<and>
     (ord_down (keys s) (heap_size s) idx \<longrightarrow> ord_heap (keys s') (heap_size s))"
proof (induction "nat (heap_size s - idx)" arbitrary: idx s rule: less_induct)
  case less
  let ?n = "heap_size s"
  let ?r = "if 2 * idx + 2 < ?n then 2 * idx + 2 else ?n + 1"
  show ?case
  proof (cases "2 * idx + 1 < ?n")
    case False
    then have "ord_down (keys s) ?n idx \<longrightarrow> ord_heap (keys s) ?n"
      using less.prems ord_down_done [of "keys s" ?n idx] by (auto simp: par_def)
    with False less.prems show ?thesis
      by (subst heap_bubble_down.simps) (auto simp: LCHILD_eq RCHILD_eq INHEAP_def heap_moves_refl)
  next
    case True
    have rec: "heap_bubble_down idx s = do {
        child \<leftarrow> proper_child (2 * idx + 1) ?r s; c \<leftarrow> conn_at s idx; cc \<leftarrow> conn_at s child;
        if c_active_time c \<le> c_active_time cc then Some s
        else if \<not> INHEAP (heap_size s) child then None
        else do { s' \<leftarrow> c_swap idx child s; heap_bubble_down child s' } }"
      using True less.prems by (subst heap_bubble_down.simps) (auto simp: LCHILD_eq RCHILD_eq INHEAP_def Let_def)
    obtain m where m: "proper_child (2 * idx + 1) ?r s = Some m" "m < ?n"
      "m = 2 * idx + 1 \<or> m = 2 * idx + 2"
      "\<forall>j < ?n. j = 2 * idx + 1 \<or> j = 2 * idx + 2 \<longrightarrow> keys s m \<le> keys s j"
      using proper_child_least [OF less.prems(1,2) True refl refl] by blast
    then have im: "0 \<le> m" "idx < m" "idx < ?n" using less.prems by auto
    obtain c cc where c: "conn_at s idx = Some c" "c_active_time c = keys s idx"
      "conn_at s m = Some cc" "c_active_time cc = keys s m"
      using conn_at_wf [OF less.prems(1)] less.prems(2) im m(2) by metis
    show ?thesis
    proof (cases "keys s idx \<le> keys s m")
      case le: True
      have "keys s idx \<le> keys s j" if "0 < j" "j < ?n" "par j = idx" for j
        using that m(4) par_children [OF less.prems(2) that(1)] le by (auto intro: order_trans)
      then have "ord_down (keys s) ?n idx \<longrightarrow> ord_heap (keys s) ?n" using ord_down_done by blast
      with rec m c le less.prems(1) show ?thesis by (auto simp: heap_moves_refl)
    next
      case gt: False
      obtain s1 where s1: "c_swap idx m s = Some s1" "heap_moves s s1" "keys s1 = swapped (keys s) idx m"
        using c_swap_ok [of s idx m] less.prems im m(2) by auto
      have "keys s m \<le> keys s j" if "j < ?n" "j = 2 * idx + 1 \<or> j = 2 * idx + 2" for j
        using that m(4) by blast
      from ord_down_swap [of "keys s", OF _ less.prems(2) m(2,3) this]
      have "ord_down (keys s) ?n idx \<longrightarrow> ord_down (keys s1) (heap_size s1) m"
        using gt s1 by (simp add: heap_moves_def)
      then obtain s2 where s2: "heap_bubble_down m s1 = Some s2" "heap_moves s1 s2"
        "ord_down (keys s) ?n idx \<longrightarrow> ord_heap (keys s2) (heap_size s1)"
        using less.hyps [of s1 m] s1(2) im by (auto simp: heap_moves_def)
      have "heap_bubble_down idx s = Some s2" using rec m c gt s1 s2 im by (simp add: INHEAP_def)
      with s2 show ?thesis using heap_moves_trans [OF s1(2) s2(2)] s1(2) by (auto simp: heap_moves_def)
    qed
  qed
qed

section \<open>The heap operations\<close>

definition heap_inv :: "('a, 'x) hstate \<Rightarrow> bool" where
  "heap_inv s \<longleftrightarrow> heap_wf s \<and> ord_heap (keys s) (heap_size s)"

text \<open>The keys of a state whose store and array differ in known places.\<close>

lemma members_live: "heap_wf s \<Longrightarrow> p \<in> members s \<Longrightarrow> \<exists>c. hs_conns s p = Some c \<and>
    0 \<le> c_heap_idx c \<and> c_heap_idx c < heap_size s \<and> slot_ptr s (c_heap_idx c) = p"
  unfolding members_def using heap_wfD(2) by fastforce

lemma heap_insert_ok:
  assumes inv: "heap_inv s" and room: "heap_size s < MAX_CONNECTION"
    and c: "hs_conns s c = Some x" "c \<notin> members s"
  shows "\<exists>s'. heap_insert c s = Some (0, s') \<and> heap_inv s' \<and> members s' = insert c (members s) \<and>
     heap_size s' = heap_size s + 1 \<and> strip_idx s' = strip_idx s \<and> heap_state.more s' = heap_state.more s"
proof -
  let ?n = "heap_size s"
  have wf: "heap_wf s" and n0: "0 \<le> ?n" using inv by (auto simp: heap_inv_def heap_wf_def)
  define s1 where "s1 = s\<lparr>lotos_connections := (lotos_connections s)(?n := Some c), heap_size := ?n + 1,
      hs_conns := (hs_conns s)(c \<mapsto> x\<lparr>c_heap_idx := ?n\<rparr>)\<rparr>"
  have ins: "heap_insert c s = map_option (Pair 0) (heap_bubble_up ?n s1)"
    using room n0 c by (simp add: heap_insert_def wr_slot_def upd_conn_def s1_def Let_def map_conv_bind_option comp_def)
  have ptr: "slot_ptr s1 = (slot_ptr s)(?n := c)" by (auto simp: slot_ptr_def s1_def fun_eq_iff)
  have other: "slot_ptr s i \<noteq> c" if "0 \<le> i" "i < ?n" for i
    using c(2) that by (auto simp: members_def)
  have strip: "strip_idx s1 = strip_idx s" using c by (auto simp: strip_idx_def s1_def fun_eq_iff)
  have n1: "heap_size s1 = ?n + 1" by (simp add: s1_def)
  have wf1: "heap_wf s1"
    unfolding heap_wf_def n1
  proof (intro conjI allI impI)
    fix i assume i: "0 \<le> i \<and> i < ?n + 1"
    show "\<exists>p y. lotos_connections s1 i = Some p \<and> hs_conns s1 p = Some y \<and> c_heap_idx y = i"
    proof (cases "i = ?n")
      case False
      with i have "0 \<le> i" "i < ?n" by auto
      with False heap_wfD [OF wf this] other [OF this] show ?thesis by (auto simp: s1_def)
    qed (simp add: s1_def)
  qed (use n0 room in auto)
  have "{0..<?n + 1} = insert ?n {0..<?n}" using n0 by auto
  then have mem: "members s1 = insert c (members s)" by (auto simp: members_def ptr n1)
  have k: "keys s1 i = keys s i" if "i < ?n" for i
    using strip_idx_atime [OF strip] that by (simp add: keys_def ptr)
  have "keys s1 (par i) \<le> keys s1 i" if "0 < i" "i < ?n" for i
    using inv that par_less [of i] by (simp add: k heap_inv_def ord_heap_def)
  moreover have "par j \<noteq> ?n" if "0 < j" "j < ?n + 1" for j using par_less [OF that(1)] that by auto
  ultimately have "ord_up (keys s1) (heap_size s1) ?n" by (auto simp: ord_up_def n1)
  then obtain s2 where "heap_bubble_up ?n s1 = Some s2" "heap_moves s1 s2"
    "ord_heap (keys s2) (heap_size s1)"
    using heap_bubble_up_ok [OF wf1 n0] n1 by auto
  then show ?thesis using ins mem strip by (auto simp: heap_moves_def heap_inv_def s1_def)
qed

text \<open>Moving the last slot into the place of another one: what is left in the array, and its order.\<close>

lemma drop_slot_image:
  fixes n :: int
  assumes "inj_on f {0..<n}" and "0 \<le> i" and "i < n"
  shows "(f(i := f (n - 1))) ` {0..<n - 1} = f ` {0..<n} - {f i}"
proof -
  have "f ` {0..<n} - {f i} = f ` ({0..<n} - {i})"
    using inj_on_image_set_diff [OF assms(1), of "{0..<n}" "{i}"] assms(2,3) by simp
  also have "\<dots> = (f(i := f (n - 1))) ` {0..<n - 1}"
  proof (cases "i = n - 1")
    case True
    then have "{0..<n} - {i} = {0..<n - 1}" by auto
    then show ?thesis using True by (auto simp: image_iff)
  next
    case False
    then have "{0..<n} - {i} = insert (n - 1) ({0..<n - 1} - {i})"
      "{0..<n - 1} = insert i ({0..<n - 1} - {i})" using assms(2,3) by auto
    then show ?thesis by (metis (no_types, lifting) Diff_iff fun_upd_image fun_upd_same image_insert insertI1)
  qed
  finally show ?thesis by simp
qed

lemma ord_down_last:
  assumes ord: "\<And>j. 0 < j \<Longrightarrow> j < n \<Longrightarrow> k (par j) \<le> k j" and i: "0 \<le> i" "i < n"
    and last: "i = 0 \<or> k (par i) \<le> k (n - 1)"
  shows "ord_down (k(i := k (n - 1))) (n - 1) i"
  unfolding ord_down_def
proof (intro conjI allI impI)
  fix j assume "0 < j \<and> j < n - 1 \<and> par j \<noteq> i"
  then show "(k(i := k (n - 1))) (par j) \<le> (k(i := k (n - 1))) j" using ord [of j] last by auto
next
  fix j assume j: "0 < i \<and> j < n - 1 \<and> 0 < j \<and> par j = i"
  have "k (par i) \<le> k i" "k i \<le> k j" using j ord [of i] ord [of j] i by auto
  then show "(k(i := k (n - 1))) (par i) \<le> (k(i := k (n - 1))) j" using j par_less [of i] par_less [of j] by auto
qed

lemma unregister_ok:
  assumes inv: "heap_inv s" and c: "c \<in> members s" "hs_conns s c = Some x"
  shows "\<exists>s'. connection_unregister c s = Some s' \<and> heap_wf s' \<and>
     (c_heap_idx x = 0 \<or> keys s (par (c_heap_idx x)) \<le> keys s (heap_size s - 1) \<longrightarrow> heap_inv s') \<and> members s' = members s - {c} \<and>
     heap_size s' = heap_size s - 1 \<and> strip_idx s' = strip_idx s \<and> heap_state.more s' = heap_state.more s"
proof -
  let ?n = "heap_size s" and ?i = "c_heap_idx x"
  have wf: "heap_wf s" using inv by (simp add: heap_inv_def)
  have i: "0 \<le> ?i" "?i < ?n" "slot_ptr s ?i = c"
    using members_live [OF wf c(1)] c(2) by auto
  then have n: "0 \<le> ?n - 1" "?n - 1 < ?n" "?n - 1 < MAX_CONNECTION" "?i < MAX_CONNECTION"
    using heap_wfD(3) [OF wf, of "?n - 1"] heap_wfD(3) [OF wf i(1,2)] by auto
  obtain q y where q: "lotos_connections s (?n - 1) = Some q" "hs_conns s q = Some y"
    "c_heap_idx y = ?n - 1" "slot_ptr s (?n - 1) = q"
    using heap_wfD [OF wf n(1,2)] by auto
  have qc: "q = c \<longleftrightarrow> ?i = ?n - 1" using slot_ptr_inj [OF wf n(1,2) i(1,2)] i(3) q(4) by auto
  define s1 where "s1 = s\<lparr>lotos_connections := (lotos_connections s)(?i := Some q),
      hs_conns := (hs_conns s)(q \<mapsto> y\<lparr>c_heap_idx := ?i\<rparr>), heap_size := ?n - 1\<rparr>"
  have n1: "heap_size s1 = ?n - 1" by (simp add: s1_def)
  have unreg: "connection_unregister c s = heap_bubble_down ?i s1"
    using c(2) q i n qc
    by (auto simp: connection_unregister_def rd_slot_def wr_slot_def upd_conn_def s1_def Let_def)
  have strip: "strip_idx s1 = strip_idx s" using q by (auto simp: strip_idx_def s1_def fun_eq_iff)
  have ptr: "slot_ptr s1 = (slot_ptr s)(?i := q)" by (auto simp: slot_ptr_def s1_def fun_eq_iff)
  have wf1: "heap_wf s1"
    unfolding heap_wf_def n1
  proof (intro conjI allI impI)
    fix j assume j: "0 \<le> j \<and> j < ?n - 1"
    then have j': "0 \<le> j" "j < ?n" by auto
    show "\<exists>p z. lotos_connections s1 j = Some p \<and> hs_conns s1 p = Some z \<and> c_heap_idx z = j"
    proof (cases "j = ?i")
      case False
      moreover have "slot_ptr s j \<noteq> q" using slot_ptr_inj [OF wf j' n(1,2)] q(4) j by auto
      ultimately show ?thesis using heap_wfD [OF wf j'] by (auto simp: s1_def)
    qed (simp add: s1_def)
  qed (use n in auto)
  have k: "keys s1 = (keys s)(?i := keys s (?n - 1))"
    using strip_idx_atime [OF strip] q(4) by (auto simp: keys_def ptr fun_eq_iff)
  have "ord_down (keys s1) (heap_size s1) ?i" if "?i = 0 \<or> keys s (par ?i) \<le> keys s (?n - 1)"
    using ord_down_last [of ?n "keys s" ?i] inv i that by (simp add: k n1 heap_inv_def ord_heap_def)
  then obtain s2 where s2: "heap_bubble_down ?i s1 = Some s2" "heap_moves s1 s2"
    "?i = 0 \<or> keys s (par ?i) \<le> keys s (?n - 1) \<longrightarrow> ord_heap (keys s2) (heap_size s1)"
    using heap_bubble_down_ok [OF wf1 i(1)] by blast
  have "inj_on (slot_ptr s) {0..<?n}" using slot_ptr_inj [OF wf] by (auto simp: inj_on_def)
  then have "members s1 = members s - {c}"
    using drop_slot_image [of "slot_ptr s" ?n ?i] i q(4) by (simp add: members_def n1 ptr)
  with s2 unreg strip show ?thesis by (auto simp: heap_moves_def heap_inv_def s1_def)
qed

text \<open>Changing the activity time of one connection.\<close>

lemma set_time_ok:
  assumes wf: "heap_wf s" and c: "c \<in> members s" "hs_conns s c = Some x"
  shows "\<exists>s1. upd_conn (\<lambda>x. x\<lparr>c_active_time := t\<rparr>) (Some c) s = Some s1 \<and> heap_wf s1 \<and>
     hs_conns s1 c = Some (x\<lparr>c_active_time := t\<rparr>) \<and> 0 \<le> c_heap_idx x \<and> c_heap_idx x < heap_size s \<and>
     heap_size s1 = heap_size s \<and> members s1 = members s \<and> atime s1 = (atime s)(c := t) \<and>
     (\<forall>i. 0 \<le> i \<and> i < heap_size s \<longrightarrow> keys s1 i = ((keys s)(c_heap_idx x := t)) i) \<and>
     heap_state.more s1 = heap_state.more s \<and> strip_idx s1 = (strip_idx s)(c := map_option (c_active_time_update (\<lambda>_. t)) (strip_idx s c))"
proof -
  let ?i = "c_heap_idx x"
  define s1 where "s1 = s\<lparr>hs_conns := (hs_conns s)(c \<mapsto> x\<lparr>c_active_time := t\<rparr>)\<rparr>"
  have i: "0 \<le> ?i" "?i < heap_size s" "slot_ptr s ?i = c"
    using members_live [OF wf c(1)] c(2) by auto
  have ptr: "slot_ptr s1 = slot_ptr s" by (simp add: slot_ptr_def s1_def fun_eq_iff)
  have wf1: "heap_wf s1"
    unfolding heap_wf_def
  proof (intro conjI allI impI)
    fix j assume "0 \<le> j \<and> j < heap_size s1"
    then have j: "0 \<le> j" "j < heap_size s" by (auto simp: s1_def)
    show "\<exists>p z. lotos_connections s1 j = Some p \<and> hs_conns s1 p = Some z \<and> c_heap_idx z = j"
      using heap_wfD [OF wf j] c(2) by (cases "slot_ptr s j = c") (auto simp: s1_def)
  qed (use wf in \<open>auto simp: heap_wf_def s1_def\<close>)
  have at: "atime s1 = (atime s)(c := t)" by (auto simp: atime_def s1_def fun_eq_iff)
  have "keys s1 j = ((keys s)(?i := t)) j" if "0 \<le> j" "j < heap_size s" for j
    using slot_ptr_inj [OF wf that i(1,2)] i(3) by (auto simp: keys_def at ptr)
  moreover have "upd_conn (\<lambda>x. x\<lparr>c_active_time := t\<rparr>) (Some c) s = Some s1"
    using c(2) by (simp add: upd_conn_def s1_def)
  moreover have "strip_idx s1 = (strip_idx s)(c := map_option (c_active_time_update (\<lambda>_. t)) (strip_idx s c))"
    using c(2) by (auto simp: strip_idx_def s1_def fun_eq_iff)
  ultimately show ?thesis using wf1 i at ptr
    by (intro exI [of _ s1]) (auto simp: members_def s1_def)
qed

lemma reactivated_ok:
  assumes inv: "heap_inv s" and c: "c \<in> members s" and now: "\<forall>p \<in> members s. atime s p \<le> now"
  shows "\<exists>s'. connecion_set_reactivated now c s = Some s' \<and> heap_inv s' \<and> members s' = members s \<and>
     atime s' = (atime s)(c := now) \<and> heap_state.more s' = heap_state.more s \<and>
     strip_idx s' = (strip_idx s)(c := map_option (c_active_time_update (\<lambda>_. now)) (strip_idx s c))"
proof -
  let ?n = "heap_size s"
  have wf: "heap_wf s" using inv by (simp add: heap_inv_def)
  obtain x where x: "hs_conns s c = Some x" using members_live [OF wf c] by blast
  let ?i = "c_heap_idx x"
  obtain s1 where s1: "upd_conn (\<lambda>x. x\<lparr>c_active_time := now\<rparr>) (Some c) s = Some s1" "heap_wf s1"
    "hs_conns s1 c = Some (x\<lparr>c_active_time := now\<rparr>)" "0 \<le> ?i" "?i < ?n" "heap_size s1 = ?n"
    "members s1 = members s" "atime s1 = (atime s)(c := now)"
    "\<forall>j. 0 \<le> j \<and> j < ?n \<longrightarrow> keys s1 j = ((keys s)(?i := now)) j" "heap_state.more s1 = heap_state.more s"
    "strip_idx s1 = (strip_idx s)(c := map_option (c_active_time_update (\<lambda>_. now)) (strip_idx s c))"
    using set_time_ok [OF wf c x, of now] by blast
  have ord: "keys s (par j) \<le> keys s j" if "0 < j" "j < ?n" for j
    using inv that by (simp add: heap_inv_def ord_heap_def)
  have le: "keys s j \<le> now" if "0 \<le> j" "j < ?n" for j
    using now that by (auto simp: keys_def members_def)
  have "ord_down (keys s1) (heap_size s1) ?i"
    unfolding ord_down_def s1(6)
  proof (intro conjI allI impI)
    fix j assume j: "0 < j \<and> j < ?n \<and> par j \<noteq> ?i"
    then show "keys s1 (par j) \<le> keys s1 j"
      using ord [of j] le [of "par j"] s1(9) par_less [of j] by auto
  next
    fix j assume j: "0 < ?i \<and> j < ?n \<and> 0 < j \<and> par j = ?i"
    have "keys s (par ?i) \<le> keys s ?i" "keys s ?i \<le> keys s j" using j ord [of ?i] ord [of j] s1(5) by auto
    then show "keys s1 (par ?i) \<le> keys s1 j"
      using j par_less [of ?i] par_less [of j] s1(9) s1(5) by auto
  qed
  then obtain s2 where s2: "heap_bubble_down ?i s1 = Some s2" "heap_moves s1 s2"
    "ord_heap (keys s2) (heap_size s1)"
    using heap_bubble_down_ok [OF s1(2,4)] by blast
  have "connecion_set_reactivated now c s = Some s2"
    using s1 s2 by (simp add: connecion_set_reactivated_def)
  moreover have "atime s2 = atime s1" using s2(2) strip_idx_atime [of s2 s1] by (auto simp: heap_moves_def)
  ultimately show ?thesis using s1 s2 by (auto simp: heap_moves_def heap_inv_def)
qed

lemma expired_ok:
  assumes inv: "heap_inv s" and c: "c \<in> members s" and pos: "\<forall>p \<in> members s. 0 \<le> atime s p"
  shows "\<exists>s'. connecion_set_expired c s = Some s' \<and> heap_inv s' \<and> members s' = members s \<and>
     atime s' = (atime s)(c := 0) \<and> heap_state.more s' = heap_state.more s \<and>
     strip_idx s' = (strip_idx s)(c := map_option (c_active_time_update (\<lambda>_. 0)) (strip_idx s c))"
proof -
  let ?n = "heap_size s"
  have wf: "heap_wf s" using inv by (simp add: heap_inv_def)
  obtain x where x: "hs_conns s c = Some x" using members_live [OF wf c] by blast
  let ?i = "c_heap_idx x"
  obtain s1 where s1: "upd_conn (\<lambda>x. x\<lparr>c_active_time := 0\<rparr>) (Some c) s = Some s1" "heap_wf s1"
    "hs_conns s1 c = Some (x\<lparr>c_active_time := 0\<rparr>)" "0 \<le> ?i" "?i < ?n" "heap_size s1 = ?n"
    "members s1 = members s" "atime s1 = (atime s)(c := 0)"
    "\<forall>j. 0 \<le> j \<and> j < ?n \<longrightarrow> keys s1 j = ((keys s)(?i := 0)) j" "heap_state.more s1 = heap_state.more s"
    "strip_idx s1 = (strip_idx s)(c := map_option (c_active_time_update (\<lambda>_. 0)) (strip_idx s c))"
    using set_time_ok [OF wf c x, of 0] by blast
  have ord: "keys s (par j) \<le> keys s j" if "0 < j" "j < ?n" for j
    using inv that by (simp add: heap_inv_def ord_heap_def)
  have nn: "0 \<le> keys s j" if "0 \<le> j" "j < ?n" for j
    using pos that by (auto simp: keys_def members_def)
  have "ord_up (keys s1) (heap_size s1) ?i"
    unfolding ord_up_def s1(6)
  proof (intro conjI allI impI)
    fix j assume j: "0 < j \<and> j < ?n \<and> j \<noteq> ?i"
    then show "keys s1 (par j) \<le> keys s1 j"
      using ord [of j] nn [of j] s1(9) par_less [of j] by auto
  next
    fix j assume j: "0 < ?i \<and> j < ?n \<and> 0 < j \<and> par j = ?i"
    have "keys s (par ?i) \<le> keys s ?i" "keys s ?i \<le> keys s j" using j ord [of ?i] ord [of j] s1(5) by auto
    then show "keys s1 (par ?i) \<le> keys s1 j"
      using j par_less [of ?i] par_less [of j] s1(9) s1(5) by auto
  qed
  then obtain s2 where s2: "heap_bubble_up ?i s1 = Some s2" "heap_moves s1 s2"
    "ord_heap (keys s2) (heap_size s1)"
    using heap_bubble_up_ok [OF s1(2,4)] s1(5,6) by auto
  have "connecion_set_expired c s = Some s2"
    using s1 s2 by (simp add: connecion_set_expired_def)
  moreover have "atime s2 = atime s1" using s2(2) strip_idx_atime [of s2 s1] by (auto simp: heap_moves_def)
  ultimately show ?thesis using s1 s2 by (auto simp: heap_moves_def heap_inv_def)
qed


text \<open>A connection whose time is the latest stays where it is inserted, at the end of the array.\<close>

lemma heap_insert_last:
  assumes "heap_inv s" and "heap_insert c s = Some (st, s')" and "hs_conns s c = Some x" and "c \<notin> members s"
    and "heap_size s < MAX_CONNECTION" and "\<forall>p \<in> members s. atime s p \<le> c_active_time x"
  shows "hs_conns s' c = Some (x\<lparr>c_heap_idx := heap_size s\<rparr>)"
proof -
  let ?n = "heap_size s"
  have wf: "heap_wf s" and n0: "0 \<le> ?n" using assms(1) by (auto simp: heap_inv_def heap_wf_def)
  define s1 where "s1 = s\<lparr>lotos_connections := (lotos_connections s)(?n := Some c), heap_size := ?n + 1,
      hs_conns := (hs_conns s)(c \<mapsto> x\<lparr>c_heap_idx := ?n\<rparr>)\<rparr>"
  have ins: "map_option (Pair 0) (heap_bubble_up ?n s1) = Some (st, s')"
    using assms(2-5) n0
    by (simp add: heap_insert_def wr_slot_def upd_conn_def s1_def Let_def map_conv_bind_option comp_def)
  have "heap_bubble_up ?n s1 = Some s1"
  proof (cases "?n = 0")
    case True
    then show ?thesis by (subst heap_bubble_up.simps) (simp add: PARENT_par par_def)
  next
    case False
    then have p: "0 \<le> par ?n" "par ?n < ?n" using par_less [of ?n] n0 by auto
    obtain y where y: "lotos_connections s (par ?n) = Some (slot_ptr s (par ?n))" "hs_conns s (slot_ptr s (par ?n)) = Some y"
      "slot_ptr s (par ?n) \<in> members s" "c_active_time y = atime s (slot_ptr s (par ?n))"
      using heap_wfD [OF wf p] p by (auto simp: members_def keys_def)
    then have "slot_ptr s (par ?n) \<noteq> c" "c_active_time y \<le> c_active_time x" using assms(4,6) by auto
    with y p assms(5) show ?thesis
      by (subst heap_bubble_up.simps) (simp add: PARENT_par Let_def conn_at_def rd_slot_def deref_def s1_def)
  qed
  with ins show ?thesis by (auto simp: s1_def)
qed

section \<open>The heap as an expiry queue\<close>

text \<open>
  What the pruning of connections needs of the heap: the connections in it, the time of each, the
  one the array has first, and that dropping that one drops nothing else. The client lemma is about
  any loop that drops the first element as long as its time passes a test that only gets harder to
  pass as times grow.
\<close>

locale expiry_queue =
  fixes inv :: "'s \<Rightarrow> bool"
    and mem :: "'s \<Rightarrow> 'p set"
    and time_of :: "'s \<Rightarrow> 'p \<Rightarrow> int"
    and first :: "'s \<Rightarrow> 'p option"
    and drop_first :: "'p \<Rightarrow> 's \<Rightarrow> 's option"
  assumes finite_mem: "inv s \<Longrightarrow> finite (mem s)"
    and first_none: "inv s \<Longrightarrow> first s = None \<longleftrightarrow> mem s = {}"
    and first_least: "inv s \<Longrightarrow> first s = Some p \<Longrightarrow> p \<in> mem s \<and> (\<forall>q \<in> mem s. time_of s p \<le> time_of s q)"
    and drop_ok: "inv s \<Longrightarrow> first s = Some p \<Longrightarrow>
      \<exists>s'. drop_first p s = Some s' \<and> inv s' \<and> mem s' = mem s - {p} \<and>
        (\<forall>q \<in> mem s'. time_of s' q = time_of s q)"
begin

lemma prune_exact:
  assumes step: "\<And>s. inv s \<Longrightarrow> prune s = (case first s of None \<Rightarrow> Some s
      | Some p \<Rightarrow> if old (time_of s p) then drop_first p s \<bind> prune else Some s)"
    and anti: "\<And>t u. t \<le> u \<Longrightarrow> old u \<Longrightarrow> old t"
  shows "inv s \<Longrightarrow> \<exists>s'. prune s = Some s' \<and> inv s' \<and> mem s' = {q \<in> mem s. \<not> old (time_of s q)} \<and>
    (\<forall>q \<in> mem s'. time_of s' q = time_of s q)"
proof (induction "card (mem s)" arbitrary: s rule: less_induct)
  case less
  show ?case
  proof (cases "first s")
    case None
    then have "prune s = Some s" using step [OF less.prems] by simp
    then show ?thesis using less.prems first_none [OF less.prems] None by auto
  next
    case (Some p)
    note p = first_least [OF less.prems Some]
    show ?thesis
    proof (cases "old (time_of s p)")
      case False
      then have "mem s = {q \<in> mem s. \<not> old (time_of s q)}" using p anti by blast
      with False Some less.prems show ?thesis using step [OF less.prems] by auto
    next
      case True
      obtain s1 where s1: "drop_first p s = Some s1" "inv s1" "mem s1 = mem s - {p}"
        "\<forall>q \<in> mem s1. time_of s1 q = time_of s q"
        using drop_ok [OF less.prems Some] by blast
      have "card (mem s1) < card (mem s)"
        unfolding s1(3) using p finite_mem [OF less.prems] by (intro card_Diff1_less) auto
      from less.hyps [OF this s1(2)] obtain s2 where s2: "prune s1 = Some s2" "inv s2"
        "mem s2 = {q \<in> mem s1. \<not> old (time_of s1 q)}" "\<forall>q \<in> mem s2. time_of s2 q = time_of s1 q"
        by blast
      have "q \<in> mem s1 \<and> \<not> old (time_of s1 q) \<longleftrightarrow> q \<in> mem s \<and> \<not> old (time_of s q)" for q
        using s1(3,4) True by (cases "q = p") auto
      then have "mem s2 = {q \<in> mem s. \<not> old (time_of s q)}" using s2(3) by blast
      moreover have "prune s = Some s2" using step [OF less.prems] Some True s1(1) s2(1) by simp
      ultimately show ?thesis using s1 s2 by auto
    qed
  qed
qed

end

definition first_conn :: "('a, 'x) hstate \<Rightarrow> nat option" where
  "first_conn s = (if heap_size s > 0 then lotos_connections s 0 else None)"

lemma first_conn_root:
  assumes "heap_inv s" and "first_conn s = Some p"
  shows "0 < heap_size s" and "slot_ptr s 0 = p" and "p \<in> members s"
    and "\<exists>x. hs_conns s p = Some x \<and> c_heap_idx x = 0"
    and "\<forall>q \<in> members s. atime s p \<le> atime s q"
proof -
  have wf: "heap_wf s" and ord: "ord_heap (keys s) (heap_size s)" using assms(1) by (auto simp: heap_inv_def)
  show n: "0 < heap_size s" using assms(2) by (auto simp: first_conn_def split: if_splits)
  show p: "slot_ptr s 0 = p" using assms(2) n by (simp add: first_conn_def slot_ptr_def)
  show "p \<in> members s" using n p by (auto simp: members_def)
  show "\<exists>x. hs_conns s p = Some x \<and> c_heap_idx x = 0" using heap_wfD [OF wf, of 0] n p by auto
  show "\<forall>q \<in> members s. atime s p \<le> atime s q"
    using ord_heap_root [OF ord] p by (auto simp: members_def keys_def)
qed

lemma first_conn_none: "heap_wf s \<Longrightarrow> first_conn s = None \<longleftrightarrow> members s = {}"
  using heap_wfD(1) [of s 0] by (auto simp: first_conn_def members_def heap_wf_def)

interpretation heap_q: expiry_queue heap_inv members atime first_conn connection_unregister
proof unfold_locales
  fix s :: "('a, 'x) hstate" and p :: nat
  assume inv: "heap_inv s"
  then have wf: "heap_wf s" by (simp add: heap_inv_def)
  show "finite (members s)" by (simp add: members_def)
  show "first_conn s = None \<longleftrightarrow> members s = {}" using first_conn_none [OF wf] .
  assume first: "first_conn s = Some p"
  note r = first_conn_root [OF inv first]
  show "p \<in> members s \<and> (\<forall>q \<in> members s. atime s p \<le> atime s q)" using r by blast
  obtain x where x: "hs_conns s p = Some x" "c_heap_idx x = 0" using r(4) by blast
  obtain s' where "connection_unregister p s = Some s'" "heap_inv s'" "members s' = members s - {p}"
    and strip: "strip_idx s' = strip_idx s"
    using unregister_ok [OF inv r(3) x(1)] x(2) by blast
  then show "\<exists>s'. connection_unregister p s = Some s' \<and> heap_inv s' \<and> members s' = members s - {p} \<and>
      (\<forall>q \<in> members s'. atime s' q = atime s q)"
    using strip_idx_atime [OF strip] by blast
qed

section \<open>Properties\<close>

text \<open>Heaps for concrete runs: connections \<open>0, 1, \<dots>\<close> with the given times, inserted in this order.\<close>

definition conn_of :: "int \<Rightarrow> connection_t" where
  "conn_of t = \<lparr>c_fd = 5, c_events = 0, c_active_time = t, c_heap_idx = 0\<rparr>"

definition conns_of :: "int list \<Rightarrow> nat \<rightharpoonup> connection_t" where
  "conns_of ts p = (if p < length ts then Some (conn_of (ts ! p)) else None)"

definition empty_heap :: "int list \<Rightarrow> connection_t heap_state" where
  "empty_heap ts = \<lparr>hs_conns = conns_of ts, lotos_connections = (\<lambda>_. None), heap_size = 0\<rparr>"

primrec register_all :: "nat list \<Rightarrow> connection_t heap_state \<Rightarrow> connection_t heap_state option" where
  "register_all [] s = Some s"
| "register_all (c # cs) s = do { (r, s) \<leftarrow> connection_register c s; register_all cs s }"

definition heap_times :: "connection_t heap_state \<Rightarrow> int list" where
  "heap_times s = map (keys s) [0..heap_size s - 1]"

definition heap_from :: "int list \<Rightarrow> connection_t heap_state" where
  "heap_from ts = the (register_all [0..<length ts] (empty_heap ts))"

lemma strip_idx_live: "strip_idx s' = strip_idx s \<Longrightarrow> (hs_conns s' p = None) = (hs_conns s p = None)"
  unfolding strip_idx_def fun_eq_iff by (metis map_option_is_None)

lemma register_eq: "heap_size s < MAX_CONNECTION \<Longrightarrow> connection_register c s = heap_insert c s"
  by (simp add: connection_register_def)

lemma register_all_ok:
  "heap_inv s \<Longrightarrow> distinct cs \<Longrightarrow> set cs \<inter> members s = {} \<Longrightarrow> \<forall>c \<in> set cs. hs_conns s c \<noteq> None \<Longrightarrow>
   heap_size s + int (length cs) \<le> MAX_CONNECTION \<Longrightarrow>
   \<exists>s'. register_all cs s = Some s' \<and> heap_inv s' \<and> members s' = members s \<union> set cs \<and>
     heap_size s' = heap_size s + int (length cs) \<and> strip_idx s' = strip_idx s"
proof (induction cs arbitrary: s)
  case (Cons c cs)
  from Cons.prems obtain x where x: "hs_conns s c = Some x" "c \<notin> members s" "heap_size s < MAX_CONNECTION"
    by auto
  with heap_insert_ok [OF Cons.prems(1)] obtain s1 where s1: "heap_insert c s = Some (0, s1)"
    "heap_inv s1" "members s1 = insert c (members s)" "heap_size s1 = heap_size s + 1"
    "strip_idx s1 = strip_idx s" by blast
  then obtain s2 where "register_all cs s1 = Some s2" "heap_inv s2" "members s2 = members s1 \<union> set cs"
    "heap_size s2 = heap_size s1 + int (length cs)" "strip_idx s2 = strip_idx s1"
    using Cons.IH [of s1] Cons.prems strip_idx_live [OF s1(5)] by fastforce
  with s1 x show ?case by (auto simp: register_eq)
qed simp

lemma heap_from_ok:
  assumes "length ts \<le> nat MAX_CONNECTION"
  shows "heap_inv (heap_from ts)" and "members (heap_from ts) = {0..<length ts}"
    and "p < length ts \<Longrightarrow> atime (heap_from ts) p = ts ! p"
    and "hs_conns (heap_from ts) p \<noteq> None \<longleftrightarrow> p < length ts"
proof -
  have e: "heap_inv (empty_heap ts)" "members (empty_heap ts) = {}"
    by (auto simp: heap_inv_def heap_wf_def ord_heap_def members_def empty_heap_def)
  have "\<forall>c \<in> set [0..<length ts]. hs_conns (empty_heap ts) c \<noteq> None"
    by (auto simp: empty_heap_def conns_of_def)
  then obtain s where s: "register_all [0..<length ts] (empty_heap ts) = Some s" "heap_inv s"
    "members s = {0..<length ts}" "strip_idx s = strip_idx (empty_heap ts)"
    using register_all_ok [OF e(1), of "[0..<length ts]"] e(2) assms by (auto simp: empty_heap_def)
  then have h: "heap_from ts = s" by (simp add: heap_from_def)
  show "heap_inv (heap_from ts)" "members (heap_from ts) = {0..<length ts}" using s h by auto
  show "p < length ts \<Longrightarrow> atime (heap_from ts) p = ts ! p"
    using strip_idx_atime [OF s(4), of p] h by (simp add: atime_def empty_heap_def conns_of_def conn_of_def)
  show "hs_conns (heap_from ts) p \<noteq> None \<longleftrightarrow> p < length ts"
    using strip_idx_live [OF s(4), of p] h by (auto simp: empty_heap_def conns_of_def)
qed

lemma connections_live: "heap_inv s \<Longrightarrow> c \<in> members s \<Longrightarrow> \<exists>x. hs_conns s c = Some x"
  using members_live by (fastforce simp: heap_inv_def)

text \<open>
  C20. \<open>connection_register\<close> on a heap: when \<open>MAX_CONNECTION\<close> connections are in it, it returns
  \<open>ERROR\<close> and changes nothing; otherwise it returns 0, adds exactly the new connection, keeps the
  heap (every slot live and indexed by its connection, times ordered from the root), and changes
  nothing of any connection but heap indices.
\<close>

theorem connection_register_correct:
  assumes "heap_inv s" and "hs_conns s c = Some x" and "c \<notin> members s"
  shows "if heap_size s \<ge> MAX_CONNECTION then connection_register c s = Some (ERROR, s)
    else \<exists>s'. connection_register c s = Some (0, s') \<and> heap_inv s' \<and>
      members s' = insert c (members s) \<and> heap_size s' = heap_size s + 1 \<and> strip_idx s' = strip_idx s"
  using heap_insert_ok [OF assms(1) _ assms(2,3)] by (fastforce simp: connection_register_def)

lemma connection_register_correct_witness:
  "heap_inv (empty_heap [7]) \<and> hs_conns (empty_heap [7]) 0 = Some (conn_of 7) \<and>
   (\<exists>s'. connection_register 0 (empty_heap [7]) = Some (0, s') \<and> heap_inv s' \<and> members s' = {0})"
proof -
  have e: "heap_inv (empty_heap [7])" "hs_conns (empty_heap [7]) 0 = Some (conn_of 7)"
    "members (empty_heap [7]) = {}"
    by (auto simp: heap_inv_def heap_wf_def ord_heap_def members_def empty_heap_def conns_of_def)
  moreover have "heap_size (empty_heap [7]) = 0" by (simp add: empty_heap_def)
  ultimately show ?thesis using connection_register_correct [OF e(1,2)] by simp blast
qed

text \<open>
  C21. \<open>connection_unregister\<close> of any connection in the heap never reads outside the array or
  through a dead pointer, removes exactly that connection and keeps every slot live and indexed. The
  heap order is kept too when the connection is at the root, or when the last connection of the
  array is no older than the parent of the removed one.
\<close>

theorem connection_unregister_correct:
  assumes "heap_inv s" and "c \<in> members s" and "hs_conns s c = Some x"
  shows "\<exists>s'. connection_unregister c s = Some s' \<and> heap_wf s' \<and> members s' = members s - {c} \<and>
    heap_size s' = heap_size s - 1 \<and> strip_idx s' = strip_idx s \<and>
    (c_heap_idx x = 0 \<or> keys s (par (c_heap_idx x)) \<le> keys s (heap_size s - 1) \<longrightarrow> heap_inv s')"
  using unregister_ok [OF assms] by blast

lemma connection_unregister_correct_witness:
  "\<exists>s'. connection_unregister 5 (heap_from [4, 1, 5, 9, 6, 0]) = Some s' \<and> heap_inv s' \<and>
     members s' = {0, 1, 2, 3, 4}"
proof -
  let ?s = "heap_from [4, 1, 5, 9, 6, 0]"
  note ok = heap_from_ok [of "[4, 1, 5, 9, 6, 0]", simplified]
  obtain x where x: "hs_conns ?s 5 = Some x" using ok(4) [of 5] by auto
  have "map_option c_heap_idx (hs_conns ?s 5) = Some 0" by code_simp
  with x have idx: "c_heap_idx x = 0" by simp
  have "{0..<6::nat} - {5} = {0, 1, 2, 3, 4}" by auto
  then show ?thesis using connection_unregister_correct [OF ok(1) _ x] ok(2) idx by auto
qed


text \<open>
  C22. The two activity updates keep the heap: \<open>connecion_set_reactivated\<close> when the clock is not
  behind any recorded time (the new time then only moves down), \<open>connecion_set_expired\<close> when no
  recorded time is negative; each sets exactly the time of its connection.
\<close>

theorem activity_updates_correct:
  assumes "heap_inv s" and "c \<in> members s" and "\<forall>p \<in> members s. 0 \<le> atime s p \<and> atime s p \<le> now"
  shows "\<exists>s1 s2. connecion_set_reactivated now c s = Some s1 \<and> connecion_set_expired c s = Some s2 \<and>
    heap_inv s1 \<and> heap_inv s2 \<and> members s1 = members s \<and> members s2 = members s \<and>
    atime s1 = (atime s)(c := now) \<and> atime s2 = (atime s)(c := 0)"
  using reactivated_ok [OF assms(1,2), of now] expired_ok [OF assms(1,2)] assms(3) by blast

lemma activity_updates_correct_witness:
  "\<exists>s1 s2. connecion_set_reactivated 9 2 (heap_from [4, 1, 5]) = Some s1 \<and> heap_inv s1 \<and>
     connecion_set_expired 2 (heap_from [4, 1, 5]) = Some s2 \<and> heap_inv s2 \<and> atime s2 2 = 0"
proof -
  note ok = heap_from_ok [of "[4, 1, 5]", simplified]
  have "\<forall>p \<in> members (heap_from [4, 1, 5]). 0 \<le> atime (heap_from [4, 1, 5]) p \<and>
      atime (heap_from [4, 1, 5]) p \<le> 9"
    unfolding ok(2) by (auto simp: ok(3) numeral_3_eq_3 less_Suc_eq)
  with activity_updates_correct [OF ok(1), of 2 9] ok(2) show ?thesis by fastforce
qed



text \<open>The cases of \<^verbatim>\<open>src/src/test/heap_test.c\<close>.\<close>

lemma heap_test_bubble_up:
  "heap_times (heap_from [4, 1, 5, 9, 6, 0]) = [0, 4, 1, 9, 6, 5]"
  "heap_times (heap_from [5, 8, 12, 19, 28, 20, 15, 22, 3]) = [3, 5, 12, 8, 28, 20, 15, 22, 19]"
  by code_simp+

lemma heap_test_bubble_down:
  "map_option heap_times (connecion_set_reactivated 100 5 (heap_from [4, 1, 5, 9, 6, 0])) =
     Some [1, 4, 5, 9, 6, 100]"
  "map_option heap_times (connecion_set_reactivated 8 0 (heap_from [4, 1, 5, 9, 6, 0])) =
     Some [0, 6, 1, 9, 8, 5]"
  by code_simp+
end
