(* ===== verification/Epoll.thy ===== *)
theory Epoll
  imports Kernel Conn_Heap
begin

text \<open>
  The epoll wrappers of \<^verbatim>\<open>src/src/lotos_epoll.c\<close> and \<^verbatim>\<open>src/src/lotos_epoll.h\<close>. A connection
  keeps its own copy of the events it is registered for, and the wrappers only call the kernel when
  that copy changes; the two must therefore agree at all times, which is the invariant
  \<open>interest_ok\<close>.
\<close>

unbundle bit_operations_syntax

section \<open>State\<close>

text \<open>The \<open>data.ptr\<close> of the connection's \<open>struct epoll_event\<close>; its \<open>events\<close> are \<open>c_events\<close>.\<close>

record ev_connection = connection_t +
  c_data_ptr :: "nat option"

section \<open>Operations\<close>

definition FILL_EPOLL_EVENT :: "nat \<Rightarrow> 32 word \<Rightarrow> 'a ev_connection_scheme \<Rightarrow> 'a ev_connection_scheme" where
  "FILL_EPOLL_EVENT p ev c = c\<lparr>c_data_ptr := Some p, c_events := ev\<rparr>"

definition event_of :: "'a ev_connection_scheme \<Rightarrow> 32 word \<times> nat option" where
  "event_of c = (c_events c, c_data_ptr c)"

text \<open>The callers pass the connection's own event structure, which is filled in.\<close>

definition lotos_epoll_add :: "nat \<Rightarrow> 32 word \<Rightarrow> 'a ev_connection_scheme \<Rightarrow> 'x kernel_scheme \<Rightarrow>
    int \<times> 'a ev_connection_scheme \<times> 'x kernel_scheme" where
  "lotos_epoll_add p ev c k =
     (let c = FILL_EPOLL_EVENT p ev c; (st, k) = epoll_ctl EPOLL_CTL_ADD (c_fd c) (event_of c) k in (st, c, k))"

definition lotos_epoll_mod :: "nat \<Rightarrow> 32 word \<Rightarrow> 'a ev_connection_scheme \<Rightarrow> 'x kernel_scheme \<Rightarrow>
    int \<times> 'a ev_connection_scheme \<times> 'x kernel_scheme" where
  "lotos_epoll_mod p ev c k =
     (let c = FILL_EPOLL_EVENT p ev c; (st, k) = epoll_ctl EPOLL_CTL_MOD (c_fd c) (event_of c) k in (st, c, k))"

definition lotos_epoll_del :: "'a ev_connection_scheme \<Rightarrow> 'x kernel_scheme \<Rightarrow> int \<times> 'x kernel_scheme" where
  "lotos_epoll_del c k = epoll_ctl EPOLL_CTL_DEL (c_fd c) (0, None) k"

definition CONN_IS_IN :: "'a ev_connection_scheme \<Rightarrow> bool" where
  "CONN_IS_IN c \<longleftrightarrow> c_events c AND EPOLLIN \<noteq> 0"

definition CONN_IS_OUT :: "'a ev_connection_scheme \<Rightarrow> bool" where
  "CONN_IS_OUT c \<longleftrightarrow> c_events c AND EPOLLOUT \<noteq> 0"

text \<open>The new events are stored in the connection, then passed to the kernel.\<close>

definition set_events :: "32 word \<Rightarrow> 'a ev_connection_scheme \<Rightarrow> 'x kernel_scheme \<Rightarrow>
    int \<times> 'a ev_connection_scheme \<times> 'x kernel_scheme" where
  "set_events ev c k =
     (let c = c\<lparr>c_events := ev\<rparr>; (st, k) = epoll_ctl EPOLL_CTL_MOD (c_fd c) (event_of c) k in (st, c, k))"

definition connection_enable_in :: "'a ev_connection_scheme \<Rightarrow> 'x kernel_scheme \<Rightarrow>
    int \<times> 'a ev_connection_scheme \<times> 'x kernel_scheme" where
  "connection_enable_in c k = (if CONN_IS_IN c then (OK, c, k) else set_events (c_events c OR EPOLLIN) c k)"

definition connection_disable_in :: "'a ev_connection_scheme \<Rightarrow> 'x kernel_scheme \<Rightarrow>
    int \<times> 'a ev_connection_scheme \<times> 'x kernel_scheme" where
  "connection_disable_in c k =
     (if \<not> CONN_IS_IN c then (OK, c, k) else set_events (c_events c AND NOT EPOLLIN) c k)"

definition connection_enable_out :: "'a ev_connection_scheme \<Rightarrow> 'x kernel_scheme \<Rightarrow>
    int \<times> 'a ev_connection_scheme \<times> 'x kernel_scheme" where
  "connection_enable_out c k = (if CONN_IS_OUT c then (OK, c, k) else set_events (c_events c OR EPOLLOUT) c k)"

definition connection_disable_out :: "'a ev_connection_scheme \<Rightarrow> 'x kernel_scheme \<Rightarrow>
    int \<times> 'a ev_connection_scheme \<times> 'x kernel_scheme" where
  "connection_disable_out c k =
     (if \<not> CONN_IS_OUT c then (OK, c, k) else set_events (c_events c AND NOT EPOLLOUT) c k)"

section \<open>The kernel's copy of the events\<close>

definition interest_ok :: "'a ev_connection_scheme \<Rightarrow> 'x kernel_scheme \<Rightarrow> bool" where
  "interest_ok c k \<longleftrightarrow> k_epoll k (c_fd c) = Some (event_of c)"

lemma set_events_eq:
  assumes "interest_ok c k"
  shows "set_events ev c k =
    (OK, c\<lparr>c_events := ev\<rparr>, k\<lparr>k_epoll := (k_epoll k)(c_fd c \<mapsto> (ev, c_data_ptr c))\<rparr>)"
  using assms by (simp add: set_events_def epoll_ctl_def interest_ok_def event_of_def Let_def)

text \<open>The events after each wrapper, as the result of setting them unconditionally.\<close>

definition with_events :: "32 word \<Rightarrow> 'a ev_connection_scheme \<Rightarrow> 'x kernel_scheme \<Rightarrow>
    'a ev_connection_scheme \<times> 'x kernel_scheme" where
  "with_events ev c k =
    (c\<lparr>c_events := ev\<rparr>, k\<lparr>k_epoll := (k_epoll k)(c_fd c \<mapsto> (ev, c_data_ptr c))\<rparr>)"

lemma with_events_same: "interest_ok c k \<Longrightarrow> with_events (c_events c) c k = (c, k)"
  by (simp add: with_events_def interest_ok_def event_of_def map_upd_triv)

lemma with_events_interest: "with_events ev c k = (c', k') \<Longrightarrow> interest_ok c' k'"
  by (auto simp: with_events_def interest_ok_def event_of_def)

lemma is_in_bit: "CONN_IS_IN c \<longleftrightarrow> bit (c_events c) 0"
  using and_exp_eq_0_iff_not_bit [of "c_events c" 0] by (simp add: CONN_IS_IN_def)

lemma is_out_bit: "CONN_IS_OUT c \<longleftrightarrow> bit (c_events c) 2"
  using and_exp_eq_0_iff_not_bit [of "c_events c" 2] by (simp add: CONN_IS_OUT_def)

lemma mask_bits:
  fixes w :: "32 word"
  shows "bit (w OR EPOLLIN) n \<longleftrightarrow> bit w n \<or> n = 0"
    and "bit (w AND NOT EPOLLIN) n \<longleftrightarrow> bit w n \<and> n \<noteq> 0"
    and "bit (w OR EPOLLOUT) n \<longleftrightarrow> bit w n \<or> n = 2"
    and "bit (w AND NOT EPOLLOUT) n \<longleftrightarrow> bit w n \<and> n \<noteq> 2"
proof -
  have "bit (EPOLLIN :: 32 word) n \<longleftrightarrow> n = 0" by (simp add: bit_1_iff)
  moreover have "bit (EPOLLOUT :: 32 word) n \<longleftrightarrow> n = 2"
    using bit_exp_iff [of 2 n, where 'a = "32 word"] by (auto dest: bit_imp_le_length)
  ultimately show "bit (w OR EPOLLIN) n \<longleftrightarrow> bit w n \<or> n = 0"
    "bit (w AND NOT EPOLLIN) n \<longleftrightarrow> bit w n \<and> n \<noteq> 0"
    "bit (w OR EPOLLOUT) n \<longleftrightarrow> bit w n \<or> n = 2"
    "bit (w AND NOT EPOLLOUT) n \<longleftrightarrow> bit w n \<and> n \<noteq> 2"
    unfolding bit_or_iff bit_and_iff bit_not_iff by (blast dest: bit_imp_possible_bit)+
qed

lemma mask_same:
  fixes w :: "32 word"
  shows "bit w 0 \<Longrightarrow> w OR EPOLLIN = w" and "\<not> bit w 0 \<Longrightarrow> w AND NOT EPOLLIN = w"
    and "bit w 2 \<Longrightarrow> w OR EPOLLOUT = w" and "\<not> bit w 2 \<Longrightarrow> w AND NOT EPOLLOUT = w"
  by (rule bit_word_eqI, use mask_bits in metis)+

text \<open>
  Each wrapper succeeds on a registered connection and, whether or not it had to call the kernel,
  leaves the event bit set or cleared both in the connection and in the kernel.
\<close>

lemma wrapper_with_events:
  assumes "interest_ok c k"
  shows "connection_enable_in c k = (OK, with_events (c_events c OR EPOLLIN) c k)"
    and "connection_disable_in c k = (OK, with_events (c_events c AND NOT EPOLLIN) c k)"
    and "connection_enable_out c k = (OK, with_events (c_events c OR EPOLLOUT) c k)"
    and "connection_disable_out c k = (OK, with_events (c_events c AND NOT EPOLLOUT) c k)"
  unfolding connection_enable_in_def connection_disable_in_def connection_enable_out_def
    connection_disable_out_def
    set_events_eq [OF assms] with_events_def [symmetric] is_in_bit is_out_bit
  using with_events_same [OF assms] mask_same [of "c_events c"] by metis+

end
