(* ===== verification/Ssstr.thy ===== *)
theory Ssstr
  imports Lotos_Prelude
begin

text \<open>
  The pointer-and-length strings of \<^verbatim>\<open>src/src/ssstr.h\<close> and \<^verbatim>\<open>src/src/ssstr.c\<close>. They own no
  memory: a string is a view of a request buffer or of a literal, so every operation takes the byte
  memory it reads (and \<open>ssstr_tolower\<close> writes) as an argument.
\<close>

section \<open>Data and operations\<close>

record ssstr_t =
  ss_str :: cptr
  ss_len :: int

definition SSSTR :: "string \<Rightarrow> ssstr_t" where
  "SSSTR cstr = \<lparr>ss_str = PLit cstr 0, ss_len = int (length cstr)\<rparr>"

definition ssstr_init :: ssstr_t where
  "ssstr_init = \<lparr>ss_str = PNull, ss_len = 0\<rparr>"

definition ssstr_set :: "memory \<Rightarrow> cptr \<Rightarrow> ssstr_t option" where
  "ssstr_set m cstr =
     map_option (\<lambda>n. \<lparr>ss_str = cstr, ss_len = to_int32 (int n)\<rparr>) (strlen_bytes (bytes_from m cstr))"

text \<open>What \<open>ssstr_print\<close> writes to standard output, from index \<open>i\<close> on.\<close>

fun print_from :: "memory \<Rightarrow> cptr \<Rightarrow> int \<Rightarrow> nat \<Rightarrow> string option" where
  "print_from m p i 0 = Some [LF]"
| "print_from m p i (Suc n) = do {
     c \<leftarrow> load m (ptr_add p i);
     rest \<leftarrow> print_from m p (i + 1) n;
     Some (c # rest)
   }"

definition ssstr_print :: "memory \<Rightarrow> ssstr_t \<Rightarrow> string option" where
  "ssstr_print m s =
     (if ss_str s = PNull then Some [] else print_from m (ss_str s) 0 (nat (ss_len s)))"

fun tolower_from :: "memory \<Rightarrow> cptr \<Rightarrow> int \<Rightarrow> nat \<Rightarrow> memory option" where
  "tolower_from m p i 0 = Some m"
| "tolower_from m p i (Suc n) = do {
     c \<leftarrow> load m (ptr_add p i);
     m' \<leftarrow> store m (ptr_add p i) (tolower c);
     tolower_from m' p (i + 1) n
   }"

definition ssstr_tolower :: "memory \<Rightarrow> ssstr_t \<Rightarrow> memory option" where
  "ssstr_tolower m s = tolower_from m (ss_str s) 0 (nat (ss_len s))"

text \<open>The comparison loop over \<open>n\<close> further characters; \<open>d\<close> is the result if none differs.\<close>

fun cmp_from :: "memory \<Rightarrow> cptr \<Rightarrow> cptr \<Rightarrow> int \<Rightarrow> nat \<Rightarrow> int \<Rightarrow> int option" where
  "cmp_from m p q i 0 d = Some d"
| "cmp_from m p q i (Suc n) d = do {
     c \<leftarrow> load m (ptr_add p i);
     e \<leftarrow> load m (ptr_add q i);
     if schar c < schar e then Some (- 1)
     else if schar c > schar e then Some 1
     else cmp_from m p q (i + 1) n d
   }"

definition ssstr_cmp :: "memory \<Rightarrow> ssstr_t \<Rightarrow> ssstr_t \<Rightarrow> int option" where
  "ssstr_cmp m l r =
     (if ss_str l = ss_str r \<and> ss_len l = ss_len r then Some 0
      else if ss_str l = PNull then Some (- 1)
      else if ss_str r = PNull then Some 1
      else
        let llen = ss_len l; rlen = ss_len r; minlen = (if llen > rlen then rlen else llen) in
        cmp_from m (ss_str l) (ss_str r) 0 (nat minlen)
          (if rlen = llen then 0 else if llen < rlen then - 1 else 1))"

definition ssstr_equal :: "memory \<Rightarrow> ssstr_t \<Rightarrow> cptr \<Rightarrow> bool option" where
  "ssstr_equal m s cstr = do {
     s2 \<leftarrow> ssstr_set m cstr;
     v \<leftarrow> ssstr_cmp m s s2;
     Some (v = 0)
   }"

text \<open>The literal argument is always a C string literal in the source.\<close>

definition ssstr_caseequal :: "memory \<Rightarrow> ssstr_t \<Rightarrow> string \<Rightarrow> bool option" where
  "ssstr_caseequal m s cstr = strncase_eq (bytes_from m (ss_str s)) cstr"

section \<open>The string a view denotes\<close>

definition ss_view :: "memory \<Rightarrow> ssstr_t \<Rightarrow> string option" where
  "ss_view m s =
     (if 0 \<le> ss_len s \<and> nat (ss_len s) \<le> length (bytes_from m (ss_str s))
      then those (take (nat (ss_len s)) (bytes_from m (ss_str s))) else None)"

section \<open>Facts\<close>

lemma those_map_Some [simp]: "those (map Some xs) = Some xs"
  by (induction xs) auto

lemma those_eq_Some: "those xs = Some ys \<longleftrightarrow> xs = map Some ys"
  by (induction xs arbitrary: ys) (auto split: option.splits simp: Cons_eq_map_conv)

lemma load_bytes_from:
  "0 \<le> i \<Longrightarrow> nat i < length (bytes_from m p) \<Longrightarrow> load m (ptr_add p i) = bytes_from m p ! nat i"
  by (cases p) (auto simp: byte_at_def nat_add_distrib split: option.splits if_splits)

lemma ss_view_load:
  assumes "ss_view m s = Some x" and "i < length x"
  shows "load m (ptr_add (ss_str s) (int i)) = Some (x ! i)"
proof -
  from assms(1) have t: "take (nat (ss_len s)) (bytes_from m (ss_str s)) = map Some x"
    and n: "nat (ss_len s) \<le> length (bytes_from m (ss_str s))"
    by (auto simp: ss_view_def those_eq_Some split: if_splits)
  from arg_cong [OF t, of length] n have l: "nat (ss_len s) = length x" by simp
  have "bytes_from m (ss_str s) ! i = take (nat (ss_len s)) (bytes_from m (ss_str s)) ! i"
    using assms(2) l by simp
  also have "\<dots> = Some (x ! i)" using t assms(2) by simp
  finally show ?thesis using load_bytes_from [of "int i" m "ss_str s"] n l assms(2) by simp
qed

lemma ss_view_len: "ss_view m s = Some x \<Longrightarrow> ss_len s = int (length x)"
  by (auto simp: ss_view_def those_eq_Some split: if_splits dest!: arg_cong [of _ _ length])

lemma ss_view_eqI:
  "ss_view m l = Some x \<Longrightarrow> ss_view m r = Some y \<Longrightarrow> ss_str l = ss_str r \<Longrightarrow> ss_len l = ss_len r \<Longrightarrow> x = y"
  by (metis option.inject ss_view_def)

lemma ss_view_SSSTR [simp]: "ss_view m (SSSTR s) = Some s"
  by (simp add: ss_view_def SSSTR_def those_eq_Some lit_block_def)

lemma SSSTR_sel [simp]: "ss_str (SSSTR s) = PLit s 0" "ss_len (SSSTR s) = int (length s)"
  by (simp_all add: SSSTR_def)

lemma schar_inj: "schar c = schar d \<longleftrightarrow> c = d"
  using ord_char_range [of c] ord_char_range [of d]
  by (auto simp: schar_def ord_char_def split: if_splits)

section \<open>Comparison\<close>

text \<open>The order of signed characters, and the three-way comparison it gives on strings.\<close>

definition char_less :: "(char \<times> char) set" where
  "char_less = {(a, b). schar a < schar b}"

fun cmp_spec :: "string \<Rightarrow> string \<Rightarrow> int" where
  "cmp_spec [] [] = 0"
| "cmp_spec [] (y # ys) = - 1"
| "cmp_spec (x # xs) [] = 1"
| "cmp_spec (x # xs) (y # ys) =
     (if schar x < schar y then - 1 else if schar x > schar y then 1 else cmp_spec xs ys)"

lemma cmp_spec_lexord:
  "cmp_spec x y = (if x = y then 0 else if (x, y) \<in> lexord char_less then - 1 else 1)"
  by (induction x y rule: cmp_spec.induct) (auto simp: char_less_def schar_inj)

lemma cmp_from_spec:
  assumes x: "ss_view m l = Some x" and y: "ss_view m r = Some y"
    and d: "d = (if length y = length x then 0 else if length x < length y then - 1 else 1)"
  shows "i + n = min (length x) (length y) \<Longrightarrow>
    cmp_from m (ss_str l) (ss_str r) (int i) n d = Some (cmp_spec (drop i x) (drop i y))"
proof (induction n arbitrary: i)
  case 0
  then show ?case by (cases "drop i x"; cases "drop i y") (auto simp: d)
next
  case (Suc n)
  then have i: "i < length x" "i < length y" by auto
  have "cmp_from m (ss_str l) (ss_str r) (int (Suc i)) n d =
      Some (cmp_spec (drop (Suc i) x) (drop (Suc i) y))"
    using Suc by (intro Suc.IH) auto
  moreover have "drop i x = x ! i # drop (Suc i) x" "drop i y = y ! i # drop (Suc i) y"
    using i by (simp_all add: Cons_nth_drop_Suc)
  ultimately show ?case
    using ss_view_load [OF x i(1)] ss_view_load [OF y i(2)] by (simp add: add.commute)
qed

lemma ssstr_cmp_spec:
  assumes x: "ss_view m l = Some x" and y: "ss_view m r = Some y"
    and nn: "ss_str l \<noteq> PNull" "ss_str r \<noteq> PNull"
  shows "ssstr_cmp m l r = Some (cmp_spec x y)"
proof (cases "ss_str l = ss_str r \<and> ss_len l = ss_len r")
  case True
  then have "x = y" using ss_view_eqI [OF x y] by simp
  with True show ?thesis by (simp add: ssstr_cmp_def cmp_spec_lexord)
next
  case False
  have "nat (if ss_len l > ss_len r then ss_len r else ss_len l) = min (length x) (length y)"
    using ss_view_len [OF x] ss_view_len [OF y] by auto
  with False nn show ?thesis
    using cmp_from_spec [OF x y refl, of 0 "min (length x) (length y)"]
      ss_view_len [OF x] ss_view_len [OF y]
    by (auto simp: ssstr_cmp_def Let_def)
qed

text \<open>
  C30. On non-null strings \<open>ssstr_cmp\<close> returns 0 exactly on equal contents, and otherwise -1 or 1
  by the lexicographic order of their signed characters: it reads inside both strings only, and is
  the three-way comparison of a strict total order whichever memory the two views are in.
\<close>
theorem ssstr_cmp_correct:
  assumes "ss_view m l = Some x" and "ss_view m r = Some y"
    and "ss_str l \<noteq> PNull" and "ss_str r \<noteq> PNull"
  shows "ssstr_cmp m l r = Some (if x = y then 0 else if (x, y) \<in> lexord char_less then - 1 else 1)"
  using ssstr_cmp_spec [OF assms] by (simp add: cmp_spec_lexord)

theorem ssstr_cmp_correct_witness:
  "ssstr_cmp Map.empty (SSSTR ''hello_world'') (SSSTR ''hullo'') = Some (- 1)"
  using ssstr_cmp_correct [of Map.empty "SSSTR ''hello_world''" "''hello_world''" "SSSTR ''hullo''" "''hullo''"]
  by (simp add: char_less_def schar_def ord_char_def)

section \<open>Lower-casing in place\<close>

text \<open>The memory outside the bytes \<open>k\<close> to \<open>k + n - 1\<close> of block \<open>a\<close> is unchanged.\<close>

definition same_outside :: "nat \<Rightarrow> int \<Rightarrow> nat \<Rightarrow> memory \<Rightarrow> memory \<Rightarrow> bool" where
  "same_outside a k n m m' \<longleftrightarrow>
     (\<forall>p. (\<nexists>j. p = PBlk a j \<and> k \<le> j \<and> j < k + int n) \<longrightarrow> load m' p = load m p)"

lemma tolower_from_blk:
  "m a = Some (pre @ map Some x @ post) \<Longrightarrow> int (length pre) = k + i \<Longrightarrow>
   tolower_from m (PBlk a k) i (length x) = Some (m(a \<mapsto> pre @ map (Some \<circ> tolower) x @ post))"
proof (induction x arbitrary: m pre i)
  case Nil
  then show ?case by (simp add: fun_upd_idem)
next
  case (Cons c x)
  let ?m = "m(a \<mapsto> (pre @ [Some (tolower c)]) @ map Some x @ post)"
  have k: "nat (k + i) = length pre" "0 \<le> k + i" using Cons.prems(2) by auto
  have "load m (PBlk a (k + i)) = Some c"
    using Cons.prems k by (simp add: byte_at_def nth_append)
  moreover have "store m (PBlk a (k + i)) (tolower c) = Some ?m"
    using Cons.prems k by (simp add: list_update_append)
  moreover have "tolower_from ?m (PBlk a k) (i + 1) (length x) =
      Some (?m(a \<mapsto> (pre @ [Some (tolower c)]) @ map (Some \<circ> tolower) x @ post))"
    using Cons.prems by (intro Cons.IH) auto
  ultimately show ?case by (simp add: comp_def fun_upd_def cong: if_cong)
qed

lemma block_split:
  assumes "ss_view m s = Some x" and "ss_str s = PBlk a k" and "x \<noteq> []"
  obtains pre post where "m a = Some (pre @ map Some x @ post)" and "int (length pre) = k"
proof -
  from assms obtain bs where bs: "m a = Some bs" and k: "0 \<le> k"
    and t: "take (nat (ss_len s)) (drop (nat k) bs) = map Some x"
    and n: "nat (ss_len s) \<le> length bs - nat k"
    by (auto simp: ss_view_def those_eq_Some split: if_splits option.splits)
  have "bs = take (nat k) bs @ map Some x @ drop (nat (ss_len s)) (drop (nat k) bs)"
    unfolding t [symmetric] by (simp only: append_take_drop_id)
  moreover have "int (length (take (nat k) bs)) = k"
    using assms(3) t k n by (cases "nat k \<le> length bs") auto
  ultimately show thesis using bs that by metis
qed

lemma byte_at_other:
  assumes "length y = length x" and "\<not> (int (length pre) \<le> j \<and> j < int (length pre + length x))"
  shows "byte_at (pre @ y @ post) j = byte_at (pre @ x @ post) j"
proof -
  have "nat j < length pre \<or> length pre + length x \<le> nat j \<or> j < 0" using assms(2) by auto
  then show ?thesis using assms(1) by (auto simp: byte_at_def nth_append)
qed

text \<open>
  C31. \<open>ssstr_tolower\<close> on a view of an allocated block stays inside the view, lower-cases exactly
  its characters, and leaves every other byte of memory as it was.
\<close>
theorem ssstr_tolower_correct:
  assumes "ss_view m s = Some x" and "ss_str s = PBlk a k"
  shows "\<exists>m'. ssstr_tolower m s = Some m' \<and> ss_view m' s = Some (map tolower x) \<and>
     same_outside a k (length x) m m'"
proof (cases "x = []")
  case True
  with assms show ?thesis
    using ss_view_len [OF assms(1)] by (simp add: ssstr_tolower_def same_outside_def)
next
  case False
  obtain pre post where m: "m a = Some (pre @ map Some x @ post)" and k: "int (length pre) = k"
    using block_split [OF assms False] .
  let ?m = "m(a \<mapsto> pre @ map (Some \<circ> tolower) x @ post)"
  have "ssstr_tolower m s = Some ?m"
    using tolower_from_blk [of m a pre x post k 0] m k ss_view_len [OF assms(1)] assms(2)
    by (simp add: ssstr_tolower_def)
  moreover have "ss_view ?m s = Some (map tolower x)"
    using k ss_view_len [OF assms(1)] assms(2)
    by (auto simp: ss_view_def those_eq_Some)
  moreover have "same_outside a k (length x) m ?m"
    unfolding same_outside_def
  proof (intro allI impI)
    fix p assume "\<nexists>j. p = PBlk a j \<and> k \<le> j \<and> j < k + int (length x)"
    then show "load ?m p = load m p"
      using m k byte_at_other [of "map (Some \<circ> tolower) x" "map Some x" pre _ post]
      by (cases p) (auto split: option.splits)
  qed
  ultimately show ?thesis by blast
qed

theorem ssstr_tolower_correct_witness:
  "\<exists>m'. ssstr_tolower [0 \<mapsto> lit_block ''Host: X''] \<lparr>ss_str = PBlk 0 0, ss_len = 4\<rparr> = Some m' \<and>
     ss_view m' \<lparr>ss_str = PBlk 0 0, ss_len = 4\<rparr> = Some ''host'' \<and> load m' (PBlk 0 6) = Some CHR ''X''"
proof -
  let ?m = "[0 \<mapsto> lit_block ''Host: X'']" and ?s = "\<lparr>ss_str = PBlk 0 0, ss_len = 4\<rparr>"
  have "ss_view ?m ?s = Some ''Host''" by (simp add: ss_view_def lit_block_def those_eq_Some)
  from ssstr_tolower_correct [OF this, of 0 0] obtain m' where m': "ssstr_tolower ?m ?s = Some m'"
    "ss_view m' ?s = Some (map tolower ''Host'')" "same_outside 0 0 (length ''Host'') ?m m'"
    by auto
  from m'(3) have "load m' (PBlk 0 6) = load ?m (PBlk 0 6)"
    unfolding same_outside_def by (elim allE [of _ "PBlk 0 6"]) simp
  then show ?thesis using m'
    by (simp add: lit_block_def byte_at_def tolower_def is_upper_char_def ord_char_def char_of_def)
qed

section \<open>Case-insensitive comparison with a literal\<close>

definition case_prefix :: "string \<Rightarrow> string \<Rightarrow> bool" where
  "case_prefix lit v \<longleftrightarrow> length lit \<le> length v \<and> map tolower (take (length lit) v) = map tolower lit"

lemma strncase_eq_line:
  assumes "tolower c \<notin> tolower ` set lit"
  shows "strncase_eq (map Some v @ Some c # post) lit = Some (case_prefix lit v)"
  using assms
proof (induction lit arbitrary: v)
  case (Cons x lit)
  then show ?case by (cases v) (auto simp: case_prefix_def)
qed (simp add: case_prefix_def)

text \<open>
  C38. \<open>ssstr_caseequal\<close> never reads past the character after the view when that character, up to
  case, is not in the literal (a header value is followed by a carriage return), and then it
  decides whether the literal is a case-insensitive \<^emph>\<open>prefix\<close> of the view, not whether the two
  are equal.
\<close>
theorem ssstr_caseequal_prefix:
  assumes "m a = Some (pre @ map Some v @ Some c # post)" and "int (length pre) = k"
    and "tolower c \<notin> tolower ` set lit"
  shows "ssstr_caseequal m \<lparr>ss_str = PBlk a k, ss_len = int (length v)\<rparr> lit = Some (case_prefix lit v)"
  using assms strncase_eq_line [OF assms(3), of v post] by (auto simp: ssstr_caseequal_def)

theorem ssstr_caseequal_prefix_witness:
  "ssstr_caseequal [7 \<mapsto> map Some ''closed'' @ [Some CR]] \<lparr>ss_str = PBlk 7 0, ss_len = 6\<rparr> ''close'' = Some True"
proof -
  have "tolower CR \<notin> tolower ` set ''close''"
    by (simp add: tolower_def is_upper_char_def ord_char_def)
  from ssstr_caseequal_prefix [of "[7 \<mapsto> map Some ''closed'' @ [Some CR]]" 7 "[]" "''closed''" CR "[]" 0,
      OF _ _ this]
  show ?thesis by (simp add: case_prefix_def)
qed

end
