(* ===== verification/Dict.thy ===== *)
theory Dict
  imports Ssstr
begin

text \<open>
  The chained hash table of \<^verbatim>\<open>src/src/dict.h\<close> and \<^verbatim>\<open>src/src/dict.c\<close>: 256 buckets, each the
  list of its nodes from the bucket's head pointer on. Keys are views of strings held elsewhere, so
  hashing and comparing them read memory. A value is a \<open>void *\<close>: \<open>None\<close> is the null pointer, which
  is a valid value, hence the found flag of \<open>dict_get\<close>. The locale \<open>dictionary\<close> is what the two
  clients, the MIME table and the header-handler table, rely on.
\<close>

unbundle bit_operations_syntax

section \<open>State\<close>

abbreviation (input) DICT_MASK_SIZE :: "32 word" where "DICT_MASK_SIZE \<equiv> 0xFF"

record 'v dict_node_t =
  dn_k :: ssstr_t
  dn_v :: "'v option"

record 'v dict_t =
  d_table :: "'v dict_node_t list list"
  d_size_mask :: "32 word"
  d_used :: "32 word"

section \<open>Operations\<close>

definition dict_init :: "'v dict_t" where
  "dict_init = \<lparr>d_table = replicate 256 [], d_size_mask = DICT_MASK_SIZE, d_used = 0\<rparr>"

definition dict_node_init :: "ssstr_t \<Rightarrow> 'v option \<Rightarrow> 'v dict_node_t" where
  "dict_node_init s v = \<lparr>dn_k = s, dn_v = v\<rparr>"

text \<open>The hash loop: \<open>n\<close> characters from index \<open>i\<close> on; a character is sign-extended.\<close>

fun hash_from :: "memory \<Rightarrow> cptr \<Rightarrow> int \<Rightarrow> nat \<Rightarrow> 32 word \<Rightarrow> 32 word option" where
  "hash_from m p i 0 hash = Some hash"
| "hash_from m p i (Suc n) hash = do {
     c \<leftarrow> load m (ptr_add p i);
     hash_from m p (i + 1) n (word_of_int (schar c) + push_bit 6 hash + push_bit 16 hash - hash)
   }"

definition ssstr_hash_sdbm :: "memory \<Rightarrow> ssstr_t \<Rightarrow> 32 word option" where
  "ssstr_hash_sdbm m key =
     map_option (\<lambda>hash. hash AND 0x7FFFFFFF) (hash_from m (ss_str key) 0 (nat (ss_len key)) 0)"

definition LOTOS_HASH :: "memory \<Rightarrow> ssstr_t \<Rightarrow> 32 word option" where
  "LOTOS_HASH m key = map_option (\<lambda>hash. hash AND DICT_MASK_SIZE) (ssstr_hash_sdbm m key)"

definition dict_put :: "bool \<Rightarrow> memory \<Rightarrow> 'v dict_t \<Rightarrow> ssstr_t \<Rightarrow> 'v option \<Rightarrow> 'v dict_t option" where
  "dict_put malloc_ok m dict key val = do {
     hash \<leftarrow> LOTOS_HASH m key;
     let p = d_table dict ! unat hash;
     if malloc_ok
     then Some (dict\<lparr>d_table := (d_table dict)[unat hash := dict_node_init key val # p],
                     d_used := d_used dict + 1\<rparr>)
     else None
   }"

fun chain_get :: "memory \<Rightarrow> ssstr_t \<Rightarrow> 'v dict_node_t list \<Rightarrow> ('v option \<times> bool) option" where
  "chain_get m key [] = Some (None, False)"
| "chain_get m key (p # ps) = do {
     c \<leftarrow> ssstr_cmp m (dn_k p) key;
     if c = 0 then Some (dn_v p, True) else chain_get m key ps
   }"

definition dict_get :: "memory \<Rightarrow> 'v dict_t \<Rightarrow> ssstr_t \<Rightarrow> ('v option \<times> bool) option" where
  "dict_get m dict key = do {
     hash \<leftarrow> LOTOS_HASH m key;
     chain_get m key (d_table dict ! unat hash)
   }"

text \<open>\<open>dict_free\<close> frees every node of every chain; what is left to check is the counter.\<close>

fun chain_free :: "'v dict_node_t list \<Rightarrow> 32 word \<Rightarrow> 32 word" where
  "chain_free [] used = used"
| "chain_free (p # ps) used = chain_free ps (used - 1)"

definition dict_free :: "'v dict_t \<Rightarrow> 32 word" where
  "dict_free d = foldl (\<lambda>used ps. chain_free ps used) (d_used d) (d_table d)"

section \<open>Hashing\<close>

definition sdbm :: "string \<Rightarrow> 32 word" where
  "sdbm s = foldl (\<lambda>hash c. 65599 * hash + word_of_int (schar c)) 0 s"

definition bucket :: "string \<Rightarrow> nat" where
  "bucket s = unat (sdbm s AND DICT_MASK_SIZE)"

lemma sdbm_step:
  "word_of_int (schar c) + push_bit 6 h + push_bit 16 h - h =
   65599 * h + (word_of_int (schar c) :: 32 word)"
  by (simp add: push_bit_eq_mult algebra_simps)

lemma hash_from_view:
  assumes "ss_view m s = Some x"
  shows "i + n = length x \<Longrightarrow> hash_from m (ss_str s) (int i) n h =
     Some (foldl (\<lambda>hash c. 65599 * hash + word_of_int (schar c)) h (drop i x))"
proof (induction n arbitrary: i h)
  case (Suc n)
  then have "i < length x" by simp
  with ss_view_load [OF assms this] Suc.IH [of "Suc i"] Suc.prems show ?case
    by (simp only: hash_from.simps sdbm_step Cons_nth_drop_Suc [symmetric] bind.simps foldl.simps)
      (simp add: add.commute)
qed simp

lemma ssstr_hash_view:
  assumes "ss_view m s = Some x"
  shows "ssstr_hash_sdbm m s = Some (sdbm x AND 0x7FFFFFFF)"
  using hash_from_view [OF assms, of 0 "length x" 0] ss_view_len [OF assms]
  by (simp add: ssstr_hash_sdbm_def sdbm_def)

lemma LOTOS_HASH_view:
  assumes "ss_view m s = Some x"
  shows "LOTOS_HASH m s = Some (sdbm x AND DICT_MASK_SIZE)"
  by (simp add: LOTOS_HASH_def ssstr_hash_view [OF assms] and.assoc)

lemma bucket_less: "bucket s < 256"
proof -
  have "unat (sdbm s AND 0xFF) \<le> unat (0xFF :: 32 word)"
    by (rule word_and_le1 [THEN word_le_nat_alt [THEN iffD1]])
  then show ?thesis by (simp add: bucket_def)
qed

section \<open>Invariant and abstraction\<close>

definition node_key :: "memory \<Rightarrow> 'v dict_node_t \<Rightarrow> string" where
  "node_key m p = the (ss_view m (dn_k p))"

text \<open>
  Every key is a non-null, readable string that hashes to the bucket its node is in, and the
  counter is the number of nodes.
\<close>

definition dict_inv :: "memory \<Rightarrow> 'v dict_t \<Rightarrow> bool" where
  "dict_inv m d \<longleftrightarrow> length (d_table d) = 256 \<and> d_size_mask d = DICT_MASK_SIZE \<and>
     d_used d = of_nat (sum_list (map length (d_table d))) \<and>
     (\<forall>i < 256. \<forall>p \<in> set (d_table d ! i).
        ss_str (dn_k p) \<noteq> PNull \<and> ss_view m (dn_k p) \<noteq> None \<and> bucket (node_key m p) = i)"

definition chain_map :: "memory \<Rightarrow> 'v dict_node_t list \<Rightarrow> string \<rightharpoonup> 'v option" where
  "chain_map m ps = map_of (map (\<lambda>p. (node_key m p, dn_v p)) ps)"

definition dict_map :: "memory \<Rightarrow> 'v dict_t \<Rightarrow> string \<rightharpoonup> 'v option" where
  "dict_map m d x = chain_map m (d_table d ! bucket x) x"

definition get_result :: "'v option option \<Rightarrow> 'v option \<times> bool" where
  "get_result r = (case r of None \<Rightarrow> (None, False) | Some v \<Rightarrow> (v, True))"

lemma chain_get_map:
  assumes key: "ss_view m key = Some x" "ss_str key \<noteq> PNull"
    and ps: "\<forall>p \<in> set ps. ss_str (dn_k p) \<noteq> PNull \<and> ss_view m (dn_k p) \<noteq> None"
  shows "chain_get m key ps = Some (get_result (chain_map m ps x))"
  using ps
proof (induction ps)
  case (Cons p ps)
  then have "ss_view m (dn_k p) = Some (node_key m p)" "ss_str (dn_k p) \<noteq> PNull"
    by (auto simp: node_key_def)
  with key have "ssstr_cmp m (dn_k p) key = Some (cmp_spec (node_key m p) x)"
    by (intro ssstr_cmp_spec) auto
  with Cons show ?case
    by (auto simp: chain_map_def get_result_def cmp_spec_lexord split: option.splits)
qed (simp add: chain_map_def get_result_def)

lemma dict_get_map:
  assumes "dict_inv m d" and "ss_view m key = Some x" and "ss_str key \<noteq> PNull"
  shows "dict_get m d key = Some (get_result (dict_map m d x))"
proof -
  have "chain_get m key (d_table d ! bucket x) = Some (get_result (dict_map m d x))"
    unfolding dict_map_def using assms bucket_less [of x]
    by (intro chain_get_map) (auto simp: dict_inv_def)
  then show ?thesis by (simp add: dict_get_def LOTOS_HASH_view [OF assms(2)] bucket_def)
qed

lemma dict_init_inv: "dict_inv m dict_init" "dict_map m dict_init = Map.empty"
  by (auto simp: dict_inv_def dict_init_def dict_map_def chain_map_def bucket_less sum_list_replicate)

lemma sum_list_cons_at:
  "i < length t \<Longrightarrow> sum_list (map length (t[i := x # t ! i])) = Suc (sum_list (map length t))"
proof -
  assume i: "i < length t"
  have "map length (t[i := x # t ! i]) = (map length t)[i := Suc (length (t ! i))]"
    by (simp add: map_update)
  moreover have "length (t ! i) \<le> sum_list (map length t)"
    using i by (metis length_map member_le_sum_list nth_map nth_mem zero_le)
  ultimately show ?thesis using i by (simp add: sum_list_update)
qed

lemma dict_put_inv:
  assumes inv: "dict_inv m d" and key: "ss_view m key = Some x" "ss_str key \<noteq> PNull"
  shows "\<exists>d'. dict_put True m d key v = Some d' \<and> dict_inv m d' \<and>
           dict_map m d' = (dict_map m d)(x \<mapsto> v)"
proof -
  let ?b = "bucket x" and ?n = "dict_node_init key v"
  let ?d = "d\<lparr>d_table := (d_table d)[?b := ?n # d_table d ! ?b], d_used := d_used d + 1\<rparr>"
  have len: "length (d_table d) = 256" using inv by (simp add: dict_inv_def)
  have put: "dict_put True m d key v = Some ?d"
    by (simp add: dict_put_def LOTOS_HASH_view [OF key(1)] bucket_def Let_def)
  have n: "node_key m ?n = x" "ss_view m (dn_k ?n) \<noteq> None" "ss_str (dn_k ?n) \<noteq> PNull" "dn_v ?n = v"
    using key by (simp_all add: node_key_def dict_node_init_def)
  have "dict_inv m ?d"
    using inv n len bucket_less [of x] sum_list_cons_at [of ?b "d_table d" ?n]
    by (auto simp: dict_inv_def nth_list_update)
  moreover have "dict_map m ?d = (dict_map m d)(x \<mapsto> v)"
    using n len bucket_less by (auto simp: fun_eq_iff dict_map_def chain_map_def nth_list_update)
  ultimately show ?thesis using put by blast
qed

lemma chain_free_length: "chain_free ps used = used - of_nat (length ps)"
  by (induction ps arbitrary: used) (auto simp: diff_diff_eq)

lemma foldl_chain_free:
  "foldl (\<lambda>used ps. chain_free ps used) used t = used - of_nat (sum_list (map length t))"
  by (induction t arbitrary: used) (auto simp: chain_free_length diff_diff_eq)

section \<open>The dictionary interface\<close>

text \<open>
  What the clients rely on: an insertion shadows the key's earlier values. Filling an empty
  dictionary from a list then gives the list's last entry for every key.
\<close>

locale dictionary =
  fixes invar :: "'d \<Rightarrow> bool" and lookup :: "'d \<Rightarrow> 'k \<rightharpoonup> 'v" and empty :: "'d"
    and put :: "'d \<Rightarrow> 'k \<Rightarrow> 'v \<Rightarrow> 'd option"
  assumes invar_empty: "invar empty" and lookup_empty: "lookup empty = Map.empty"
    and put_ok: "invar d \<Longrightarrow> \<exists>d'. put d k v = Some d' \<and> invar d' \<and> lookup d' = (lookup d)(k \<mapsto> v)"
begin

fun put_all :: "'d \<Rightarrow> ('k \<times> 'v) list \<Rightarrow> 'd option" where
  "put_all d [] = Some d"
| "put_all d (kv # kvs) = put d (fst kv) (snd kv) \<bind> (\<lambda>d'. put_all d' kvs)"

lemma put_all_ok:
  "invar d \<Longrightarrow> \<exists>d'. put_all d kvs = Some d' \<and> invar d' \<and> lookup d' = lookup d ++ map_of (rev kvs)"
proof (induction kvs arbitrary: d)
  case (Cons kv kvs)
  obtain d1 where d1: "put d (fst kv) (snd kv) = Some d1" "invar d1"
    "lookup d1 = (lookup d)(fst kv \<mapsto> snd kv)"
    using put_ok [OF Cons.prems] by blast
  moreover obtain d2 where "put_all d1 kvs = Some d2" "invar d2" "lookup d2 = lookup d1 ++ map_of (rev kvs)"
    using Cons.IH [OF d1(2)] by blast
  ultimately show ?case by (auto simp: map_add_def fun_eq_iff split: option.splits)
qed simp

lemma put_all_distinct:
  assumes "distinct (map fst kvs)"
  shows "\<exists>d. put_all empty kvs = Some d \<and> invar d \<and> lookup d = map_of kvs"
proof -
  have "map_of (rev kvs) = map_of kvs"
    using assms by (intro map_of_inject_set [THEN iffD2]) (auto simp: rev_map [symmetric])
  then show ?thesis using put_all_ok [OF invar_empty, of kvs] by (simp add: lookup_empty)
qed

end

text \<open>
  The hash table provides it for string literals as keys, which is how both clients use it.
\<close>

interpretation lit_dict: dictionary "dict_inv m" "dict_map m" dict_init
    "\<lambda>d k v. dict_put True m d (SSSTR k) v" for m
proof unfold_locales
  show "dict_inv m dict_init" "dict_map m dict_init = Map.empty" by (rule dict_init_inv)+
next
  fix d :: "'v dict_t" and k :: string and v :: "'v option"
  assume "dict_inv m d"
  then show "\<exists>d'. dict_put True m d (SSSTR k) v = Some d' \<and> dict_inv m d' \<and>
      dict_map m d' = (dict_map m d)(k \<mapsto> v)"
    by (intro dict_put_inv) auto
qed

text \<open>The null string has no bytes to hash or compare.\<close>

lemma dict_get_init:
  fixes d :: "'v dict_t"
  assumes "dict_inv m d"
  shows "dict_get m d ssstr_init = Some (None, False)"
proof -
  have "ss_view m ssstr_init = Some []" by (simp add: ss_view_def ssstr_init_def)
  from LOTOS_HASH_view [OF this] have h: "LOTOS_HASH m ssstr_init = Some 0" by (simp add: sdbm_def)
  have "chain_get m ssstr_init ps = Some (None, False)"
    if "\<forall>p \<in> set ps. ss_str (dn_k p) \<noteq> PNull" for ps :: "'v dict_node_t list"
    using that by (induction ps) (auto simp: ssstr_cmp_def ssstr_init_def)
  then have "chain_get m ssstr_init (d_table d ! 0) = Some (None, False)"
    using assms unfolding dict_inv_def by (metis zero_less_numeral)
  with h show ?thesis by (simp add: dict_get_def)
qed

section \<open>Properties\<close>

text \<open>
  C29. The shift-and-add hash loop computes the polynomial the comment in the code states,
  \<open>65599 * hash + c\<close> over sign-extended characters modulo \<open>2^32\<close>, cut to 31 bits.
\<close>
theorem ssstr_hash_sdbm_polynomial:
  assumes "ss_view m key = Some x"
  shows "ssstr_hash_sdbm m key =
     Some (foldl (\<lambda>hash c. 65599 * hash + word_of_int (schar c)) 0 x AND 0x7FFFFFFF)"
  using ssstr_hash_view [OF assms] by (simp add: sdbm_def)

theorem ssstr_hash_sdbm_polynomial_witness:
  "ssstr_hash_sdbm Map.empty (SSSTR ''js'') = Some (65599 * 106 + 115)"
  using ssstr_hash_sdbm_polynomial [of Map.empty "SSSTR ''js''" "''js''"]
  by (simp add: schar_def ord_char_def)

text \<open>
  C28. After \<open>dict_put\<close> of a key, \<open>dict_get\<close> finds the new value for every view with the same
  contents as the key (null values included, reported as found), and for every other key it
  returns what it returned before: colliding keys do not disturb each other.
\<close>
theorem dict_get_put:
  assumes "dict_inv m d" and "ss_view m key = Some x" and "ss_str key \<noteq> PNull"
    and "ss_view m key' = Some y" and "ss_str key' \<noteq> PNull"
  shows "\<exists>d'. dict_put True m d key v = Some d' \<and> dict_inv m d' \<and>
     dict_get m d' key' = (if x = y then Some (v, True) else dict_get m d key')"
proof -
  obtain d' where d': "dict_put True m d key v = Some d'" "dict_inv m d'"
    "dict_map m d' = (dict_map m d)(x \<mapsto> v)"
    using dict_put_inv [OF assms(1-3)] by blast
  then show ?thesis
    using dict_get_map [OF d'(2) assms(4,5)] dict_get_map [OF assms(1,4,5)]
    by (auto simp: get_result_def)
qed

theorem dict_get_put_witness:
  "\<exists>d'. dict_put True Map.empty dict_init (SSSTR ''pdf'') (Some (CHR ''p'')) = Some d' \<and>
     dict_get Map.empty d' (SSSTR ''pdf'') = Some (Some (CHR ''p''), True)"
  using dict_get_put [of Map.empty dict_init "SSSTR ''pdf''" "''pdf''" "SSSTR ''pdf''" "''pdf''" "Some (CHR ''p'')"]
    dict_init_inv(1) [of Map.empty]
  by auto





end
