(* ===== verification/Http_Parser.thy ===== *)
theory Http_Parser
  imports Buffer Ssstr
begin

text \<open>
  The incremental HTTP request parser of \<^verbatim>\<open>src/src/http_parser.h\<close> and
  \<^verbatim>\<open>src/src/http_parser.c\<close>: two character-driven state machines, one for the request line and
  one for a header line, that stop at the end of the receive buffer and go on from there when more
  bytes have arrived, and the count of body bytes. The parser reads the buffer's bytes through
  pointers it saved in earlier calls; a buffer is known by the block \<open>a\<close> its bytes are in, so a
  pointer into another block is undefined behaviour. \<open>assert\<close>s that cannot fail in the model are
  left out.
\<close>

section \<open>Data\<close>

datatype http_method = HTTP_DELETE | HTTP_GET | HTTP_HEAD | HTTP_POST | HTTP_PUT | HTTP_INVALID

record http_version =
  http_major :: "16 word"
  http_minor :: "16 word"

record req_url =
  url_abs_path :: ssstr_t
  url_query_string :: ssstr_t
  url_mime_extension :: ssstr_t

datatype parser_state =
    S_RL_BEGIN | S_RL_METHOD | S_RL_SP_BEFORE_URL | S_RL_URL | S_RL_SP_BEFORE_VERSION
  | S_RL_VERSION_H | S_RL_VERSION_HT | S_RL_VERSION_HTT | S_RL_VERSION_HTTP
  | S_RL_VERSION_HTTP_SLASH | S_RL_VERSION_MAJOR | S_RL_VERSION_DOT | S_RL_VERSION_MINOR
  | S_RL_CR_AFTER_VERSION | S_RL_LF_AFTER_VERSION
  | S_HD_BEGIN | S_HD_NAME | S_HD_COLON | S_HD_SP_BEFORE_VAL | S_HD_VAL
  | S_HD_CR_AFTER_VAL | S_HD_LF_AFTER_VAL
  | S_URL_BEGIN | S_URL_ABS_PATH | S_URL_QUERY | S_URL_END

datatype transfer_encoding_t = TE_IDENTITY | TE_CHUNKED | TE_COMPRESS | TE_DEFLATE | TE_GZIP

record request_headers_t =
  rh_cache_control :: ssstr_t
  rh_connection :: ssstr_t
  rh_date :: ssstr_t
  rh_transfer_encoding :: ssstr_t
  rh_accept :: ssstr_t
  rh_accept_charset :: ssstr_t
  rh_accept_encoding :: ssstr_t
  rh_accept_language :: ssstr_t
  rh_cookie :: ssstr_t
  rh_host :: ssstr_t
  rh_if_modified_since :: ssstr_t
  rh_if_unmodified_since :: ssstr_t
  rh_max_forwards :: ssstr_t
  rh_range :: ssstr_t
  rh_referer :: ssstr_t
  rh_user_agent :: ssstr_t
  rh_content_length :: ssstr_t

record parse_archive =
  ar_method :: http_method
  ar_version :: http_version
  ar_request_url_string :: ssstr_t
  ar_url :: req_url
  ar_keep_alive :: bool
  ar_content_length :: int
  ar_transfer_encoding :: transfer_encoding_t
  ar_req_headers :: request_headers_t
  ar_num_headers :: int
  ar_header0 :: ssstr_t
  ar_header1 :: ssstr_t
  ar_next_parse_pos :: cptr
  ar_state :: parser_state
  ar_method_begin :: cptr
  ar_url_begin :: cptr
  ar_header_line_begin :: cptr
  ar_header_colon_pos :: cptr
  ar_header_val_begin :: cptr
  ar_header_val_end :: cptr
  ar_body_received :: "64 word"
  ar_buffer_sent :: int
  ar_isCRLF_LINE :: bool
  ar_response_done :: bool
  ar_err_req :: bool

text \<open>
  \<open>parse_archive_init\<close>: all bytes zero, then the parse position at the start of the buffer in
  block \<open>a\<close> and no content length.
\<close>

definition zero_headers :: request_headers_t where
  "zero_headers = \<lparr>rh_cache_control = ssstr_init, rh_connection = ssstr_init, rh_date = ssstr_init,
     rh_transfer_encoding = ssstr_init, rh_accept = ssstr_init, rh_accept_charset = ssstr_init,
     rh_accept_encoding = ssstr_init, rh_accept_language = ssstr_init, rh_cookie = ssstr_init,
     rh_host = ssstr_init, rh_if_modified_since = ssstr_init, rh_if_unmodified_since = ssstr_init,
     rh_max_forwards = ssstr_init, rh_range = ssstr_init, rh_referer = ssstr_init,
     rh_user_agent = ssstr_init, rh_content_length = ssstr_init\<rparr>"

definition parse_archive_init :: "nat \<Rightarrow> parse_archive" where
  "parse_archive_init a =
     \<lparr>ar_method = HTTP_DELETE, ar_version = \<lparr>http_major = 0, http_minor = 0\<rparr>,
      ar_request_url_string = ssstr_init,
      ar_url = \<lparr>url_abs_path = ssstr_init, url_query_string = ssstr_init, url_mime_extension = ssstr_init\<rparr>,
      ar_keep_alive = False, ar_content_length = - 1, ar_transfer_encoding = TE_IDENTITY,
      ar_req_headers = zero_headers, ar_num_headers = 0, ar_header0 = ssstr_init, ar_header1 = ssstr_init,
      ar_next_parse_pos = PBlk a 0, ar_state = S_RL_BEGIN, ar_method_begin = PNull, ar_url_begin = PNull,
      ar_header_line_begin = PNull, ar_header_colon_pos = PNull, ar_header_val_begin = PNull,
      ar_header_val_end = PNull, ar_body_received = 0, ar_buffer_sent = 0, ar_isCRLF_LINE = True,
      ar_response_done = False, ar_err_req = False\<rparr>"

section \<open>Pointer comparison\<close>

text \<open>\<open>q - p\<close>, defined for pointers into the same object only.\<close>

fun ptr_diff :: "cptr \<Rightarrow> cptr \<Rightarrow> int option" where
  "ptr_diff PNull PNull = Some 0"
| "ptr_diff (PBlk a i) (PBlk b j) = (if a = b then Some (i - j) else None)"
| "ptr_diff (PLit s i) (PLit t j) = (if s = t then Some (i - j) else None)"
| "ptr_diff _ _ = None"

text \<open>The \<open>STRn_EQ\<close> macros: characters are compared in order, up to the first difference.\<close>

fun str_eq :: "memory \<Rightarrow> cptr \<Rightarrow> string \<Rightarrow> bool option" where
  "str_eq m p [] = Some True"
| "str_eq m p (c # cs) = do {
     ch \<leftarrow> load m p;
     if ch = c then str_eq m (ptr_add p 1) cs else Some False
   }"

definition set_span :: "cptr \<Rightarrow> cptr \<Rightarrow> ssstr_t option" where
  "set_span b e = map_option (\<lambda>n. \<lparr>ss_str = b, ss_len = to_int32 n\<rparr>) (ptr_diff e b)"

section \<open>Method and URL\<close>

definition parse_method :: "memory \<Rightarrow> cptr \<Rightarrow> cptr \<Rightarrow> http_method option" where
  "parse_method m begin end = do {
     len \<leftarrow> map_option to_int32 (ptr_diff end begin);
     if len = 3 then do {
       e1 \<leftarrow> str_eq m begin ''GET'';
       if e1 then Some HTTP_GET
       else do { e2 \<leftarrow> str_eq m begin ''PUT''; Some (if e2 then HTTP_PUT else HTTP_INVALID) }
     }
     else if len = 4 then do {
       e1 \<leftarrow> str_eq m begin ''POST'';
       if e1 then Some HTTP_POST
       else do { e2 \<leftarrow> str_eq m begin ''HEAD''; Some (if e2 then HTTP_HEAD else HTTP_INVALID) }
     }
     else if len = 6 then do {
       e1 \<leftarrow> str_eq m begin ''DELETE''; Some (if e1 then HTTP_DELETE else HTTP_INVALID)
     }
     else Some HTTP_INVALID
   }"

text \<open>
  The loop of \<open>parse_url\<close> with \<open>n\<close> characters to go: \<open>Inl\<close> is an early return with its status,
  \<open>Inr\<close> goes on to the extension.
\<close>

fun url_loop :: "memory \<Rightarrow> cptr \<Rightarrow> nat \<Rightarrow> parser_state \<Rightarrow> cptr \<Rightarrow> req_url \<Rightarrow> (int \<times> req_url + req_url) option" where
  "url_loop m p 0 curr_state begin u = Some (Inr u)"
| "url_loop m p (Suc n) curr_state begin u = do {
     ch \<leftarrow> load m p;
     case curr_state of
       S_URL_BEGIN \<Rightarrow>
         if ch = CHR ''/'' then url_loop m (ptr_add p 1) n S_URL_ABS_PATH begin u
         else Some (Inl (ERROR, u))
     | S_URL_ABS_PATH \<Rightarrow>
         if ch = SP then do {
           ap \<leftarrow> set_span begin p;
           url_loop m (ptr_add p 1) n S_URL_END begin
             (u\<lparr>url_abs_path := ap, url_query_string := \<lparr>ss_str = p, ss_len = 0\<rparr>\<rparr>)
         }
         else if ch = CHR ''?'' then do {
           ap \<leftarrow> set_span begin p;
           url_loop m (ptr_add p 1) n S_URL_QUERY (ptr_add p 1) (u\<lparr>url_abs_path := ap\<rparr>)
         }
         else url_loop m (ptr_add p 1) n S_URL_ABS_PATH begin u
     | S_URL_QUERY \<Rightarrow>
         if ch = SP then do {
           qs \<leftarrow> set_span begin p;
           url_loop m (ptr_add p 1) n S_URL_END begin (u\<lparr>url_query_string := qs\<rparr>)
         }
         else url_loop m (ptr_add p 1) n S_URL_QUERY begin u
     | S_URL_END \<Rightarrow> Some (Inr u)
     | _ \<Rightarrow> url_loop m (ptr_add p 1) n curr_state begin u
   }"

text \<open>The backwards search for the extension from \<open>p\<close>, \<open>n\<close> characters after the path's start.\<close>

fun ext_loop :: "memory \<Rightarrow> cptr \<Rightarrow> cptr \<Rightarrow> nat \<Rightarrow> req_url \<Rightarrow> req_url option" where
  "ext_loop m abs_path_end p 0 u = Some u"
| "ext_loop m abs_path_end p (Suc n) u = do {
     ch \<leftarrow> load m p;
     if ch = CHR ''.'' then do {
       e \<leftarrow> set_span (ptr_add p 1) abs_path_end;
       Some (u\<lparr>url_mime_extension := e\<rparr>)
     }
     else if ch = CHR ''/'' then Some u
     else ext_loop m abs_path_end (ptr_add p (- 1)) n u
   }"

definition parse_extension :: "memory \<Rightarrow> req_url \<Rightarrow> req_url option" where
  "parse_extension m u =
     (let abs_path_end = ptr_add (ss_str (url_abs_path u)) (ss_len (url_abs_path u)) in
      ext_loop m abs_path_end abs_path_end (nat (ss_len (url_abs_path u))) u)"

definition parse_url :: "memory \<Rightarrow> cptr \<Rightarrow> cptr \<Rightarrow> parse_archive \<Rightarrow> (int \<times> parse_archive) option" where
  "parse_url m begin end ar = do {
     us \<leftarrow> set_span begin end;
     n \<leftarrow> ptr_diff (ptr_add end 1) begin;
     let ar = ar\<lparr>ar_request_url_string := us\<rparr>;
     r \<leftarrow> url_loop m begin (nat n) S_URL_BEGIN begin (ar_url ar);
     case r of
       Inl (st, u) \<Rightarrow> Some (st, ar\<lparr>ar_url := u\<rparr>)
     | Inr u \<Rightarrow> do { u' \<leftarrow> parse_extension m u; Some (OK, ar\<lparr>ar_url := u'\<rparr>) }
   }"

section \<open>The scanning loop\<close>

text \<open>
  One pass of the body of \<open>for (p = ar->next_parse_pos; p < buffer_end(b); p++)\<close> goes on with the
  next character, returns, or jumps to \<open>done\<close>; a pass over the characters in the buffer ends at
  the end of the buffer, at a return, or at \<open>done\<close> with the position of the character.
\<close>

datatype pass = Next parse_archive | Return int parse_archive | Goto_done parse_archive
datatype scan_end = At_end parse_archive | Returned int parse_archive | Done_at cptr parse_archive

fun scan_loop :: "(memory \<Rightarrow> cptr \<Rightarrow> char \<Rightarrow> parse_archive \<Rightarrow> pass option) \<Rightarrow> memory \<Rightarrow> cptr \<Rightarrow> nat \<Rightarrow>
    parse_archive \<Rightarrow> scan_end option" where
  "scan_loop body m p 0 ar = Some (At_end ar)"
| "scan_loop body m p (Suc n) ar = do {
     ch \<leftarrow> load m p;
     r \<leftarrow> body m p ch ar;
     case r of
       Next ar' \<Rightarrow> scan_loop body m (ptr_add p 1) n ar'
     | Return st ar' \<Rightarrow> Some (Returned st ar')
     | Goto_done ar' \<Rightarrow> Some (Done_at p ar')
   }"

text \<open>The loop on the buffer in block \<open>a\<close>, from the saved position.\<close>

definition scan :: "(memory \<Rightarrow> cptr \<Rightarrow> char \<Rightarrow> parse_archive \<Rightarrow> pass option) \<Rightarrow> nat \<Rightarrow> buffer_t \<Rightarrow>
    parse_archive \<Rightarrow> scan_end option" where
  "scan body a b ar = do {
     n \<leftarrow> ptr_diff (buffer_end a b) (ar_next_parse_pos ar);
     scan_loop body [a \<mapsto> b_buf b] (ar_next_parse_pos ar) (nat n) ar
   }"

section \<open>Request line\<close>

text \<open>The case \<open>S_RL_METHOD\<close>, into which \<open>S_RL_BEGIN\<close> falls through.\<close>

definition rl_method :: "memory \<Rightarrow> cptr \<Rightarrow> char \<Rightarrow> parse_archive \<Rightarrow> pass option" where
  "rl_method m p ch ar =
     (if is_alpha_char ch then Some (Next ar)
      else if ch = SP then do {
        me \<leftarrow> parse_method m (ar_method_begin ar) p;
        let ar = ar\<lparr>ar_method := me\<rparr>;
        Some (if me = HTTP_INVALID then Return INVALID_REQUEST ar
              else Next (ar\<lparr>ar_state := S_RL_SP_BEFORE_URL\<rparr>))
      }
      else Some (Return INVALID_REQUEST ar))"

definition push_major :: "char \<Rightarrow> parse_archive \<Rightarrow> parse_archive" where
  "push_major ch ar = ar\<lparr>ar_version := (ar_version ar)
     \<lparr>http_major := http_major (ar_version ar) * 10 + of_int (ord_char ch - 48)\<rparr>\<rparr>"

definition push_minor :: "char \<Rightarrow> parse_archive \<Rightarrow> parse_archive" where
  "push_minor ch ar = ar\<lparr>ar_version := (ar_version ar)
     \<lparr>http_minor := http_minor (ar_version ar) * 10 + of_int (ord_char ch - 48)\<rparr>\<rparr>"

text \<open>A case that goes on to one state on the expected characters and rejects all others.\<close>

definition rl_expect :: "bool \<Rightarrow> parser_state \<Rightarrow> parse_archive \<Rightarrow> pass option" where
  "rl_expect ok st ar = Some (if ok then Next (ar\<lparr>ar_state := st\<rparr>) else Return INVALID_REQUEST ar)"

definition rl_body :: "memory \<Rightarrow> cptr \<Rightarrow> char \<Rightarrow> parse_archive \<Rightarrow> pass option" where
  "rl_body m p ch ar =
     (case ar_state ar of
        S_RL_BEGIN \<Rightarrow>
          if is_alpha_char ch then rl_method m p ch (ar\<lparr>ar_method_begin := p, ar_state := S_RL_METHOD\<rparr>)
          else Some (Return INVALID_REQUEST ar)
      | S_RL_METHOD \<Rightarrow> rl_method m p ch ar
      | S_RL_SP_BEFORE_URL \<Rightarrow>
          if ch = SP \<or> ch = TAB then Some (Next ar)
          else if ch = CR \<or> ch = LF then Some (Return INVALID_REQUEST ar)
          else Some (Next (ar\<lparr>ar_state := S_RL_URL, ar_url_begin := p\<rparr>))
      | S_RL_URL \<Rightarrow>
          if ch = SP \<or> ch = TAB then do {
            let ar = ar\<lparr>ar_state := S_RL_SP_BEFORE_VERSION\<rparr>;
            (url_status, ar) \<leftarrow> parse_url m (ar_url_begin ar) p ar;
            Some (if url_status \<noteq> 0 then Return url_status ar else Next ar)
          }
          else if ch = CR \<or> ch = LF then Some (Return INVALID_REQUEST ar)
          else Some (Next ar)
      | S_RL_SP_BEFORE_VERSION \<Rightarrow>
          if ch = SP \<or> ch = TAB then Some (Next ar)
          else rl_expect (ch = CHR ''H'' \<or> ch = CHR ''h'') S_RL_VERSION_H ar
      | S_RL_VERSION_H \<Rightarrow> rl_expect (ch = CHR ''T'' \<or> ch = CHR ''t'') S_RL_VERSION_HT ar
      | S_RL_VERSION_HT \<Rightarrow> rl_expect (ch = CHR ''T'' \<or> ch = CHR ''t'') S_RL_VERSION_HTT ar
      | S_RL_VERSION_HTT \<Rightarrow> rl_expect (ch = CHR ''P'' \<or> ch = CHR ''p'') S_RL_VERSION_HTTP ar
      | S_RL_VERSION_HTTP \<Rightarrow> rl_expect (ch = CHR ''/'') S_RL_VERSION_HTTP_SLASH ar
      | S_RL_VERSION_HTTP_SLASH \<Rightarrow>
          if is_digit_char ch then Some (Next ((push_major ch ar)\<lparr>ar_state := S_RL_VERSION_MAJOR\<rparr>))
          else Some (Return INVALID_REQUEST ar)
      | S_RL_VERSION_MAJOR \<Rightarrow>
          if is_digit_char ch then
            (let ar = push_major ch ar in
             Some (if http_major (ar_version ar) > 1 then Return INVALID_REQUEST ar else Next ar))
          else rl_expect (ch = CHR ''.'') S_RL_VERSION_DOT ar
      | S_RL_VERSION_DOT \<Rightarrow>
          if is_digit_char ch then Some (Next ((push_minor ch ar)\<lparr>ar_state := S_RL_VERSION_MINOR\<rparr>))
          else Some (Return INVALID_REQUEST ar)
      | S_RL_VERSION_MINOR \<Rightarrow>
          if is_digit_char ch then
            (let ar = push_minor ch ar in
             Some (if http_minor (ar_version ar) > 1 then Return INVALID_REQUEST ar else Next ar))
          else rl_expect (ch = CR) S_RL_CR_AFTER_VERSION ar
      | S_RL_CR_AFTER_VERSION \<Rightarrow>
          Some (if ch = LF then Goto_done (ar\<lparr>ar_state := S_RL_LF_AFTER_VERSION\<rparr>)
                else Return INVALID_REQUEST ar)
      | _ \<Rightarrow> Some (Next ar))"

definition parse_request_line :: "nat \<Rightarrow> buffer_t \<Rightarrow> parse_archive \<Rightarrow> (int \<times> parse_archive) option" where
  "parse_request_line a b ar = do {
     r \<leftarrow> scan rl_body a b ar;
     Some (case r of
       At_end ar \<Rightarrow> (AGAIN, ar\<lparr>ar_next_parse_pos := buffer_end a b\<rparr>)
     | Returned st ar \<Rightarrow> (st, ar)
     | Done_at p ar \<Rightarrow> (OK, ar\<lparr>ar_next_parse_pos := ptr_add p 1, ar_state := S_HD_BEGIN\<rparr>))
   }"

section \<open>Header lines\<close>

definition is_name_char :: "char \<Rightarrow> bool" where
  "is_name_char ch \<longleftrightarrow> is_upper_char ch \<or> is_lower_char ch \<or> is_digit_char ch \<or> ch = CHR ''-''"

text \<open>The first character of a value, after the colon and after blanks.\<close>

definition hd_val_start :: "cptr \<Rightarrow> char \<Rightarrow> parse_archive \<Rightarrow> pass" where
  "hd_val_start p ch ar =
     (if ch = CR \<or> ch = LF then Return INVALID_REQUEST ar
      else Next (ar\<lparr>ar_state := S_HD_VAL, ar_header_val_begin := p\<rparr>))"

definition hd_body :: "memory \<Rightarrow> cptr \<Rightarrow> char \<Rightarrow> parse_archive \<Rightarrow> pass option" where
  "hd_body m p ch ar = Some
     (case ar_state ar of
        S_HD_BEGIN \<Rightarrow>
          if is_name_char ch then
            Next (ar\<lparr>ar_state := S_HD_NAME, ar_header_line_begin := p, ar_isCRLF_LINE := False\<rparr>)
          else if ch = CR then Next (ar\<lparr>ar_state := S_HD_CR_AFTER_VAL, ar_isCRLF_LINE := True\<rparr>)
          else if ch = SP \<or> ch = TAB then Next ar
          else Return INVALID_REQUEST ar
      | S_HD_NAME \<Rightarrow>
          if is_name_char ch then Next ar
          else if ch = CHR '':'' then Next (ar\<lparr>ar_state := S_HD_COLON, ar_header_colon_pos := p\<rparr>)
          else Return INVALID_REQUEST ar
      | S_HD_COLON \<Rightarrow>
          if ch = SP \<or> ch = TAB then Next (ar\<lparr>ar_state := S_HD_SP_BEFORE_VAL\<rparr>)
          else hd_val_start p ch ar
      | S_HD_SP_BEFORE_VAL \<Rightarrow>
          if ch = SP \<or> ch = TAB then Next ar else hd_val_start p ch ar
      | S_HD_VAL \<Rightarrow>
          if ch = CR then Next (ar\<lparr>ar_header_val_end := p, ar_state := S_HD_CR_AFTER_VAL\<rparr>)
          else if ch = LF then Next (ar\<lparr>ar_state := S_HD_LF_AFTER_VAL\<rparr>)
          else Next ar
      | S_HD_CR_AFTER_VAL \<Rightarrow>
          if ch = LF then Goto_done (ar\<lparr>ar_state := S_HD_LF_AFTER_VAL\<rparr>)
          else Return INVALID_REQUEST ar
      | _ \<Rightarrow> Next ar)"

text \<open>The two \<open>HEADER_SET\<close>s and the return value at \<open>done\<close>.\<close>

definition hd_done :: "cptr \<Rightarrow> parse_archive \<Rightarrow> (int \<times> parse_archive) option" where
  "hd_done p ar = do {
     let ar = ar\<lparr>ar_next_parse_pos := ptr_add p 1, ar_state := S_HD_BEGIN,
                 ar_num_headers := to_int32 (ar_num_headers ar + 1)\<rparr>;
     h0 \<leftarrow> set_span (ar_header_line_begin ar) (ar_header_colon_pos ar);
     h1 \<leftarrow> set_span (ar_header_val_begin ar) (ar_header_val_end ar);
     Some (if ar_isCRLF_LINE ar then CRLF_LINE else OK, ar\<lparr>ar_header0 := h0, ar_header1 := h1\<rparr>)
   }"

definition parse_header_line :: "nat \<Rightarrow> buffer_t \<Rightarrow> parse_archive \<Rightarrow> (int \<times> parse_archive) option" where
  "parse_header_line a b ar = do {
     r \<leftarrow> scan hd_body a b ar;
     case r of
       At_end ar \<Rightarrow> Some (AGAIN, ar\<lparr>ar_next_parse_pos := buffer_end a b\<rparr>)
     | Returned st ar \<Rightarrow> Some (st, ar)
     | Done_at p ar \<Rightarrow> hd_done p ar
   }"

section \<open>Body\<close>

text \<open>
  The comparison with \<open>body_received\<close> converts \<open>content_length\<close>, positive here, to \<open>size_t\<close>.
\<close>

definition parse_header_body_identity :: "nat \<Rightarrow> buffer_t \<Rightarrow> parse_archive \<Rightarrow> (int \<times> parse_archive) option" where
  "parse_header_body_identity a b ar =
     (if ar_content_length ar \<le> 0 then Some (OK, ar)
      else do {
        n \<leftarrow> ptr_diff (buffer_end a b) (ar_next_parse_pos ar);
        let received = (word_of_int n :: 64 word);
        let ar = ar\<lparr>ar_body_received := ar_body_received ar + received,
                    ar_next_parse_pos := buffer_end a b\<rparr>;
        Some (if ar_body_received ar \<ge> word_of_int (ar_content_length ar) then OK else AGAIN, ar)
      })"

section \<open>Buffers as strings\<close>

text \<open>Block \<open>a\<close> of the memory starts with the string \<open>d\<close>.\<close>

definition holds :: "memory \<Rightarrow> nat \<Rightarrow> string \<Rightarrow> bool" where
  "holds m a d \<longleftrightarrow> (\<exists>bs. m a = Some (map Some d @ bs))"

lemma holds_load: "holds m a d \<Longrightarrow> 0 \<le> k \<Longrightarrow> k < int (length d) \<Longrightarrow> load m (PBlk a k) = Some (d ! nat k)"
  by (auto simp: holds_def byte_at_def nth_append)

lemma holds_prefix: "holds m a (d @ e) \<Longrightarrow> holds m a d"
  by (auto simp: holds_def)

lemma holds_buffer: "buffer_inv b \<Longrightarrow> holds [a \<mapsto> b_buf b] a (buffer_data b)"
proof -
  assume b: "buffer_inv b"
  have "map Some (map the xs) = xs" if "None \<notin> set xs" for xs :: "char option list"
    using that by (induction xs) auto
  then have "map Some (buffer_data b) = take (nat (b_len b)) (b_buf b)"
    unfolding buffer_data_def using b by (simp add: buffer_inv_def)
  then show ?thesis by (auto simp: holds_def intro: exI [of _ "drop (nat (b_len b)) (b_buf b)"])
qed

lemma holds_view:
  assumes "holds m a d" and "i + n \<le> length d"
  shows "ss_view m \<lparr>ss_str = PBlk a (int i), ss_len = int n\<rparr> = Some (take n (drop i d))"
  using assms by (auto simp: holds_def ss_view_def those_eq_Some drop_map take_map)

definition null_str :: ssstr_t where "null_str = \<lparr>ss_str = PNull, ss_len = 0\<rparr>"

lemma ssstr_init_null [simp]: "ssstr_init = null_str"
  by (simp add: ssstr_init_def null_str_def)

definition span_at :: "nat \<Rightarrow> int \<Rightarrow> int \<Rightarrow> ssstr_t" where
  "span_at a i n = \<lparr>ss_str = PBlk a i, ss_len = n\<rparr>"

lemma set_span_at:
  "- (2 ^ 31) \<le> j - i \<Longrightarrow> j - i < 2 ^ 31 \<Longrightarrow> set_span (PBlk a i) (PBlk a j) = Some (span_at a i (j - i))"
  by (simp add: set_span_def span_at_def to_int32_id)

section \<open>The loops on strings\<close>

lemma str_eq_holds:
  "holds m a (x @ y) \<Longrightarrow> length s \<le> length y \<Longrightarrow>
   str_eq m (PBlk a (int (length x))) s = Some (take (length s) y = s)"
proof (induction s arbitrary: x y)
  case (Cons c s)
  then obtain y0 y' where y: "y = y0 # y'" by (cases y) auto
  have "load m (PBlk a (int (length x))) = Some y0"
    using holds_load [OF Cons.prems(1), of "int (length x)"] y by simp
  moreover have "str_eq m (PBlk a (int (length (x @ [y0])))) s = Some (take (length s) y' = s)"
    using Cons.IH [of "x @ [y0]" y'] Cons.prems y by simp
  ultimately show ?case using y by (simp add: algebra_simps)
qed simp

definition method_of :: "string \<Rightarrow> http_method" where
  "method_of w = (if w = ''GET'' then HTTP_GET else if w = ''PUT'' then HTTP_PUT
     else if w = ''POST'' then HTTP_POST else if w = ''HEAD'' then HTTP_HEAD
     else if w = ''DELETE'' then HTTP_DELETE else HTTP_INVALID)"

lemma parse_method_holds:
  assumes "holds m a (x @ w @ y)" and "length w < 2 ^ 31"
  shows "parse_method m (PBlk a (int (length x))) (PBlk a (int (length x) + int (length w))) = Some (method_of w)"
proof -
  have eq: "str_eq m (PBlk a (int (length x))) s = Some (w = s)" if "length s = length w" for s
    using str_eq_holds [OF assms(1), of s] that by auto
  have "to_int32 (int (length w)) = int (length w)" using assms(2) by (intro to_int32_id) auto
  moreover have "w \<noteq> s" if "length s \<noteq> length w" for s using that by auto
  note ne = this [of "''GET''"] this [of "''PUT''"] this [of "''POST''"] this [of "''HEAD''"] this [of "''DELETE''"]
  consider "length w = 3" | "length w = 4" | "length w = 6" | "length w \<notin> {3, 4, 6}" by auto
  ultimately show ?thesis
    using ne by cases (simp_all add: parse_method_def method_of_def eq del: str_eq.simps)
qed

section \<open>What \<open>parse_url\<close> computes\<close>

text \<open>
  The three parts of a URL \<open>u\<close> at offset \<open>i\<close> that is followed by the blank \<open>t\<close>. The
  extension is what follows the last dot of the last path segment.
\<close>

definition url_ext :: "string \<Rightarrow> string option" where
  "url_ext ap =
     (let r = takeWhile (\<lambda>c. c \<noteq> CHR ''.'' \<and> c \<noteq> CHR ''/'') (rev ap);
          q = dropWhile (\<lambda>c. c \<noteq> CHR ''.'' \<and> c \<noteq> CHR ''/'') (rev ap) in
      if q \<noteq> [] \<and> hd q = CHR ''.'' \<and> length q > 1 then Some (rev r) else None)"

definition zero_url :: req_url where
  "zero_url = \<lparr>url_abs_path = null_str, url_query_string = null_str, url_mime_extension = null_str\<rparr>"

definition url_path :: "string \<Rightarrow> string" where
  "url_path u = takeWhile (\<lambda>c. c \<noteq> CHR ''?'') u"

definition ext_at :: "nat \<Rightarrow> int \<Rightarrow> string \<Rightarrow> ssstr_t \<Rightarrow> ssstr_t" where
  "ext_at a i ap e = (case url_ext ap of None \<Rightarrow> e
     | Some x \<Rightarrow> span_at a (i + int (length ap) - int (length x)) (int (length x)))"

definition url_parts :: "nat \<Rightarrow> int \<Rightarrow> string \<Rightarrow> char \<Rightarrow> req_url" where
  "url_parts a i u t =
     (let n = int (length (url_path u)); q = CHR ''?'' \<in> set u in
      if t = SP \<or> q then
        \<lparr>url_abs_path = span_at a i n,
         url_query_string =
           (if t \<noteq> SP then null_str
            else if q then span_at a (i + n + 1) (int (length u) - n - 1) else span_at a (i + n) 0),
         url_mime_extension = ext_at a i (url_path u) null_str\<rparr>
      else zero_url)"

lemma holds_load_mid: "holds m a (x @ c # y) \<Longrightarrow> load m (PBlk a (int (length x))) = Some c"
  using holds_load [of m a "x @ c # y" "int (length x)"] by simp

declare load.simps(2) [simp del] url_loop.simps(2) [simp del]

lemma url_loop_step:
  assumes "load m (PBlk a i) = Some ch"
  shows "url_loop m (PBlk a i) (Suc n) S_URL_BEGIN b u =
      (if ch = CHR ''/'' then url_loop m (PBlk a (i + 1)) n S_URL_ABS_PATH b u else Some (Inl (ERROR, u)))"
    and "ch \<noteq> SP \<Longrightarrow> ch \<noteq> CHR ''?'' \<Longrightarrow>
      url_loop m (PBlk a i) (Suc n) S_URL_ABS_PATH b u = url_loop m (PBlk a (i + 1)) n S_URL_ABS_PATH b u"
    and "ch \<noteq> SP \<Longrightarrow> url_loop m (PBlk a i) (Suc n) S_URL_QUERY b u = url_loop m (PBlk a (i + 1)) n S_URL_QUERY b u"
  using assms by (simp_all add: url_loop.simps(2))

lemma url_loop_step_span:
  assumes "load m (PBlk a i) = Some ch" and "set_span b (PBlk a i) = Some s"
  shows "ch = SP \<Longrightarrow> url_loop m (PBlk a i) (Suc n) S_URL_QUERY b u =
      url_loop m (PBlk a (i + 1)) n S_URL_END b (u\<lparr>url_query_string := s\<rparr>)"
    and "ch = SP \<Longrightarrow> url_loop m (PBlk a i) (Suc n) S_URL_ABS_PATH b u =
      url_loop m (PBlk a (i + 1)) n S_URL_END b (u\<lparr>url_abs_path := s, url_query_string := span_at a i 0\<rparr>)"
    and "ch = CHR ''?'' \<Longrightarrow> url_loop m (PBlk a i) (Suc n) S_URL_ABS_PATH b u =
      url_loop m (PBlk a (i + 1)) n S_URL_QUERY (PBlk a (i + 1)) (u\<lparr>url_abs_path := s\<rparr>)"
  using assms by (simp_all add: url_loop.simps(2) span_at_def)

lemma url_loop_query:
  assumes "b \<le> length x" and "length x + length cs < 2 ^ 31"
  shows "holds m a (x @ cs @ t # y) \<Longrightarrow> SP \<notin> set cs \<Longrightarrow>
    url_loop m (PBlk a (int (length x))) (Suc (length cs)) S_URL_QUERY (PBlk a (int b)) u =
     Some (Inr (if t = SP then u\<lparr>url_query_string := span_at a (int b) (int (length x + length cs) - int b)\<rparr> else u))"
  using assms
proof (induction cs arbitrary: x)
  case Nil
  then have ld: "load m (PBlk a (int (length x))) = Some t" using holds_load_mid by simp
  show ?case
    using url_loop_step(3) [OF ld] url_loop_step_span(1) [OF ld set_span_at] Nil.prems by simp
next
  case (Cons c cs)
  then have ld: "load m (PBlk a (int (length x))) = Some c" and c: "c \<noteq> SP"
    using holds_load_mid by auto
  show ?case using url_loop_step(3) [OF ld c] Cons.IH [of "x @ [c]"] Cons.prems
    by (auto simp: algebra_simps)
qed

lemma url_loop_abs_path:
  assumes "b \<le> length x" and "length x + length cs < 2 ^ 31" and "t \<noteq> CHR ''?''"
  shows "holds m a (x @ cs @ t # y) \<Longrightarrow> SP \<notin> set cs \<Longrightarrow>
    url_loop m (PBlk a (int (length x))) (Suc (length cs)) S_URL_ABS_PATH (PBlk a (int b)) u =
     Some (Inr
       (let n = int (length x + length (url_path cs)) in
        if CHR ''?'' \<in> set cs then
          (if t = SP then u\<lparr>url_abs_path := span_at a (int b) (n - int b),
             url_query_string := span_at a (n + 1) (int (length x + length cs) - n - 1)\<rparr>
           else u\<lparr>url_abs_path := span_at a (int b) (n - int b)\<rparr>)
        else if t = SP then u\<lparr>url_abs_path := span_at a (int b) (n - int b), url_query_string := span_at a n 0\<rparr>
        else u))"
  using assms
proof (induction cs arbitrary: x)
  case Nil
  then have ld: "load m (PBlk a (int (length x))) = Some t" using holds_load_mid by simp
  show ?case
    using url_loop_step(2) [OF ld] url_loop_step_span(2) [OF ld set_span_at] Nil.prems
    by (simp add: url_path_def Let_def)
next
  case (Cons c cs)
  then have ld: "load m (PBlk a (int (length x))) = Some c" and c: "c \<noteq> SP"
    using holds_load_mid by auto
  show ?case
  proof (cases "c = CHR ''?''")
    case True
    with url_loop_step_span(3) [OF ld set_span_at] Cons.prems
      url_loop_query [of "length (x @ [c])" "x @ [c]" cs m a t y] show ?thesis
      by (simp add: url_path_def Let_def algebra_simps)
  next
    case False
    with url_loop_step(2) [OF ld c] Cons.IH [of "x @ [c]"] Cons.prems show ?thesis
      by (auto simp: url_path_def algebra_simps Let_def)
  qed
qed

lemma holds_load_at: "holds m a (x @ y) \<Longrightarrow> 0 \<le> k \<Longrightarrow> k < int (length y) \<Longrightarrow>
    load m (PBlk a (int (length x) + k)) = Some (y ! nat k)"
  using holds_load [of m a "x @ y" "int (length x) + k"] by (simp add: nat_add_distrib nth_append)

declare ext_loop.simps(2) [simp del]

lemma ext_loop_step:
  assumes "load m (PBlk a i) = Some ch"
  shows "ch \<noteq> CHR ''.'' \<Longrightarrow> ch \<noteq> CHR ''/'' \<Longrightarrow>
      ext_loop m e (PBlk a i) (Suc n) u = ext_loop m e (PBlk a (i - 1)) n u"
    and "ch = CHR ''/'' \<Longrightarrow> ext_loop m e (PBlk a i) (Suc n) u = Some u"
    and "ch = CHR ''.'' \<Longrightarrow> set_span (PBlk a (i + 1)) e = Some s \<Longrightarrow>
      ext_loop m e (PBlk a i) (Suc n) u = Some (u\<lparr>url_mime_extension := s\<rparr>)"
  using assms by (simp_all add: ext_loop.simps(2))

lemma ext_loop_holds:
  assumes "length x + length v \<le> e" and "e < 2 ^ 31"
  shows "holds m a (x @ c # v @ y) \<Longrightarrow>
    ext_loop m (PBlk a (int e)) (PBlk a (int (length x) + int (length v))) (length v) u = Some
     (let q = dropWhile (\<lambda>c. c \<noteq> CHR ''.'' \<and> c \<noteq> CHR ''/'') (rev v) in
      if q \<noteq> [] \<and> hd q = CHR ''.''
      then u\<lparr>url_mime_extension := span_at a (int (length x) + int (length q) + 1)
                (int e - int (length x) - int (length q) - 1)\<rparr> else u)"
  using assms
proof (induction v arbitrary: y rule: rev_induct)
  case (snoc d v)
  have ld: "load m (PBlk a (int (length x) + int (length (v @ [d])))) = Some d"
    using holds_load_at [of m a x "c # v @ d # y" "1 + int (length v)"] snoc.prems
    by (simp add: nth_append nat_add_distrib algebra_simps)
  have span: "set_span (PBlk a (int (length x) + int (length (v @ [d])) + 1)) (PBlk a (int e)) =
      Some (span_at a (int (length x) + int (length (v @ [d])) + 1) (int e - (int (length x) + int (length (v @ [d])) + 1)))"
    using snoc.prems by (intro set_span_at) auto
  consider "d = CHR ''.''" | "d = CHR ''/''" | "d \<noteq> CHR ''.''" "d \<noteq> CHR ''/''" by blast
  then show ?case
  proof cases
    case 1
    with ext_loop_step(3) [OF ld 1 span] show ?thesis by (simp add: algebra_simps)
  next
    case 2
    with ext_loop_step(2) [OF ld 2] show ?thesis by simp
  next
    case 3
    with ext_loop_step(1) [OF ld 3] snoc.IH [of "d # y"] snoc.prems show ?thesis by simp
  qed
qed simp

lemma parse_extension_holds:
  assumes "holds m a (x @ ap @ z # y)" and "ap \<noteq> []" "hd ap = CHR ''/''" and "z \<noteq> CHR ''.''" "z \<noteq> CHR ''/''"
    and "length x + length ap < 2 ^ 31" and "url_abs_path u = span_at a (int (length x)) (int (length ap))"
  shows "parse_extension m u =
    Some (u\<lparr>url_mime_extension := ext_at a (int (length x)) ap (url_mime_extension u)\<rparr>)"
proof -
  let ?P = "\<lambda>c. c \<noteq> CHR ''.'' \<and> c \<noteq> CHR ''/''"
  obtain v where ap: "ap = CHR ''/'' # v" using assms(2,3) by (cases ap) auto
  have "parse_extension m u = ext_loop m (PBlk a (int (length x + length ap)))
      (PBlk a (int (length x) + int (length (v @ [z])))) (length (v @ [z])) u"
    using assms(7) ap by (simp add: parse_extension_def span_at_def nat_add_distrib Let_def algebra_simps)
  also have "\<dots> = Some (let q = dropWhile ?P (rev v) in
      if q \<noteq> [] \<and> hd q = CHR ''.''
      then u\<lparr>url_mime_extension := span_at a (int (length x) + int (length q) + 1)
              (int (length ap) - int (length q) - 1)\<rparr> else u)"
    using ext_loop_holds [of x "v @ [z]" "length x + length ap" m a "CHR ''/''" y u] assms ap
    by (simp add: Let_def)
  also have "\<dots> = Some (u\<lparr>url_mime_extension := ext_at a (int (length x)) ap (url_mime_extension u)\<rparr>)"
  proof (cases "dropWhile ?P (rev v) = []")
    case True
    then have "dropWhile ?P (rev ap) = [CHR ''/'']" by (auto simp: ap dropWhile_append)
    then show ?thesis using True by (simp add: ext_at_def url_ext_def Let_def)
  next
    case False
    then have q: "dropWhile ?P (rev ap) = dropWhile ?P (rev v) @ [CHR ''/'']"
      "takeWhile ?P (rev ap) = takeWhile ?P (rev v)"
      by (auto simp: ap dropWhile_append takeWhile_append dropWhile_eq_Nil_conv)
    have "length (takeWhile ?P (rev v)) + length (dropWhile ?P (rev v)) = length v"
      using arg_cong [OF takeWhile_dropWhile_id [of ?P "rev v"], of length]
      by (simp del: takeWhile_dropWhile_id)
    then have "int (length ap) - int (length (takeWhile ?P (rev v))) = int (length (dropWhile ?P (rev v))) + 1"
      by (simp add: ap)
    then show ?thesis using False q by (auto simp: ext_at_def url_ext_def Let_def algebra_simps)
  qed
  finally show ?thesis .
qed

definition blank :: "char \<Rightarrow> bool" where "blank c \<longleftrightarrow> c = SP \<or> c = TAB"
definition url_char :: "char \<Rightarrow> bool" where "url_char c \<longleftrightarrow> \<not> blank c \<and> c \<noteq> CR \<and> c \<noteq> LF"

lemma url_path_split: "CHR ''?'' \<in> set u \<Longrightarrow> \<exists>q. u = url_path u @ CHR ''?'' # q"
  unfolding url_path_def by (induction u) auto

lemma url_path_id: "CHR ''?'' \<notin> set u \<Longrightarrow> url_path u = u"
  by (auto simp: url_path_def takeWhile_eq_all_conv)

lemma parse_url_holds:
  assumes h: "holds m a (x @ u @ t # y)" and u: "u \<noteq> []" "\<forall>c \<in> set u. url_char c" and t: "blank t"
    and len: "length x + length u < 2 ^ 31" and z: "ar_url ar = zero_url"
  defines "ar' \<equiv> ar\<lparr>ar_request_url_string := span_at a (int (length x)) (int (length u))\<rparr>"
  shows "parse_url m (PBlk a (int (length x))) (PBlk a (int (length x) + int (length u))) ar =
    (if hd u = CHR ''/'' then Some (OK, ar'\<lparr>ar_url := url_parts a (int (length x)) u t\<rparr>) else Some (ERROR, ar'))"
proof -
  let ?x = "int (length x)"
  obtain c v where v: "u = c # v" using u by (cases u) auto
  have tq: "t \<noteq> CHR ''?''" "t \<noteq> CHR ''.''" "t \<noteq> CHR ''/''" using t by (auto simp: blank_def)
  have sp: "SP \<notin> set v" using u v by (auto simp: url_char_def blank_def)
  have ld: "load m (PBlk a ?x) = Some c" using holds_load_mid h v by simp
  have span: "set_span (PBlk a ?x) (PBlk a (?x + int (length u))) = Some (span_at a ?x (int (length u)))"
    using set_span_at [of "?x + int (length u)" ?x a] len by simp
  have url': "ar_url ar' = zero_url" using z by (simp add: ar'_def)
  have n: "nat (int (length u) + 1) = Suc (Suc (length v))" using v by simp
  have pu: "parse_url m (PBlk a ?x) (PBlk a (?x + int (length u))) ar = do {
      r \<leftarrow> url_loop m (PBlk a ?x) (Suc (Suc (length v))) S_URL_BEGIN (PBlk a ?x) zero_url;
      case r of Inl (st, u) \<Rightarrow> Some (st, ar'\<lparr>ar_url := u\<rparr>)
      | Inr u \<Rightarrow> do { u' \<leftarrow> parse_extension m u; Some (OK, ar'\<lparr>ar_url := u'\<rparr>) } }"
    unfolding parse_url_def ar'_def using z by (simp add: span n Let_def)
  show ?thesis
  proof (cases "c = CHR ''/''")
    case False
    then have "ar'\<lparr>ar_url := zero_url\<rparr> = ar'" using url' by simp
    with False show ?thesis using pu url_loop_step(1) [OF ld] v by simp
  next
    case True
    let ?u1 = "if CHR ''?'' \<in> set u
      then if t = SP then zero_url\<lparr>url_abs_path := span_at a ?x (int (length (url_path u))),
           url_query_string := span_at a (?x + int (length (url_path u)) + 1) (int (length u) - int (length (url_path u)) - 1)\<rparr>
         else zero_url\<lparr>url_abs_path := span_at a ?x (int (length (url_path u)))\<rparr>
      else if t = SP then zero_url\<lparr>url_abs_path := span_at a ?x (int (length (url_path u))),
           url_query_string := span_at a (?x + int (length (url_path u))) 0\<rparr>
      else zero_url"
    have "url_loop m (PBlk a ?x) (Suc (Suc (length v))) S_URL_BEGIN (PBlk a ?x) zero_url = Some (Inr ?u1)"
      using url_loop_step(1) [OF ld] True v h len sp tq
        url_loop_abs_path [of "length x" "x @ [c]" v t m a y zero_url]
      by (auto simp: url_path_def Let_def algebra_simps)
    moreover have "parse_extension m ?u1 = Some (url_parts a ?x u t)"
    proof (cases "t = SP \<or> CHR ''?'' \<in> set u")
      case False
      then show ?thesis by (simp add: zero_url_def url_parts_def parse_extension_def null_str_def)
    next
      case T: True
      have "\<exists>z y'. u @ t # y = url_path u @ z # y' \<and> z \<noteq> CHR ''.'' \<and> z \<noteq> CHR ''/''"
      proof (cases "CHR ''?'' \<in> set u")
        case True
        then obtain q where "u = url_path u @ CHR ''?'' # q" using url_path_split by blast
        then have "u @ t # y = url_path u @ CHR ''?'' # (q @ t # y)" by (metis append_Cons append_assoc)
        then show ?thesis by (intro exI [of _ "CHR ''?''"] exI [of _ "q @ t # y"]) simp
      next
        case False
        then show ?thesis using url_path_id tq by auto
      qed
      then obtain z y' where zy: "u @ t # y = url_path u @ z # y'" "z \<noteq> CHR ''.''" "z \<noteq> CHR ''/''" by blast
      have "url_path u \<noteq> []" "hd (url_path u) = CHR ''/''" "length (url_path u) \<le> length u"
        using v True by (auto simp: url_path_def length_takeWhile_le)
      then show ?thesis
        using parse_extension_holds [of m a x "url_path u" z y' ?u1] h zy len T
        by (auto simp: url_parts_def zero_url_def Let_def)
    qed
    ultimately show ?thesis using pu True v by simp
  qed
qed

section \<open>Scanning a string\<close>

text \<open>The loop on the characters \<open>cs\<close> before offset \<open>e\<close> of block \<open>a\<close>.\<close>

fun run :: "(memory \<Rightarrow> cptr \<Rightarrow> char \<Rightarrow> parse_archive \<Rightarrow> pass option) \<Rightarrow> memory \<Rightarrow> nat \<Rightarrow> int \<Rightarrow> string \<Rightarrow>
    parse_archive \<Rightarrow> scan_end option" where
  "run body m a e [] ar = Some (At_end ar)"
| "run body m a e (c # cs) ar = do {
     r \<leftarrow> body m (PBlk a (e - int (length cs) - 1)) c ar;
     case r of
       Next ar' \<Rightarrow> run body m a e cs ar'
     | Return st ar' \<Rightarrow> Some (Returned st ar')
     | Goto_done ar' \<Rightarrow> Some (Done_at (PBlk a (e - int (length cs) - 1)) ar')
   }"

lemma scan_loop_run:
  "holds m a (x @ cs) \<Longrightarrow> scan_loop body m (PBlk a (int (length x))) (length cs) ar =
     run body m a (int (length (x @ cs))) cs ar"
proof (induction cs arbitrary: x ar)
  case (Cons c cs)
  then have ld: "load m (PBlk a (int (length x))) = Some c" using holds_load_mid by simp
  have ih: "scan_loop body m (PBlk a (int (length x) + 1)) (length cs) ar' =
      run body m a (1 + (int (length x) + int (length cs))) cs ar'" for ar'
    using Cons.IH [of "x @ [c]" ar'] Cons.prems by (simp add: algebra_simps)
  show ?case
  proof (cases "body m (PBlk a (int (length x))) c ar")
    case (Some r)
    then show ?thesis using ld ih by (cases r) simp_all
  qed (simp add: ld)
qed simp

lemma scan_run:
  assumes "buffer_inv b" and "ar_next_parse_pos ar = PBlk a (int k)" and "int k \<le> b_len b"
  shows "scan body a b ar = run body [a \<mapsto> b_buf b] a (b_len b) (drop k (buffer_data b)) ar"
proof -
  have n: "int (length (buffer_data b)) = b_len b" using length_buffer_data [OF assms(1)] .
  then have "length (take k (buffer_data b)) = k" "nat (b_len b - int k) = length (drop k (buffer_data b))"
    using assms(3) by auto
  moreover have "holds [a \<mapsto> b_buf b] a (take k (buffer_data b) @ drop k (buffer_data b))"
    using holds_buffer [OF assms(1)] by simp
  ultimately show ?thesis
    using scan_loop_run [of "[a \<mapsto> b_buf b]" a "take k (buffer_data b)" "drop k (buffer_data b)" body ar] n
    by (simp add: scan_def assms(2) buffer_end_def)
qed

lemma run_append:
  "run body m a e (xs @ ys) ar =
     (case run body m a (e - int (length ys)) xs ar of Some (At_end ar') \<Rightarrow> run body m a e ys ar' | r \<Rightarrow> r)"
proof (induction xs arbitrary: ar)
  case (Cons c xs)
  have pos: "e - (int (length xs) + int (length ys)) - 1 = e - int (length ys) - int (length xs) - 1" by simp
  show ?case
  proof (cases "body m (PBlk a (e - int (length ys) - int (length xs) - 1)) c ar")
    case (Some r)
    with Cons.IH show ?thesis by (cases r) (simp_all add: pos)
  qed (simp add: pos)
qed simp

lemma run_skip:
  "(\<And>p c. P c \<Longrightarrow> body m p c ar = Some (Next ar)) \<Longrightarrow> run body m a e (dropWhile P cs) ar = run body m a e cs ar"
  by (induction cs) auto

section \<open>Buffers for concrete runs\<close>

definition buf_of :: "string \<Rightarrow> buffer_t" where
  "buf_of s = \<lparr>b_len = int (length s), b_free = 1, b_buf = map Some s @ [Some NUL, None]\<rparr>"

lemma buf_of_ok:
  "length s < 1000 \<Longrightarrow> buffer_inv (buf_of s)" "buffer_data (buf_of s) = s"
  by (auto simp: buf_of_def buffer_inv_def buffer_data_def comp_def)

end
