(* ===== verification/Response.thy ===== *)
theory Response
  imports Epoll Dict Http_Parser
begin

text \<open>
  The response head of \<^verbatim>\<open>src/src/response.h\<close> and \<^verbatim>\<open>src/src/response.c\<close>: the table of
  status lines, the table of MIME types, the error page, and the functions that append one header
  line each to the response buffer. The request object they work on is that of
  \<^verbatim>\<open>src/src/request.h\<close>. The C library routines used here (\<open>sprintf\<close>, \<open>snprintf\<close>, \<open>gmtime\<close>,
  \<open>strftime\<close>) are modelled for the formats the source gives them.
\<close>

section \<open>The request object\<close>

datatype req_handler = request_handle_request_line_h | request_handle_headers_h | request_handle_body_h
datatype res_handler = response_handle_send_buffer_h | response_handle_send_file_h

text \<open>
  \<open>struct request\<close>: \<open>r_ib_at\<close> is the block the bytes of the request buffer are in, which the
  parser's pointers point into. The back pointer to the connection is left out: a request is part of
  its connection. A null pointer is \<open>None\<close>.
\<close>

record request_t =
  r_ib_at :: nat
  r_ib :: buffer_t
  r_ob :: "buffer_t option"
  r_par :: parse_archive
  r_resource_fd :: int
  r_resource_size :: int
  r_status_code :: int
  r_req_handler :: "req_handler option"
  r_res_handler :: res_handler

text \<open>The bytes the strings of the request point to.\<close>

definition req_mem :: "request_t \<Rightarrow> memory" where
  "req_mem r = [r_ib_at r \<mapsto> b_buf (r_ib r)]"

section \<open>Global state\<close>

record err_page_t =
  err_page_fd :: int
  raw_err_page :: block
  raw_page_size :: int
  rendered_err_page :: buffer_t
  rendered_page_size :: int

record globals = kernel +
  g_rootdir_fd :: int
  g_status_table :: "int \<Rightarrow> string option"
  g_mime_dict :: "ssstr_t dict_t"
  g_err_page :: err_page_t

section \<open>Numbers and dates as text\<close>

fun dec_nat :: "nat \<Rightarrow> string" where
  "dec_nat n = (if n < 10 then [char_of (48 + n)] else dec_nat (n div 10) @ [char_of (48 + n mod 10)])"

declare dec_nat.simps [simp del]

text \<open>\<open>%d\<close> and \<open>%02d\<close>.\<close>

definition dec :: "int \<Rightarrow> string" where
  "dec i = (if i < 0 then ''-'' @ dec_nat (nat (- i)) else dec_nat (nat i))"

definition dec2 :: "int \<Rightarrow> string" where
  "dec2 i = (if 0 \<le> i \<and> i < 10 then ''0'' @ dec i else dec i)"

record tm =
  tm_sec :: int
  tm_min :: int
  tm_hour :: int
  tm_mday :: int
  tm_mon :: int
  tm_year :: int
  tm_wday :: int

text \<open>
  \<open>gmtime\<close>: the date in the Gregorian calendar, which repeats every 400 years, or 146097 days. The
  loops find the year and the month that a number of days falls in. The year here is the full year,
  not the year since 1900. It fails for a year that is no \<open>int\<close>.
\<close>

definition is_leap :: "int \<Rightarrow> bool" where
  "is_leap y \<longleftrightarrow> y mod 4 = 0 \<and> (y mod 100 \<noteq> 0 \<or> y mod 400 = 0)"

definition year_days :: "int \<Rightarrow> int" where
  "year_days y = (if is_leap y then 366 else 365)"

function year_loop :: "int \<Rightarrow> int \<Rightarrow> int \<times> int" where
  "year_loop y d = (if d < year_days y then (y, d) else year_loop (y + 1) (d - year_days y))"
  by auto
termination by (relation "measure (\<lambda>(y, d). nat d)") (auto simp: year_days_def split: if_splits)

declare year_loop.simps [simp del]

definition month_days :: "int \<Rightarrow> int list" where
  "month_days y = [31, if is_leap y then 29 else 28, 31, 30, 31, 30, 31, 31, 30, 31, 30, 31]"

fun month_loop :: "int list \<Rightarrow> int \<Rightarrow> int \<Rightarrow> int \<times> int" where
  "month_loop [] i d = (i, d)"
| "month_loop (n # ns) i d = (if d < n then (i, d) else month_loop ns (i + 1) (d - n))"

definition gmtime :: "int \<Rightarrow> tm option" where
  "gmtime t =
     (let days = t div 86400; s = t mod 86400;
          (y, d) = year_loop 1970 (days mod 146097);
          (mon, mday) = month_loop (month_days y) 0 d;
          year = y + 400 * (days div 146097) in
      if - (2 ^ 31) \<le> year - 1900 \<and> year - 1900 < 2 ^ 31
      then Some \<lparr>tm_sec = s mod 60, tm_min = s div 60 mod 60, tm_hour = s div 3600,
                 tm_mday = mday + 1, tm_mon = mon, tm_year = year, tm_wday = (days + 4) mod 7\<rparr>
      else None)"

definition nth_name :: "string list \<Rightarrow> int \<Rightarrow> string" where
  "nth_name ns i = (if 0 \<le> i \<and> i < int (length ns) then ns ! nat i else ''?'')"

abbreviation (input) CRLF :: string where "CRLF \<equiv> [CR, LF]"

text \<open>\<open>strftime\<close> with the format \<open>Date: %a, %d %b %Y %H:%M:%S GMT\<close> and a line end.\<close>

definition strftime_date :: "tm \<Rightarrow> string" where
  "strftime_date t = ''Date: '' @
     nth_name [''Sun'', ''Mon'', ''Tue'', ''Wed'', ''Thu'', ''Fri'', ''Sat''] (tm_wday t) @ '', '' @
     dec2 (tm_mday t) @ '' '' @
     nth_name [''Jan'', ''Feb'', ''Mar'', ''Apr'', ''May'', ''Jun'', ''Jul'', ''Aug'', ''Sep'', ''Oct'',
       ''Nov'', ''Dec''] (tm_mon t) @ '' '' @ dec (tm_year t) @ '' '' @
     dec2 (tm_hour t) @ '':'' @ dec2 (tm_min t) @ '':'' @ dec2 (tm_sec t) @ '' GMT'' @ CRLF"

text \<open>The C string at a pointer.\<close>

definition cstring :: "block \<Rightarrow> string option" where
  "cstring bs = do { n \<leftarrow> strlen_bytes bs; those (take n bs) }"

text \<open>
  \<open>snprintf\<close> with a format that is a C string in memory and one string argument: any directive but
  \<open>%s\<close> and \<open>%%\<close>, and a second \<open>%s\<close>, has no argument to convert.
\<close>

fun format_s :: "block \<Rightarrow> string option \<Rightarrow> string option" where
  "format_s (Some c # bs) arg =
     (if c = NUL then Some []
      else if c = CHR ''%'' then
        (case bs of
           Some d # bs' \<Rightarrow>
             if d = CHR ''%'' then map_option (\<lambda>x. CHR ''%'' # x) (format_s bs' arg)
             else if d = CHR ''s'' then do { s \<leftarrow> arg; x \<leftarrow> format_s bs' None; Some (s @ x) }
             else None
         | _ \<Rightarrow> None)
      else map_option (\<lambda>x. c # x) (format_s bs arg))"
| "format_s bs arg = None"

section \<open>Tables\<close>

text \<open>\<open>HTTP_STATUS_MAP\<close>: the entries as the preprocessor makes strings of them.\<close>

definition HTTP_STATUS_MAP :: "(nat \<times> string) list" where
  "HTTP_STATUS_MAP =
    [(100, ''Continue''),
     (101, ''Switching Protocols''),
     (102, ''Processing''),
     (200, ''OK''),
     (201, ''Created''),
     (202, ''Accepted''),
     (203, ''Non - Authoritative Information''),
     (204, ''No Content''),
     (205, ''Reset Content''),
     (206, ''Partial Content''),
     (207, ''Multi - Status''),
     (208, ''Already Reported''),
     (226, ''IM Used''),
     (300, ''Multiple Choices''),
     (301, ''Moved Permanently''),
     (302, ''Found''),
     (303, ''See Other''),
     (304, ''Not Modified''),
     (305, ''Use Proxy''),
     (307, ''Temporary Redirect''),
     (308, ''Permanent Redirect''),
     (400, ''Bad Request''),
     (401, ''Unauthorized''),
     (402, ''Payment Required''),
     (403, ''Forbidden''),
     (404, ''Not Found''),
     (405, ''Method Not Allowed''),
     (406, ''Not Acceptable''),
     (407, ''Proxy Authentication Required''),
     (408, ''Request Timeout''),
     (409, ''Conflict''),
     (410, ''Gone''),
     (411, ''Length Required''),
     (412, ''Precondition Failed''),
     (413, ''Payload Too Large''),
     (414, ''URI Too Long''),
     (415, ''Unsupported Media Type''),
     (416, ''Range Not Satisfiable''),
     (417, ''Expectation Failed''),
     (421, ''Misdirected Request''),
     (422, ''Unprocessable Entity''),
     (423, ''Locked''),
     (424, ''Failed Dependency''),
     (426, ''Upgrade Required''),
     (428, ''Precondition Required''),
     (429, ''Too Many Requests''),
     (431, ''Request Header Fields Too Large''),
     (451, ''Unavailable For Legal Reasons''),
     (500, ''Internal Server Error''),
     (501, ''Not Implemented''),
     (502, ''Bad Gateway''),
     (503, ''Service Unavailable''),
     (504, ''Gateway Timeout''),
     (505, ''HTTP Version Not Supported''),
     (506, ''Variant Also Negotiates''),
     (507, ''Insufficient Storage''),
     (508, ''Loop Detected''),
     (510, ''Not Extended''),
     (511, ''Network Authentication Required'')]"

fun fill_status :: "(int \<Rightarrow> string option) \<Rightarrow> (nat \<times> string) list \<Rightarrow> int \<Rightarrow> string option" where
  "fill_status t [] = t"
| "fill_status t ((num, name) # es) = fill_status (t(int num := Some (dec_nat num @ '' '' @ name))) es"

definition status_table_init :: "'x globals_scheme \<Rightarrow> 'x globals_scheme" where
  "status_table_init g = g\<lparr>g_status_table := fill_status (\<lambda>_. None) HTTP_STATUS_MAP\<rparr>"

text \<open>An entry of the array of 512 pointers.\<close>

definition status_table_at :: "'x globals_scheme \<Rightarrow> int \<Rightarrow> string option option" where
  "status_table_at g code = (if 0 \<le> code \<and> code < 512 then Some (g_status_table g code) else None)"

definition mime_list :: "(ssstr_t \<times> ssstr_t) list" where
  "mime_list =
    [(SSSTR ''word'', SSSTR ''application/msword''),
     (SSSTR ''pdf'', SSSTR ''application/pdf''),
     (SSSTR ''zip'', SSSTR ''application/zip''),
     (SSSTR ''js'', SSSTR ''application/javascript''),
     (SSSTR ''gif'', SSSTR ''image/gif''),
     (SSSTR ''jpeg'', SSSTR ''image/jpeg''),
     (SSSTR ''jpg'', SSSTR ''image/jpeg''),
     (SSSTR ''png'', SSSTR ''image/png''),
     (SSSTR ''css'', SSSTR ''text/css''),
     (SSSTR ''html'', SSSTR ''text/html''),
     (SSSTR ''htm'', SSSTR ''text/html''),
     (SSSTR ''txt'', SSSTR ''text/plain''),
     (SSSTR ''xml'', SSSTR ''text/xml''),
     (SSSTR ''svg'', SSSTR ''image/svg+xml''),
     (SSSTR ''mp4'', SSSTR ''video/mp4'')]"

text \<open>The memory argument is irrelevant: all keys are literals.\<close>

fun put_mime :: "ssstr_t dict_t \<Rightarrow> (ssstr_t \<times> ssstr_t) list \<Rightarrow> ssstr_t dict_t option" where
  "put_mime d [] = Some d"
| "put_mime d (e # es) = dict_put True Map.empty d (fst e) (Some (snd e)) \<bind> (\<lambda>d'. put_mime d' es)"

definition mime_dict_init :: "'x globals_scheme \<Rightarrow> 'x globals_scheme option" where
  "mime_dict_init g = map_option (\<lambda>d. g\<lparr>g_mime_dict := d\<rparr>) (put_mime dict_init mime_list)"

definition mime_dict_free :: "'x globals_scheme \<Rightarrow> 32 word" where
  "mime_dict_free g = dict_free (g_mime_dict g)"

section \<open>The error page\<close>

text \<open>
  The bytes of a file mapped into memory: the contents, and zeros to the end of the last page. An
  empty file cannot be mapped, and the failure value of \<open>mmap\<close> is not null: nothing is readable.
\<close>

definition mapped_bytes :: "string \<Rightarrow> block" where
  "mapped_bytes x = map Some x @ replicate (nat ((- int (length x)) mod 4096)) (Some NUL)"

text \<open>
  \<open>err_page_init\<close>; the inner \<open>None\<close> is an abort. The size passed to \<open>buffer_init\<close>, which has no
  parameter, has no effect.
\<close>

definition err_page_init :: "'x globals_scheme \<Rightarrow> 'x globals_scheme option option" where
  "err_page_init g =
     (let (fd, g) = sys_openat (g_rootdir_fd g) ''error.html'' g in
      if fd = ERROR then Some None
      else do {
        st \<leftarrow> sys_fstat fd g;
        let (ok, g) = next_malloc g;
        case buffer_init ok of
          None \<Rightarrow> Some None
        | Some b \<Rightarrow>
            (case fd_lookup g fd of
               Some (Fd_file i _) \<Rightarrow>
                 Some (Some (g\<lparr>g_err_page :=
                   \<lparr>err_page_fd = fd,
                    raw_err_page = (case k_inode g i of Regular x \<Rightarrow> mapped_bytes x | Directory _ \<Rightarrow> []),
                    raw_page_size = snd st, rendered_err_page = b, rendered_page_size = 0\<rparr>\<rparr>))
             | _ \<Rightarrow> None)
      })"

definition err_page_free :: "'x globals_scheme \<Rightarrow> 'x globals_scheme" where
  "err_page_free g = close_fd (err_page_fd (g_err_page g)) g"

definition err_page_render_buf :: "'x globals_scheme \<Rightarrow> block" where
  "err_page_render_buf g = b_buf (rendered_err_page (g_err_page g))"

section \<open>Appending header lines\<close>

text \<open>
  A run of \<open>r->ob = buffer_cat_cstr(b, s)\<close> with the same local \<open>b\<close>: a call that fails leaves \<open>b\<close>
  usable and \<open>r->ob\<close> null until the next call; a call that moves the block leaves \<open>b\<close> dead, which
  only the last call of the run may do.
\<close>

fun cat_run :: "buffer_t \<Rightarrow> string list \<Rightarrow> 'x globals_scheme \<Rightarrow> (buffer_t option \<times> 'x globals_scheme) option" where
  "cat_run b [] g = Some (Some b, g)"
| "cat_run b (s # ss) g =
     (let (ra, g) = next_realloc g in
      case buffer_cat_cstr ra b s of
        None \<Rightarrow> None
      | Some (Cat_same b') \<Rightarrow> cat_run b' ss g
      | Some (Cat_null b') \<Rightarrow> if ss = [] then Some (None, g) else cat_run b' ss g
      | Some (Cat_moved b') \<Rightarrow> if ss = [] then Some (Some b', g) else None)"

text \<open>The run on the request's output buffer; a null \<open>r->ob\<close> is dereferenced.\<close>

definition append_ob :: "string list \<Rightarrow> request_t \<Rightarrow> 'x globals_scheme \<Rightarrow> (request_t \<times> 'x globals_scheme) option" where
  "append_ob ss r g = do {
     b \<leftarrow> r_ob r;
     (ob, g) \<leftarrow> cat_run b ss g;
     Some (r\<lparr>r_ob := ob\<rparr>, g)
   }"

definition response_append_status_line :: "request_t \<Rightarrow> 'x globals_scheme \<Rightarrow> (request_t \<times> 'x globals_scheme) option" where
  "response_append_status_line r g = do {
     status_str \<leftarrow> status_table_at g (r_status_code r);
     append_ob ([if http_minor (ar_version (r_par r)) = 1 then ''HTTP/1.1 '' else ''HTTP/1.0 ''] @
        (case status_str of None \<Rightarrow> [] | Some s \<Rightarrow> [s]) @ [CRLF]) r g
   }"

definition response_append_date :: "request_t \<Rightarrow> 'x globals_scheme \<Rightarrow> (request_t \<times> 'x globals_scheme) option" where
  "response_append_date r g = do {
     b \<leftarrow> r_ob r;
     t \<leftarrow> gmtime (k_now g);
     let x = strftime_date t;
     if int (length x) + 1 \<le> to_size (b_free b) then do {
       bs \<leftarrow> memcpy_at (b_buf b) (buffer_len b) (x @ [NUL]);
       Some (r\<lparr>r_ob := Some \<lparr>b_len = to_int32 (b_len b + int (length x)),
                b_free = to_int32 (b_free b - int (length x)), b_buf = bs\<rparr>\<rparr>, g)
     }
     else
       let n = nat (b_len b); f = nat (b_free b) in
       Some (r\<lparr>r_ob := Some (b\<lparr>b_buf := take n (b_buf b) @ replicate f None @ drop (n + f) (b_buf b)\<rparr>)\<rparr>, g)
   }"

abbreviation (input) SERVER_NAME :: string where "SERVER_NAME \<equiv> ''lotos/0.1''"

definition response_append_server :: "request_t \<Rightarrow> 'x globals_scheme \<Rightarrow> (request_t \<times> 'x globals_scheme) option" where
  "response_append_server r g = append_ob [''Server: '', SERVER_NAME @ CRLF] r g"

definition response_append_content_type :: "request_t \<Rightarrow> 'x globals_scheme \<Rightarrow> (request_t \<times> 'x globals_scheme) option" where
  "response_append_content_type r g = do {
     content_type \<leftarrow>
       (if ar_err_req (r_par r) then Some (SSSTR ''text/html'')
        else do {
          (v, _) \<leftarrow> dict_get (req_mem r) (g_mime_dict g) (url_mime_extension (ar_url (r_par r)));
          Some (case v of Some ct \<Rightarrow> ct | None \<Rightarrow> SSSTR ''text/html'')
        });
     s \<leftarrow> cstring (bytes_from (req_mem r) (ss_str content_type));
     append_ob [''Content-Type: '', s, CRLF] r g
   }"

text \<open>\<open>snprintf\<close> of the page into its buffer, cut to the buffer's size; the result is the full length.\<close>

definition render_err_page :: "request_t \<Rightarrow> 'x globals_scheme \<Rightarrow> (int \<times> 'x globals_scheme) option" where
  "render_err_page r g = do {
     s \<leftarrow> status_table_at g (r_status_code r);
     s \<leftarrow> s;
     let ep = g_err_page g;
     let rp = rendered_err_page ep;
     x \<leftarrow> format_s (raw_err_page ep) (Some s);
     let size = to_size (to_int32 (b_free rp + b_len rp));
     bs \<leftarrow> (if size = 0 then Some (b_buf rp) else memcpy_at (b_buf rp) 0 (take (nat size - 1) x @ [NUL]));
     let len = to_int32 (int (length x));
     Some (len, g\<lparr>g_err_page := ep\<lparr>rendered_err_page := rp\<lparr>b_buf := bs\<rparr>, rendered_page_size := to_size len\<rparr>\<rparr>)
   }"

definition response_append_content_length :: "request_t \<Rightarrow> 'x globals_scheme \<Rightarrow> (request_t \<times> 'x globals_scheme) option" where
  "response_append_content_length r g = do {
     (len, g) \<leftarrow> (if ar_err_req (r_par r) then render_err_page r g else Some (r_resource_size r, g));
     append_ob [''Content-Length: '' @ dec len @ CRLF] r g
   }"

definition response_append_connection :: "request_t \<Rightarrow> 'x globals_scheme \<Rightarrow> (request_t \<times> 'x globals_scheme) option" where
  "response_append_connection r g =
     append_ob [if ar_keep_alive (r_par r) then ''Connection: keep-alive'' else ''Connection: close'', CRLF] r g"

definition response_append_crlf :: "request_t \<Rightarrow> 'x globals_scheme \<Rightarrow> (request_t \<times> 'x globals_scheme) option" where
  "response_append_crlf r g = append_ob [CRLF] r g"

section \<open>Decimal numbers\<close>

lemma digit_char: "n < 10 \<Longrightarrow> ord_char (char_of (48 + n)) = 48 + int n"
  for n :: nat
proof -
  assume "n < 10"
  then have "(of_char (char_of (48 + n) :: char) :: nat) = 48 + n" by simp
  then have "(of_char (char_of (48 + n) :: char) :: int) = 48 + int n"
    by (metis of_nat_add of_nat_numeral of_nat_of_char)
  then show ?thesis by (simp add: ord_char_def)
qed

lemma is_digit_dec: "n < 10 \<Longrightarrow> is_digit_char (char_of (48 + n))" for n :: nat
  by (simp add: is_digit_char_def digit_char)

lemma dec_nat_digits: "list_all is_digit_char (dec_nat n)"
proof (induction n rule: dec_nat.induct)
  case (1 n)
  then show ?case by (subst dec_nat.simps) (simp add: is_digit_dec)
qed

text \<open>Reading a decimal number back: \<open>strtol\<close>'s loop over the printed digits.\<close>

lemma scan_dec_nat:
  "scan_digits acc (map Some (dec_nat n) @ bs) = scan_digits (acc * 10 ^ length (dec_nat n) + int n) bs"
proof (induction n arbitrary: acc bs rule: dec_nat.induct)
  case (1 n)
  show ?case
  proof (cases "n < 10")
    case True
    then show ?thesis by (subst (1 2) dec_nat.simps) (simp add: is_digit_dec digit_char)
  next
    case False
    have d: "int (n div 10) * 10 + int (n mod 10) = int n"
      by (metis of_nat_add of_nat_mult of_nat_numeral div_mult_mod_eq)
    have "acc * (10 * 10 ^ length (dec_nat (n div 10))) + int n =
        (acc * 10 ^ length (dec_nat (n div 10)) + int (n div 10)) * 10 + int (n mod 10)"
      using d by (simp add: algebra_simps)
    with False 1 [OF False] show ?thesis
      by (subst (1 2) dec_nat.simps) (simp add: is_digit_dec digit_char ac_simps)
  qed
qed

lemma length_dec_nat: "0 < k \<Longrightarrow> n < 10 ^ k \<Longrightarrow> length (dec_nat n) \<le> k"
proof (induction k arbitrary: n)
  case (Suc k)
  show ?case
  proof (cases "n < 10")
    case False
    with Suc.prems have "0 < k" by (cases k) auto
    with Suc have "length (dec_nat (n div 10)) \<le> k" by (simp add: less_mult_imp_div_less mult.commute)
    with False show ?thesis by (subst dec_nat.simps) simp
  qed (subst dec_nat.simps, simp)
qed simp

lemma length_dec: "- (10 ^ k) < i \<Longrightarrow> i < 10 ^ k \<Longrightarrow> 0 < k \<Longrightarrow> length (dec i) \<le> Suc k"
  using length_dec_nat [of k "nat i"] length_dec_nat [of k "nat (- i)"]
  by (auto simp: dec_def nat_less_iff)

lemma length_dec2: "0 \<le> i \<Longrightarrow> i < 100 \<Longrightarrow> length (dec2 i) = 2"
  by (auto simp: dec2_def dec_def dec_nat.simps)

section \<open>Dates\<close>

lemma year_loop_range:
  "0 \<le> d \<Longrightarrow> year_loop y d = (y', d') \<Longrightarrow> y \<le> y' \<and> 0 \<le> d' \<and> d' < year_days y'"
proof (induction y d rule: year_loop.induct)
  case (1 y d)
  then show ?case by (subst (asm) year_loop.simps) (auto split: if_splits)
qed

lemma month_loop_range:
  "0 \<le> d \<Longrightarrow> d < sum_list ns \<Longrightarrow> list_all (\<lambda>n. n \<le> 31) ns \<Longrightarrow> month_loop ns i d = (j, e) \<Longrightarrow>
   i \<le> j \<and> j < i + int (length ns) \<and> 0 \<le> e \<and> e < 31"
proof (induction ns arbitrary: i d)
  case (Cons n ns)
  show ?case
  proof (cases "d < n")
    case False
    with Cons.prems Cons.IH [of "d - n" "i + 1"] show ?thesis by simp
  qed (use Cons.prems in auto)
qed simp

lemma month_days_sum: "sum_list (month_days y) = year_days y" "list_all (\<lambda>n. n \<le> 31) (month_days y)"
  "length (month_days y) = 12"
  by (simp_all add: month_days_def year_days_def)

lemma gmtime_range:
  assumes "gmtime t = Some x"
  shows "0 \<le> tm_sec x \<and> tm_sec x < 60 \<and> 0 \<le> tm_min x \<and> tm_min x < 60 \<and> 0 \<le> tm_hour x \<and> tm_hour x < 24 \<and>
    1 \<le> tm_mday x \<and> tm_mday x \<le> 31 \<and> 0 \<le> tm_mon x \<and> tm_mon x < 12 \<and> 0 \<le> tm_wday x \<and> tm_wday x < 7 \<and>
    - (2 ^ 31) + 1900 \<le> tm_year x \<and> tm_year x < 2 ^ 31 + 1900"
proof -
  obtain y d where y: "year_loop 1970 (t div 86400 mod 146097) = (y, d)" by fastforce
  obtain mon mday where m: "month_loop (month_days y) 0 d = (mon, mday)" by fastforce
  have "0 \<le> d" "d < year_days y" using year_loop_range [OF _ y] by simp_all
  with month_loop_range [OF _ _ _ m] month_days_sum [of y]
  have "0 \<le> mon" "mon < 12" "0 \<le> mday" "mday < 31" by simp_all
  moreover have "0 \<le> t mod 86400 div 3600 \<and> t mod 86400 div 3600 < 24"
    using zdiv_mono1 [of "t mod 86400" 86399 3600] by (simp add: pos_imp_zdiv_nonneg_iff)
  moreover from assms y m have "x = \<lparr>tm_sec = t mod 86400 mod 60, tm_min = t mod 86400 div 60 mod 60,
      tm_hour = t mod 86400 div 3600, tm_mday = mday + 1, tm_mon = mon,
      tm_year = y + 400 * (t div 86400 div 146097), tm_wday = (t div 86400 + 4) mod 7\<rparr>"
    "- (2 ^ 31) \<le> tm_year x - 1900" "tm_year x - 1900 < 2 ^ 31"
    by (auto simp: gmtime_def Let_def split: if_splits)
  ultimately show ?thesis by simp
qed

lemma nth_name_cases:
  "0 \<le> i \<Longrightarrow> i < int (length ns) \<Longrightarrow> nth_name ns i \<in> set ns"
  by (simp add: nth_name_def)

lemma digits_no_nul: "list_all is_digit_char x \<Longrightarrow> NUL \<notin> set x"
  by (auto simp: list_all_iff is_digit_char_def ord_char_def)

lemma dec_no_nul: "NUL \<notin> set (dec i)" "NUL \<notin> set (dec2 i)"
  using digits_no_nul [OF dec_nat_digits] by (auto simp: dec_def dec2_def)

text \<open>The date line has 37 bytes until the year 9999, and never more than 44.\<close>

lemma length_date:
  assumes "gmtime t = Some x"
  shows "length (strftime_date x) = 33 + length (dec (tm_year x))"
proof -
  note r = gmtime_range [OF assms]
  let ?w = "nth_name [''Sun'', ''Mon'', ''Tue'', ''Wed'', ''Thu'', ''Fri'', ''Sat''] (tm_wday x)"
  let ?m = "nth_name [''Jan'', ''Feb'', ''Mar'', ''Apr'', ''May'', ''Jun'', ''Jul'', ''Aug'', ''Sep'', ''Oct'',
       ''Nov'', ''Dec''] (tm_mon x)"
  have "length ?w = 3" using nth_name_cases [of "tm_wday x" "[''Sun'', ''Mon'', ''Tue'', ''Wed'', ''Thu'', ''Fri'', ''Sat'']"] r
    by auto
  moreover have "length ?m = 3"
    using nth_name_cases [of "tm_mon x" "[''Jan'', ''Feb'', ''Mar'', ''Apr'', ''May'', ''Jun'', ''Jul'', ''Aug'', ''Sep'', ''Oct'',
       ''Nov'', ''Dec'']"] r by auto
  moreover have "length (dec2 (tm_mday x)) = 2" "length (dec2 (tm_hour x)) = 2"
    "length (dec2 (tm_min x)) = 2" "length (dec2 (tm_sec x)) = 2"
    using r by (simp_all add: length_dec2)
  ultimately show ?thesis by (simp add: strftime_date_def)
qed

lemma length_date_bound: "gmtime t = Some x \<Longrightarrow> length (strftime_date x) \<le> 44"
  using length_date [of t x] gmtime_range [of t x] length_dec [of 10 "tm_year x"] by simp

end
