(* ===== verification/Response_Text.thy ===== *)
theory Response_Text
  imports Response
begin

text \<open>
  What the functions of \<^verbatim>\<open>src/src/response.c\<close> append. While the response buffer has room no
  append moves it, so the stale local pointers of that file do no harm; the interface
  \<open>append_target\<close> is interpreted on the request object, and each function is an append of a text
  that depends on the request, the clock and the tables.
\<close>

section \<open>The output buffer as an append target\<close>

definition ob_ok :: "request_t \<Rightarrow> bool" where
  "ob_ok r \<longleftrightarrow> (case r_ob r of None \<Rightarrow> False | Some b \<Rightarrow> buffer_inv b)"

definition ob_text :: "request_t \<Rightarrow> string" where
  "ob_text r = (case r_ob r of None \<Rightarrow> [] | Some b \<Rightarrow> buffer_data b)"

definition ob_room :: "request_t \<Rightarrow> int" where
  "ob_room r = (case r_ob r of None \<Rightarrow> 0 | Some b \<Rightarrow> b_free b)"

text \<open>Everything but the output buffer and the allocator.\<close>

definition around_ob :: "request_t \<times> 'x globals_scheme \<Rightarrow> request_t \<times> 'x globals_scheme" where
  "around_ob rg = ((fst rg)\<lparr>r_ob := None\<rparr>, (snd rg)\<lparr>k_realloc := []\<rparr>)"

lemma takeWhile_no_nul: "NUL \<notin> set s \<Longrightarrow> takeWhile (\<lambda>c. c \<noteq> NUL) s = s"
  by (auto simp: takeWhile_eq_all_conv)

lemma cat_cstr_fits:
  assumes "buffer_inv b" and "NUL \<notin> set s" and "int (length s) \<le> b_free b"
  shows "\<exists>b'. buffer_cat_cstr ra b s = Some (Cat_same b') \<and> cat_ok b s b' \<and>
           b_free b' = b_free b - int (length s)"
  using buffer_cat_fits [OF assms(1,3), of ra] assms(2)
  by (auto simp: buffer_cat_cstr_def takeWhile_no_nul)

lemma next_realloc_around: "next_realloc g = (ra, g') \<Longrightarrow> g'\<lparr>k_realloc := []\<rparr> = g\<lparr>k_realloc := []\<rparr>"
  by (auto simp: next_realloc_def split: list.splits)

lemma cat_run_cons_fits:
  assumes "ob_ok r" and "NUL \<notin> set s" and "int (length s) \<le> ob_room r"
  shows "\<exists>r' g'. append_ob [s] r g = Some (r', g') \<and> ob_ok r' \<and> ob_text r' = ob_text r @ s \<and>
    ob_room r' = ob_room r - int (length s) \<and> around_ob (r', g') = around_ob (r, g) \<and>
    append_ob (s # ss) r g = append_ob ss r' g'"
proof -
  obtain b where b: "r_ob r = Some b" "buffer_inv b"
    using assms(1) by (auto simp: ob_ok_def split: option.splits)
  obtain ra g' where g': "next_realloc g = (ra, g')" by fastforce
  obtain b' where b': "buffer_cat_cstr ra b s = Some (Cat_same b')" "cat_ok b s b'"
    "b_free b' = b_free b - int (length s)"
    using cat_cstr_fits [OF b(2) assms(2)] assms(3) b(1) by (auto simp: ob_room_def)
  have "append_ob [s] r g = Some (r\<lparr>r_ob := Some b'\<rparr>, g')"
    "append_ob (s # ss) r g = append_ob ss (r\<lparr>r_ob := Some b'\<rparr>) g'"
    using b g' b'(1) by (simp_all add: append_ob_def)
  with b b' next_realloc_around [OF g'] show ?thesis
    by (auto simp: ob_ok_def ob_text_def ob_room_def cat_ok_def around_ob_def)
qed

interpretation ob: append_target "\<lambda>rg. ob_ok (fst rg)" "\<lambda>rg. ob_text (fst rg)" "\<lambda>rg. ob_room (fst rg)"
    around_ob "\<lambda>s. NUL \<notin> set s" "\<lambda>rg s. append_ob [s] (fst rg) (snd rg)"
  by unfold_locales (use cat_run_cons_fits in force)

text \<open>A run of appends with a stale local pointer is the run through the interface.\<close>

lemma append_ob_all:
  "ob_ok r \<Longrightarrow> list_all (\<lambda>s. NUL \<notin> set s) ss \<Longrightarrow> int (length (concat ss)) \<le> ob_room r \<Longrightarrow>
   append_ob ss r g = ob.append_all (r, g) ss"
proof (induction ss arbitrary: r g)
  case Nil
  then have "append_ob [] r g = Some (r, g)"
    by (auto simp: ob_ok_def append_ob_def split: option.splits)
  then show ?case by simp
next
  case (Cons s ss)
  have s: "NUL \<notin> set s" "int (length s) \<le> ob_room r" using Cons.prems by simp_all
  obtain r' g' where r': "append_ob [s] r g = Some (r', g')" "ob_ok r'"
    "ob_room r' = ob_room r - int (length s)" "append_ob (s # ss) r g = append_ob ss r' g'"
    using cat_run_cons_fits [OF Cons.prems(1) s, of g ss] by blast
  then show ?case using Cons.IH [of r' g'] Cons.prems by simp
qed

definition appends :: "(request_t \<Rightarrow> 'x globals_scheme \<Rightarrow> (request_t \<times> 'x globals_scheme) option) \<Rightarrow>
    string \<Rightarrow> request_t \<Rightarrow> 'x globals_scheme \<Rightarrow> bool" where
  "appends f x r g \<longleftrightarrow> (\<exists>r' g'. f r g = Some (r', g') \<and> ob.extends_by x (r, g) (r', g'))"

lemma append_ob_appends:
  assumes "ob_ok r" and "list_all (\<lambda>s. NUL \<notin> set s) ss" and "int (length (concat ss)) \<le> ob_room r"
  shows "appends (append_ob ss) (concat ss) r g"
  using append_ob_all [OF assms, of g] ob.append_all_fits [of "(r, g)" ss] assms
  by (auto simp: appends_def)

lemma extends_by_parts:
  assumes "ob.extends_by x (r, g) (r', g')"
  shows "r' = r\<lparr>r_ob := r_ob r'\<rparr>" and "g' = g\<lparr>k_realloc := k_realloc g'\<rparr>" and "ob_ok r'"
    and "ob_text r' = ob_text r @ x" and "ob_room r' = ob_room r - int (length x)"
proof -
  from assms have *: "r'\<lparr>r_ob := None\<rparr> = r\<lparr>r_ob := None\<rparr>" "g'\<lparr>k_realloc := []\<rparr> = g\<lparr>k_realloc := []\<rparr>"
    by (simp_all add: ob.extends_by_def around_ob_def)
  from *(1) show "r' = r\<lparr>r_ob := r_ob r'\<rparr>" by (cases r, cases r') simp
  from *(2) show "g' = g\<lparr>k_realloc := k_realloc g'\<rparr>" by (cases g, cases g') simp
qed (use assms in \<open>simp_all add: ob.extends_by_def\<close>)

section \<open>The header lines\<close>

definition status_line :: "request_t \<Rightarrow> 'x globals_scheme \<Rightarrow> string" where
  "status_line r g = (if http_minor (ar_version (r_par r)) = 1 then ''HTTP/1.1 '' else ''HTTP/1.0 '') @
     (case g_status_table g (r_status_code r) of None \<Rightarrow> [] | Some s \<Rightarrow> s) @ CRLF"

definition date_line :: "'x globals_scheme \<Rightarrow> string" where
  "date_line g = (case gmtime (k_now g) of None \<Rightarrow> [] | Some t \<Rightarrow> strftime_date t)"

definition content_type_line :: "string \<Rightarrow> string" where
  "content_type_line ct = ''Content-Type: '' @ ct @ CRLF"

definition content_length_line :: "int \<Rightarrow> string" where
  "content_length_line n = ''Content-Length: '' @ dec n @ CRLF"

definition connection_line :: "bool \<Rightarrow> string" where
  "connection_line keep = (if keep then ''Connection: keep-alive'' else ''Connection: close'') @ CRLF"

definition server_line :: string where
  "server_line = ''Server: '' @ SERVER_NAME @ CRLF"

text \<open>The tables as the initialisation functions leave them.\<close>

definition tables_ok :: "'x globals_scheme \<Rightarrow> bool" where
  "tables_ok g \<longleftrightarrow> g_status_table g = fill_status (\<lambda>_. None) HTTP_STATUS_MAP \<and>
     Some (g_mime_dict g) = put_mime dict_init mime_list"

lemma fill_status_map:
  "distinct (map fst es) \<Longrightarrow> fill_status t es c =
     (case find (\<lambda>e. int (fst e) = c) es of None \<Rightarrow> t c | Some e \<Rightarrow> Some (dec_nat (fst e) @ '' '' @ snd e))"
proof (induction es arbitrary: t)
  case (Cons e es)
  show ?case
  proof (cases "int (fst e) = c")
    case True
    moreover have "fst e \<notin> fst ` set es" using Cons.prems by simp
    ultimately have "\<forall>x \<in> set es. int (fst x) \<noteq> c" by (metis image_eqI of_nat_eq_iff)
    then have "find (\<lambda>e. int (fst e) = c) es = None" by (auto simp: find_None_iff)
    with True Cons show ?thesis by (cases e) simp
  next
    case False
    with Cons show ?thesis by (cases e) (auto split: option.splits)
  qed
qed simp

lemma status_map_facts:
  "distinct (map fst HTTP_STATUS_MAP)"
  "list_all (\<lambda>e. fst e < 1000 \<and> length (snd e) \<le> 31 \<and> NUL \<notin> set (snd e)) HTTP_STATUS_MAP"
  by (simp_all add: HTTP_STATUS_MAP_def)

lemma status_entry:
  assumes "tables_ok g" and "g_status_table g c = Some s"
  shows "length s \<le> 35 \<and> NUL \<notin> set s"
proof -
  obtain e where e: "find (\<lambda>e. int (fst e) = c) HTTP_STATUS_MAP = Some e" "s = dec_nat (fst e) @ '' '' @ snd e"
    using assms fill_status_map [OF status_map_facts(1), of "\<lambda>_. None" c]
    by (auto simp: tables_ok_def split: option.splits)
  then have "e \<in> set HTTP_STATUS_MAP" by (auto simp: find_Some_iff)
  with status_map_facts(2) have "fst e < 1000" "length (snd e) \<le> 31" "NUL \<notin> set (snd e)"
    by (auto simp: list_all_iff)
  with e(2) length_dec_nat [of 3 "fst e"] digits_no_nul [OF dec_nat_digits] show ?thesis by auto
qed

section \<open>MIME types\<close>

definition mime_names :: "(string \<times> string) list" where
  "mime_names = [(''word'', ''application/msword''), (''pdf'', ''application/pdf''),
     (''zip'', ''application/zip''), (''js'', ''application/javascript''), (''gif'', ''image/gif''),
     (''jpeg'', ''image/jpeg''), (''jpg'', ''image/jpeg''), (''png'', ''image/png''), (''css'', ''text/css''),
     (''html'', ''text/html''), (''htm'', ''text/html''), (''txt'', ''text/plain''), (''xml'', ''text/xml''),
     (''svg'', ''image/svg+xml''), (''mp4'', ''video/mp4'')]"

text \<open>The type of a file with the given extension.\<close>

definition mime_of :: "string \<Rightarrow> string" where
  "mime_of x = (case map_of mime_names x of None \<Rightarrow> ''text/html'' | Some t \<Rightarrow> t)"

lemma put_mime_all:
  "put_mime d (map (\<lambda>(a, b). (SSSTR a, SSSTR b)) es) =
     lit_dict.put_all m d (map (\<lambda>(a, b). (a, Some (SSSTR b))) es)"
proof (induction es arbitrary: d)
  case (Cons e es)
  have "dict_put True Map.empty d (SSSTR a) v = dict_put True m d (SSSTR a) v" for a and v :: "ssstr_t option"
    by (simp add: dict_put_def LOTOS_HASH_view [OF ss_view_SSSTR])
  with Cons show ?case by (cases e) simp
qed simp

lemma mime_dict_ok:
  assumes "tables_ok g"
  shows "dict_inv m (g_mime_dict g) \<and>
    dict_map m (g_mime_dict g) x = map_option (\<lambda>t. Some (SSSTR t)) (map_of mime_names x)"
proof -
  have "mime_list = map (\<lambda>(a, b). (SSSTR a, SSSTR b)) mime_names"
    by (simp add: mime_list_def mime_names_def)
  with assms have "lit_dict.put_all m dict_init (map (\<lambda>(a, b). (a, Some (SSSTR b))) mime_names) = Some (g_mime_dict g)"
    using put_mime_all [of dict_init mime_names m] by (simp add: tables_ok_def)
  moreover have "distinct (map fst (map (\<lambda>(a, b). (a, Some (SSSTR b))) mime_names))"
    by (simp add: mime_names_def)
  ultimately have "dict_inv m (g_mime_dict g)"
    "dict_map m (g_mime_dict g) = map_of (map (\<lambda>(a, b). (a, Some (SSSTR b))) mime_names)"
    using lit_dict.put_all_distinct [of "map (\<lambda>(a, b). (a, Some (SSSTR b))) mime_names" m] by auto
  then show ?thesis by (simp add: map_of_map)
qed

lemma null_view: "ss_view m e = Some x \<Longrightarrow> ss_str e = PNull \<Longrightarrow> e = ssstr_init \<and> x = []"
  by (cases e) (auto simp: ss_view_def null_str_def split: if_splits)

lemma mime_lookup:
  assumes "tables_ok g" and "ss_view m e = Some x"
  shows "\<exists>found. dict_get m (g_mime_dict g) e = Some (map_option SSSTR (map_of mime_names x), found)"
proof (cases "ss_str e = PNull")
  case True
  with null_view [OF assms(2)] have "e = ssstr_init" "x = []" by simp_all
  then show ?thesis using dict_get_init [of m "g_mime_dict g"] mime_dict_ok [OF assms(1), of m]
    by (intro exI [of _ False]) (simp add: mime_names_def)
next
  case False
  then have "dict_get m (g_mime_dict g) e = Some (get_result (dict_map m (g_mime_dict g) x))"
    using dict_get_map mime_dict_ok assms by blast
  then show ?thesis using mime_dict_ok [OF assms(1), of m x]
    by (auto simp: get_result_def split: option.splits)
qed

lemma strlen_map_Some: "NUL \<notin> set s \<Longrightarrow> strlen_bytes (map Some s @ Some NUL # bs) = Some (length s)"
  by (induction s) auto

lemma cstring_map_Some: "NUL \<notin> set s \<Longrightarrow> cstring (map Some s @ Some NUL # bs) = Some s"
  by (simp add: cstring_def strlen_map_Some)

lemma cstring_SSSTR: "NUL \<notin> set s \<Longrightarrow> cstring (bytes_from m (ss_str (SSSTR s))) = Some s"
  using cstring_map_Some [of s "[]"] by (simp add: lit_block_def)

lemma mime_of_facts: "NUL \<notin> set (mime_of x) \<and> length (mime_of x) \<le> 22"
proof -
  have "list_all (\<lambda>e. NUL \<notin> set (snd e) \<and> length (snd e) \<le> 22) mime_names" by (simp add: mime_names_def)
  then show ?thesis
    by (auto simp: mime_of_def list_all_iff dest!: map_of_SomeD split: option.splits)
qed

section \<open>Each function appends its line\<close>

lemma status_line_appends:
  assumes "ob_ok r" and "tables_ok g" and "0 \<le> r_status_code r" and "r_status_code r < 512"
    and "int (length (status_line r g)) \<le> ob_room r"
  shows "appends response_append_status_line (status_line r g) r g"
proof -
  let ?ss = "[if http_minor (ar_version (r_par r)) = 1 then ''HTTP/1.1 '' else ''HTTP/1.0 ''] @
        (case g_status_table g (r_status_code r) of None \<Rightarrow> [] | Some s \<Rightarrow> [s]) @ [CRLF]"
  have c: "concat ?ss = status_line r g" by (simp add: status_line_def split: option.splits)
  have "list_all (\<lambda>s. NUL \<notin> set s) ?ss"
    using status_entry [OF assms(2)] by (auto split: option.splits)
  then have "appends (append_ob ?ss) (status_line r g) r g"
    using append_ob_appends [OF assms(1), of ?ss g] assms(5) unfolding c by blast
  then show ?thesis
    using assms(3,4) by (simp add: appends_def response_append_status_line_def status_table_at_def)
qed

lemma appends_intro:
  assumes "f r g = Some (r\<lparr>r_ob := Some b'\<rparr>, g)" and "r_ob r = Some b" and "cat_ok b x b'"
    and "b_free b' = b_free b - int (length x)"
  shows "appends f x r g"
  using assms unfolding appends_def ob.extends_by_def
  by (auto simp: ob_ok_def ob_text_def ob_room_def around_ob_def cat_ok_def)

lemma date_line_appends:
  assumes "ob_ok r" and "gmtime (k_now g) = Some t" and "int (length (date_line g)) < ob_room r"
  shows "appends response_append_date (date_line g) r g"
proof -
  obtain b where b: "r_ob r = Some b" "buffer_inv b" using assms(1) by (auto simp: ob_ok_def split: option.splits)
  let ?x = "strftime_date t"
  obtain k f where kf: "b_len b = int k" "b_free b = int f" "length (b_buf b) = k + f + 1" "k + f < 2 ^ 31"
    "None \<notin> set (take k (b_buf b))" using b(2) by (rule buffer_inv_nat)
  have x: "date_line g = ?x" "length ?x < f" using assms(2,3) b(1) kf by (simp_all add: date_line_def ob_room_def)
  let ?bs = "take k (b_buf b) @ map Some (?x @ [NUL]) @ drop (k + length (?x @ [NUL])) (b_buf b)"
  let ?b = "\<lparr>b_len = int (k + length ?x), b_free = int (f - length ?x), b_buf = ?bs\<rparr>"
  have "memcpy_at (b_buf b) (int k) (?x @ [NUL]) = Some ?bs" using kf x by (simp add: memcpy_at_def)
  moreover have "to_int32 (int k + int (length ?x)) = int (k + length ?x)"
    "to_int32 (int f - int (length ?x)) = int (f - length ?x)" "to_size (int f) = int f" "buffer_len b = int k"
    using kf x by (auto simp: width_simps buffer_len_def)
  ultimately have "response_append_date r g = Some (r\<lparr>r_ob := Some ?b\<rparr>, g)"
    using b kf x assms(2) by (simp add: response_append_date_def Let_def)
  moreover have "cat_ok b ?x ?b"
    using kf x by (intro cat_ok_intro) (auto simp: nth_append)
  ultimately have "appends response_append_date ?x r g"
    using b kf x by (intro appends_intro [where b = b and b' = ?b]) auto
  then show ?thesis using x by simp
qed

lemma line_no_nul: "NUL \<notin> set (content_length_line n)" "NUL \<notin> set (connection_line k)"
  using dec_no_nul by (auto simp: content_length_line_def connection_line_def)

lemma server_line_appends:
  assumes "ob_ok r" and "int (length server_line) \<le> ob_room r"
  shows "appends response_append_server server_line r g"
  using append_ob_appends [of r "[''Server: '', SERVER_NAME @ CRLF]" g] assms
  by (simp add: response_append_server_def server_line_def appends_def)

text \<open>The content type of the response: that of the extension, or of the error page.\<close>

definition content_type :: "request_t \<Rightarrow> string" where
  "content_type r = (if ar_err_req (r_par r) then ''text/html''
     else mime_of (the (ss_view (req_mem r) (url_mime_extension (ar_url (r_par r))))))"

definition ext_readable :: "request_t \<Rightarrow> bool" where
  "ext_readable r \<longleftrightarrow> ar_err_req (r_par r) \<or> ss_view (req_mem r) (url_mime_extension (ar_url (r_par r))) \<noteq> None"

lemma content_type_facts: "NUL \<notin> set (content_type r)" "length (content_type r) \<le> 22"
  using mime_of_facts by (simp_all add: content_type_def)

lemma content_type_appends:
  assumes "ob_ok r" and "tables_ok g" and "ext_readable r"
    and "int (length (content_type_line (content_type r))) \<le> ob_room r"
  shows "appends response_append_content_type (content_type_line (content_type r)) r g"
proof -
  let ?ss = "[''Content-Type: '', content_type r, CRLF]"
  have "appends (append_ob ?ss) (content_type_line (content_type r)) r g"
    using append_ob_appends [OF assms(1), of ?ss g] content_type_facts(1) [of r] assms(4)
    by (simp add: content_type_line_def)
  moreover have "response_append_content_type r g = append_ob ?ss r g"
  proof (cases "ar_err_req (r_par r)")
    case True
    then show ?thesis using cstring_SSSTR [of "''text/html''" "req_mem r"]
      by (simp add: response_append_content_type_def content_type_def)
  next
    case False
    then obtain x where x: "ss_view (req_mem r) (url_mime_extension (ar_url (r_par r))) = Some x"
      using assms(3) by (auto simp: ext_readable_def)
    obtain found where "dict_get (req_mem r) (g_mime_dict g) (url_mime_extension (ar_url (r_par r))) =
        Some (map_option SSSTR (map_of mime_names x), found)"
      using mime_lookup [OF assms(2) x] by blast
    moreover have "(case map_option SSSTR (map_of mime_names x) of None \<Rightarrow> SSSTR ''text/html'' | Some ct \<Rightarrow> ct) =
        SSSTR (mime_of x)"
      by (simp add: mime_of_def split: option.splits)
    ultimately show ?thesis using False x mime_of_facts [of x] cstring_SSSTR [of "mime_of x" "req_mem r"]
      by (simp add: response_append_content_type_def content_type_def)
  qed
  ultimately show ?thesis by (simp add: appends_def)
qed

lemma connection_line_appends:
  assumes "ob_ok r" and "int (length (connection_line (ar_keep_alive (r_par r)))) \<le> ob_room r"
  shows "appends response_append_connection (connection_line (ar_keep_alive (r_par r))) r g"
  using append_ob_appends [of r "[if ar_keep_alive (r_par r) then ''Connection: keep-alive'' else ''Connection: close'', CRLF]" g] assms
  by (auto simp: response_append_connection_def connection_line_def appends_def)

lemma crlf_appends:
  assumes "ob_ok r" and "2 \<le> ob_room r"
  shows "appends response_append_crlf CRLF r g"
  using append_ob_appends [of r "[CRLF]" g] assms by (simp add: response_append_crlf_def appends_def)

lemma content_length_appends:
  assumes "ob_ok r" and "\<not> ar_err_req (r_par r)"
    and "int (length (content_length_line (r_resource_size r))) \<le> ob_room r"
  shows "appends response_append_content_length (content_length_line (r_resource_size r)) r g"
  using append_ob_appends [of r "[content_length_line (r_resource_size r)]" g] assms line_no_nul(1)
  by (simp add: response_append_content_length_def content_length_line_def appends_def)

section \<open>The error page\<close>

lemma format_s_total: "format_s bs (Some s) = None \<longleftrightarrow> format_s bs (Some t) = None"
  by (induction bs "Some s" rule: format_s.induct) (auto split: list.splits option.splits simp: bind_eq_None_conv)

lemma format_s_no_nul:
  "format_s bs arg = Some x \<Longrightarrow> (case arg of None \<Rightarrow> True | Some s \<Rightarrow> NUL \<notin> set s) \<Longrightarrow> NUL \<notin> set x"
proof (induction bs arg arbitrary: x rule: format_s.induct)
  case (1 c bs arg)
  then show ?case
    by (auto split: if_splits list.splits option.splits simp: bind_eq_Some_conv)
qed auto

text \<open>
  The error page is usable: its buffer is well formed and has the size \<open>buffer_init\<close> gives it, and
  the page is a valid format with at most one string directive.
\<close>

definition page_ok :: "'x globals_scheme \<Rightarrow> bool" where
  "page_ok g \<longleftrightarrow> buffer_inv (rendered_err_page (g_err_page g)) \<and>
     b_len (rendered_err_page (g_err_page g)) = 0 \<and> b_free (rendered_err_page (g_err_page g)) = BUFSIZ \<and>
     format_s (raw_err_page (g_err_page g)) (Some []) \<noteq> None"

definition page_text :: "'x globals_scheme \<Rightarrow> string \<Rightarrow> string" where
  "page_text g s = the (format_s (raw_err_page (g_err_page g)) (Some s))"

lemma page_text_eq: "page_ok g \<Longrightarrow> format_s (raw_err_page (g_err_page g)) (Some s) = Some (page_text g s)"
  using format_s_total [of _ "[]" s] by (auto simp: page_ok_def page_text_def)

text \<open>Rendering writes the page, cut to 8191 bytes, and returns its full length.\<close>

lemma render_err_page_ok:
  assumes "page_ok g" and "status_table_at g (r_status_code r) = Some (Some s)" and "NUL \<notin> set s"
    and "int (length (page_text g s)) < 2 ^ 31"
  shows "\<exists>ep. render_err_page r g = Some (int (length (page_text g s)), g\<lparr>g_err_page := ep\<rparr>) \<and>
    page_ok (g\<lparr>g_err_page := ep\<rparr>) \<and> raw_err_page ep = raw_err_page (g_err_page g) \<and>
    cstring (b_buf (rendered_err_page ep)) = Some (take 8191 (page_text g s))"
proof -
  let ?x = "page_text g s" and ?rp = "rendered_err_page (g_err_page g)"
  let ?w = "take 8191 ?x @ [NUL]"
  have rp: "b_len ?rp = 0" "b_free ?rp = 8192" "length (b_buf ?rp) = 8193"
    using assms(1) by (auto simp: page_ok_def buffer_inv_def)
  let ?bs = "map Some ?w @ drop (length ?w) (b_buf ?rp)"
  have w: "memcpy_at (b_buf ?rp) 0 ?w = Some ?bs" using rp by (simp add: memcpy_at_def)
  let ?ep = "(g_err_page g)\<lparr>rendered_err_page := ?rp\<lparr>b_buf := ?bs\<rparr>, rendered_page_size := int (length ?x)\<rparr>"
  have num: "to_int32 8192 = 8192" "to_size (8192) = 8192"
    "to_int32 (int (length ?x)) = int (length ?x)" "to_size (int (length ?x)) = int (length ?x)"
    using assms(4) by (auto simp: width_simps)
  have "render_err_page r g = Some (int (length ?x), g\<lparr>g_err_page := ?ep\<rparr>)"
    using assms(2) page_text_eq [OF assms(1), of s] w rp num
    by (simp add: render_err_page_def Let_def)
  moreover have "NUL \<notin> set (take 8191 ?x)"
    using format_s_no_nul [OF page_text_eq [OF assms(1), of s]] assms(3) by (auto dest: in_set_takeD)
  ultimately show ?thesis
    using assms(1) rp cstring_map_Some [of "take 8191 ?x" "drop (length ?w) (b_buf ?rp)"]
    by (intro exI [of _ ?ep]) (auto simp: page_ok_def buffer_inv_def)
qed

end
