(* ===== verification/Request.thy ===== *)
theory Request
  imports Response_Text
begin

text \<open>
  The request and response handlers of \<^verbatim>\<open>src/src/request.c\<close>. A handler works on a connection,
  whose request it changes, and on the world: the kernel and the server's global tables. It returns
  a status code with the new connection and world, and \<open>None\<close> stands for undefined behaviour or a
  loop that does not end. The function pointers of a request are values of the datatypes
  \<open>req_handler\<close> and \<open>res_handler\<close>, called by \<open>call_req_handler\<close> and \<open>call_res_handler\<close>.
\<close>

section \<open>State\<close>

record conn = ev_connection +
  c_req :: request_t

text \<open>The functions and members the table of header handlers refers to.\<close>

datatype header_handle_method = Hd_base | Hd_connection | Hd_content_length | Hd_transfer_encoding

datatype hd_member = M_accept | M_accept_charset | M_accept_encoding | M_accept_language | M_cache_control
  | M_content_length | M_connection | M_cookie | M_date | M_host | M_if_modified_since
  | M_if_unmodified_since | M_max_forwards | M_range | M_referer | M_transfer_encoding | M_user_agent

record header_func =
  hf_hd :: ssstr_t
  hf_func :: header_handle_method
  hf_offset :: hd_member

record world = globals +
  w_header_dict :: "header_func dict_t"

abbreviation upd_req :: "(request_t \<Rightarrow> request_t) \<Rightarrow> conn \<Rightarrow> conn" where
  "upd_req f c \<equiv> c\<lparr>c_req := f (c_req c)\<rparr>"

abbreviation upd_par :: "(parse_archive \<Rightarrow> parse_archive) \<Rightarrow> conn \<Rightarrow> conn" where
  "upd_par f c \<equiv> c\<lparr>c_req := (c_req c)\<lparr>r_par := f (r_par (c_req c))\<rparr>\<rparr>"

section \<open>The table of header handlers\<close>

definition hf_list :: "header_func list" where
  "hf_list =
    [\<lparr>hf_hd = SSSTR ''accept'', hf_func = Hd_base, hf_offset = M_accept\<rparr>,
     \<lparr>hf_hd = SSSTR ''accept-charset'', hf_func = Hd_base, hf_offset = M_accept_charset\<rparr>,
     \<lparr>hf_hd = SSSTR ''accept-encoding'', hf_func = Hd_base, hf_offset = M_accept_encoding\<rparr>,
     \<lparr>hf_hd = SSSTR ''accept-language'', hf_func = Hd_base, hf_offset = M_accept_language\<rparr>,
     \<lparr>hf_hd = SSSTR ''cache-control'', hf_func = Hd_base, hf_offset = M_cache_control\<rparr>,
     \<lparr>hf_hd = SSSTR ''content-length'', hf_func = Hd_content_length, hf_offset = M_content_length\<rparr>,
     \<lparr>hf_hd = SSSTR ''connection'', hf_func = Hd_connection, hf_offset = M_connection\<rparr>,
     \<lparr>hf_hd = SSSTR ''cookie'', hf_func = Hd_base, hf_offset = M_cookie\<rparr>,
     \<lparr>hf_hd = SSSTR ''date'', hf_func = Hd_base, hf_offset = M_date\<rparr>,
     \<lparr>hf_hd = SSSTR ''host'', hf_func = Hd_base, hf_offset = M_host\<rparr>,
     \<lparr>hf_hd = SSSTR ''if-modified-since'', hf_func = Hd_base, hf_offset = M_if_modified_since\<rparr>,
     \<lparr>hf_hd = SSSTR ''if-unmodified-since'', hf_func = Hd_base, hf_offset = M_if_unmodified_since\<rparr>,
     \<lparr>hf_hd = SSSTR ''max-forwards'', hf_func = Hd_base, hf_offset = M_max_forwards\<rparr>,
     \<lparr>hf_hd = SSSTR ''range'', hf_func = Hd_base, hf_offset = M_range\<rparr>,
     \<lparr>hf_hd = SSSTR ''referer'', hf_func = Hd_base, hf_offset = M_referer\<rparr>,
     \<lparr>hf_hd = SSSTR ''transfer-encoding'', hf_func = Hd_transfer_encoding, hf_offset = M_transfer_encoding\<rparr>,
     \<lparr>hf_hd = SSSTR ''user-agent'', hf_func = Hd_base, hf_offset = M_user_agent\<rparr>]"

fun put_handlers :: "header_func dict_t \<Rightarrow> header_func list \<Rightarrow> header_func dict_t option" where
  "put_handlers d [] = Some d"
| "put_handlers d (h # hs) = dict_put True Map.empty d (hf_hd h) (Some h) \<bind> (\<lambda>d'. put_handlers d' hs)"

definition header_handler_dict_init :: "'x world_scheme \<Rightarrow> 'x world_scheme option" where
  "header_handler_dict_init w = map_option (\<lambda>d. w\<lparr>w_header_dict := d\<rparr>) (put_handlers dict_init hf_list)"

definition header_handler_dict_free :: "'x world_scheme \<Rightarrow> 32 word" where
  "header_handler_dict_free w = dict_free (w_header_dict w)"

section \<open>Creating and reusing a request\<close>

definition fresh_request :: "nat \<Rightarrow> buffer_t \<Rightarrow> buffer_t option \<Rightarrow> request_t" where
  "fresh_request a ib ob = \<lparr>r_ib_at = a, r_ib = ib, r_ob = ob, r_par = parse_archive_init a,
     r_resource_fd = - 1, r_resource_size = 0, r_status_code = 200,
     r_req_handler = Some request_handle_request_line_h, r_res_handler = response_handle_send_buffer_h\<rparr>"

text \<open>
  \<open>request_init\<close>; the block of the new request buffer is \<open>a\<close>. The result is \<open>None\<close> where the source
  returns \<open>ERROR\<close>.
\<close>

definition request_init :: "nat \<Rightarrow> 'x world_scheme \<Rightarrow> request_t option \<times> 'x world_scheme" where
  "request_init a w =
     (let (ok1, w) = next_malloc w; (ok2, w) = next_malloc w in
      (case (buffer_init ok1, buffer_init ok2) of
         (Some ib, Some ob) \<Rightarrow> Some (fresh_request a ib (Some ob))
       | _ \<Rightarrow> None, w))"

definition request_reset :: "request_t \<Rightarrow> request_t option" where
  "request_reset r = do {
     ob \<leftarrow> r_ob r;
     Some (fresh_request (r_ib_at r) (buffer_clear (r_ib r)) (Some (buffer_clear ob)))
   }"

section \<open>Receiving\<close>

text \<open>The pointer \<open>buffer_cat\<close> returns is ignored: the request goes on with its old one.\<close>

partial_function (option) request_recv :: "conn \<Rightarrow> 'x world_scheme \<Rightarrow> (int \<times> conn \<times> 'x world_scheme) option" where
  "request_recv c w =
     (case sys_recv (c_fd c) 8192 w of
        (Ret x, w) \<Rightarrow>
          if x = [] then Some (OK, c, w)
          else do {
            let (ra, w) = next_realloc w;
            ib \<leftarrow> cat_keep ra (r_ib (c_req c)) x;
            request_recv (upd_req (\<lambda>r. r\<lparr>r_ib := ib\<rparr>) c) w
          }
      | (Eagain, w) \<Rightarrow> Some (AGAIN, c, w)
      | (Fail, w) \<Rightarrow> Some (ERROR, c, w))"

declare request_recv.simps [code]

section \<open>Assembling the response\<close>

definition with_req :: "(request_t \<Rightarrow> 'x world_scheme \<Rightarrow> (request_t \<times> 'x world_scheme) option) \<Rightarrow>
    conn \<Rightarrow> 'x world_scheme \<Rightarrow> (conn \<times> 'x world_scheme) option" where
  "with_req f c w = do { (r, w) \<leftarrow> f (c_req c) w; Some (c\<lparr>c_req := r\<rparr>, w) }"

definition response_assemble_buffer :: "request_t \<Rightarrow> 'x world_scheme \<Rightarrow> (request_t \<times> 'x world_scheme) option" where
  "response_assemble_buffer r w = do {
     (r, w) \<leftarrow> response_append_status_line r w;
     (r, w) \<leftarrow> response_append_date r w;
     (r, w) \<leftarrow> response_append_server r w;
     (r, w) \<leftarrow> response_append_content_type r w;
     (r, w) \<leftarrow> response_append_content_length r w;
     (r, w) \<leftarrow> response_append_connection r w;
     response_append_crlf r w
   }"

text \<open>The request part of \<open>response_assemble_err_buffer\<close>, up to the error page.\<close>

definition assemble_err_text :: "int \<Rightarrow> request_t \<Rightarrow> 'x world_scheme \<Rightarrow> (request_t \<times> 'x world_scheme) option" where
  "assemble_err_text status_code r w = do {
     let r = r\<lparr>r_par := (r_par r)\<lparr>ar_err_req := True\<rparr>, r_status_code := status_code, r_req_handler := None\<rparr>;
     (r, w) \<leftarrow> response_append_status_line r w;
     (r, w) \<leftarrow> response_append_date r w;
     (r, w) \<leftarrow> response_append_server r w;
     (r, w) \<leftarrow> response_append_content_type r w;
     (r, w) \<leftarrow> response_append_content_length r w;
     let r = r\<lparr>r_par := (r_par r)\<lparr>ar_keep_alive := False\<rparr>\<rparr>;
     (r, w) \<leftarrow> response_append_connection r w;
     (r, w) \<leftarrow> response_append_crlf r w;
     page \<leftarrow> cstring (err_page_render_buf w);
     append_ob [page] r w
   }"

definition response_assemble_err_buffer :: "int \<Rightarrow> conn \<Rightarrow> 'x world_scheme \<Rightarrow> (int \<times> conn \<times> 'x world_scheme) option" where
  "response_assemble_err_buffer status_code c w = do {
     (c, w) \<leftarrow> with_req (assemble_err_text status_code) c w;
     let (_, c, w) = connection_disable_in c w;
     let (_, c, w) = connection_enable_out c w;
     Some (OK, upd_par (\<lambda>ar. ar\<lparr>ar_response_done := True\<rparr>) c, w)
   }"

section \<open>Request line\<close>

text \<open>The distance from \<open>abs_path\<close> to the first space or question mark.\<close>

fun path_end :: "block \<Rightarrow> int option" where
  "path_end [] = None"
| "path_end (None # bs) = None"
| "path_end (Some ch # bs) =
     (if ch \<noteq> SP \<and> ch \<noteq> CHR ''?'' then map_option (\<lambda>n. 1 + n) (path_end bs) else Some 0)"

text \<open>Writing through a pointer into the request buffer.\<close>

definition ib_bytes :: "memory \<Rightarrow> request_t \<Rightarrow> request_t option" where
  "ib_bytes m r = map_option (\<lambda>bs. r\<lparr>r_ib := (r_ib r)\<lparr>b_buf := bs\<rparr>\<rparr>) (m (r_ib_at r))"

text \<open>The path is terminated in place, and becomes the argument of \<open>openat\<close>.\<close>

definition relative_path :: "request_t \<Rightarrow> (string \<times> request_t) option" where
  "relative_path r = do {
     let path = url_abs_path (ar_url (r_par r));
     n \<leftarrow> path_end (bytes_from (req_mem r) (ss_str path));
     m \<leftarrow> store (req_mem r) (ptr_add (ss_str path) n) NUL;
     r \<leftarrow> ib_bytes m r;
     is_root \<leftarrow> (if ss_len path = 1 then map_option (\<lambda>ch. ch = CHR ''/'') (load (req_mem r) (ss_str path))
                else Some False);
     s \<leftarrow> (if is_root then Some ''./'' else cstring (bytes_from (req_mem r) (ptr_add (ss_str path) 1)));
     Some (s, r)
   }"

text \<open>
  From \<open>openat\<close> on. A directory is replaced by its \<open>index.html\<close>; the check after that tests the
  directory's descriptor, and \<open>fstat\<close> leaves its result alone when the new descriptor is bad.
\<close>

definition open_resource :: "string \<Rightarrow> conn \<Rightarrow> 'x world_scheme \<Rightarrow> (int \<times> conn \<times> 'x world_scheme) option" where
  "open_resource path c w =
     (let (fd, w) = sys_openat (g_rootdir_fd w) path w in
      if fd = ERROR then response_assemble_err_buffer 404 c w
      else do {
        st \<leftarrow> sys_fstat fd w;
        if fst st then do {
          let (html_fd, w) = sys_openat fd ''index.html'' w;
          let w = close_fd fd w;
          if fd = ERROR then response_assemble_err_buffer 404 c w
          else do {
            let st = (case sys_fstat html_fd w of None \<Rightarrow> st | Some st' \<Rightarrow> st');
            ext \<leftarrow> ssstr_set (req_mem (c_req c)) (PLit ''html'' 0);
            let c = upd_par (\<lambda>ar. ar\<lparr>ar_url := (ar_url ar)\<lparr>url_mime_extension := ext\<rparr>\<rparr>) c;
            Some (OK, upd_req (\<lambda>r. r\<lparr>r_resource_fd := html_fd, r_resource_size := to_int32 (snd st),
                                      r_req_handler := Some request_handle_headers_h\<rparr>) c, w)
          }
        }
        else
          Some (OK, upd_req (\<lambda>r. r\<lparr>r_resource_fd := fd, r_resource_size := to_int32 (snd st),
                                    r_req_handler := Some request_handle_headers_h\<rparr>) c, w)
      })"

definition request_handle_request_line :: "conn \<Rightarrow> 'x world_scheme \<Rightarrow> (int \<times> conn \<times> 'x world_scheme) option" where
  "request_handle_request_line c w = do {
     let r = c_req c;
     (status, ar) \<leftarrow> parse_request_line (r_ib_at r) (r_ib r) (r_par r);
     let c = upd_req (\<lambda>r. r\<lparr>r_par := ar\<rparr>) c;
     if status = AGAIN then Some (AGAIN, c, w)
     else if status \<noteq> OK then response_assemble_err_buffer 400 c w
     else if http_major (ar_version ar) > 1 \<or> http_minor (ar_version ar) > 1
     then response_assemble_err_buffer 505 c w
     else do {
       let c = upd_par (\<lambda>ar. ar\<lparr>ar_keep_alive :=
                  (http_major (ar_version ar) = 1 \<and> http_minor (ar_version ar) = 1)\<rparr>) c;
       (path, r) \<leftarrow> relative_path (c_req c);
       open_resource path (c\<lparr>c_req := r\<rparr>) w
     }
   }"

section \<open>Headers\<close>

fun set_member :: "hd_member \<Rightarrow> ssstr_t \<Rightarrow> request_headers_t \<Rightarrow> request_headers_t" where
  "set_member M_accept v h = h\<lparr>rh_accept := v\<rparr>"
| "set_member M_accept_charset v h = h\<lparr>rh_accept_charset := v\<rparr>"
| "set_member M_accept_encoding v h = h\<lparr>rh_accept_encoding := v\<rparr>"
| "set_member M_accept_language v h = h\<lparr>rh_accept_language := v\<rparr>"
| "set_member M_cache_control v h = h\<lparr>rh_cache_control := v\<rparr>"
| "set_member M_content_length v h = h\<lparr>rh_content_length := v\<rparr>"
| "set_member M_connection v h = h\<lparr>rh_connection := v\<rparr>"
| "set_member M_cookie v h = h\<lparr>rh_cookie := v\<rparr>"
| "set_member M_date v h = h\<lparr>rh_date := v\<rparr>"
| "set_member M_host v h = h\<lparr>rh_host := v\<rparr>"
| "set_member M_if_modified_since v h = h\<lparr>rh_if_modified_since := v\<rparr>"
| "set_member M_if_unmodified_since v h = h\<lparr>rh_if_unmodified_since := v\<rparr>"
| "set_member M_max_forwards v h = h\<lparr>rh_max_forwards := v\<rparr>"
| "set_member M_range v h = h\<lparr>rh_range := v\<rparr>"
| "set_member M_referer v h = h\<lparr>rh_referer := v\<rparr>"
| "set_member M_transfer_encoding v h = h\<lparr>rh_transfer_encoding := v\<rparr>"
| "set_member M_user_agent v h = h\<lparr>rh_user_agent := v\<rparr>"

definition request_handle_hd_base :: "hd_member \<Rightarrow> conn \<Rightarrow> conn" where
  "request_handle_hd_base off c =
     upd_par (\<lambda>ar. ar\<lparr>ar_req_headers := set_member off (ar_header1 ar) (ar_req_headers ar)\<rparr>) c"

definition request_handle_hd_connection :: "hd_member \<Rightarrow> conn \<Rightarrow> 'x world_scheme \<Rightarrow> (int \<times> conn \<times> 'x world_scheme) option" where
  "request_handle_hd_connection off c w = do {
     let c = request_handle_hd_base off c;
     let m = req_mem (c_req c);
     let connection = rh_connection (ar_req_headers (r_par (c_req c)));
     ka \<leftarrow> ssstr_caseequal m connection ''keep-alive'';
     if ka then Some (OK, upd_par (\<lambda>ar. ar\<lparr>ar_keep_alive := True\<rparr>) c, w)
     else do {
       cl \<leftarrow> ssstr_caseequal m connection ''close'';
       if cl then Some (OK, upd_par (\<lambda>ar. ar\<lparr>ar_keep_alive := False\<rparr>) c, w)
       else response_assemble_err_buffer 400 c w
     }
   }"

definition request_handle_hd_content_length :: "hd_member \<Rightarrow> conn \<Rightarrow> 'x world_scheme \<Rightarrow> (int \<times> conn \<times> 'x world_scheme) option" where
  "request_handle_hd_content_length off c w = do {
     let c = request_handle_hd_base off c;
     len \<leftarrow> atoi (bytes_from (req_mem (c_req c)) (ss_str (rh_content_length (ar_req_headers (r_par (c_req c))))));
     if len \<le> 0 then response_assemble_err_buffer 400 c w
     else Some (OK, upd_par (\<lambda>ar. ar\<lparr>ar_content_length := len\<rparr>) c, w)
   }"

text \<open>The chain of comparisons with the names of the encodings.\<close>

definition te_names :: "(string \<times> transfer_encoding_t) list" where
  "te_names = [(''chunked'', TE_CHUNKED), (''compress'', TE_COMPRESS), (''deflate'', TE_DEFLATE),
     (''gzip'', TE_GZIP), (''identity'', TE_IDENTITY)]"

fun find_te :: "memory \<Rightarrow> ssstr_t \<Rightarrow> (string \<times> transfer_encoding_t) list \<Rightarrow> transfer_encoding_t option option" where
  "find_te m s [] = Some None"
| "find_te m s ((name, te) # tes) = do {
     eq \<leftarrow> ssstr_caseequal m s name;
     if eq then Some (Some te) else find_te m s tes
   }"

definition request_handle_hd_transfer_encoding :: "hd_member \<Rightarrow> conn \<Rightarrow> 'x world_scheme \<Rightarrow> (int \<times> conn \<times> 'x world_scheme) option" where
  "request_handle_hd_transfer_encoding off c w = do {
     let c = request_handle_hd_base off c;
     te \<leftarrow> find_te (req_mem (c_req c)) (rh_transfer_encoding (ar_req_headers (r_par (c_req c)))) te_names;
     case te of
       Some t \<Rightarrow> response_assemble_err_buffer 501 (upd_par (\<lambda>ar. ar\<lparr>ar_transfer_encoding := t\<rparr>) c) w
     | None \<Rightarrow> response_assemble_err_buffer 400 c w
   }"

definition call_hd_method :: "header_handle_method \<Rightarrow> hd_member \<Rightarrow> conn \<Rightarrow> 'x world_scheme \<Rightarrow> (int \<times> conn \<times> 'x world_scheme) option" where
  "call_hd_method h off c w =
     (case h of
        Hd_base \<Rightarrow> Some (OK, request_handle_hd_base off c, w)
      | Hd_connection \<Rightarrow> request_handle_hd_connection off c w
      | Hd_content_length \<Rightarrow> request_handle_hd_content_length off c w
      | Hd_transfer_encoding \<Rightarrow> request_handle_hd_transfer_encoding off c w)"

text \<open>The case \<open>OK\<close> of the loop: the header's name is put in lower case, and its handler called.\<close>

definition handle_one_header :: "conn \<Rightarrow> 'x world_scheme \<Rightarrow> (int \<times> conn \<times> 'x world_scheme) option" where
  "handle_one_header c w = do {
     m \<leftarrow> ssstr_tolower (req_mem (c_req c)) (ar_header0 (r_par (c_req c)));
     r \<leftarrow> ib_bytes m (c_req c);
     let c = c\<lparr>c_req := r\<rparr>;
     (hf, _) \<leftarrow> dict_get (req_mem r) (w_header_dict w) (ar_header0 (r_par r));
     case hf of
       None \<Rightarrow> Some (OK, c, w)
     | Some h \<Rightarrow> call_hd_method (hf_func h) (hf_offset h) c w
   }"

partial_function (option) request_handle_headers :: "conn \<Rightarrow> 'x world_scheme \<Rightarrow> (int \<times> conn \<times> 'x world_scheme) option" where
  "request_handle_headers c w = do {
     (status, ar) \<leftarrow> parse_header_line (r_ib_at (c_req c)) (r_ib (c_req c)) (r_par (c_req c));
     let c = upd_req (\<lambda>r. r\<lparr>r_par := ar\<rparr>) c;
     if status = AGAIN then Some (AGAIN, c, w)
     else if status = INVALID_REQUEST then response_assemble_err_buffer 400 c w
     else if status = CRLF_LINE then
       Some (OK, upd_req (\<lambda>r. r\<lparr>r_req_handler := Some request_handle_body_h\<rparr>) c, w)
     else if status = OK then do {
       (status, c, w) \<leftarrow> handle_one_header c w;
       if status \<noteq> OK then Some (OK, c, w) else request_handle_headers c w
     }
     else request_handle_headers c w
   }"

declare request_handle_headers.simps [code]

section \<open>Body\<close>

definition request_handle_body :: "conn \<Rightarrow> 'x world_scheme \<Rightarrow> (int \<times> conn \<times> 'x world_scheme) option" where
  "request_handle_body c w = do {
     let r = c_req c;
     (status, ar) \<leftarrow> (if ar_transfer_encoding (r_par r) = TE_IDENTITY
                     then parse_header_body_identity (r_ib_at r) (r_ib r) (r_par r)
                     else Some (ERROR, r_par r));
     let c = upd_req (\<lambda>r. r\<lparr>r_par := ar\<rparr>) c;
     if status = AGAIN then Some (AGAIN, c, w)
     else if status = OK then do {
       let (_, c, w) = connection_disable_in c w;
       let (_, c, w) = connection_enable_out c w;
       let c = upd_req (\<lambda>r. r\<lparr>r_req_handler := None\<rparr>) c;
       (c, w) \<leftarrow> with_req response_assemble_buffer c w;
       Some (OK, c, w)
     }
     else response_assemble_err_buffer 501 c w
   }"

section \<open>Handling input\<close>

definition call_req_handler :: "req_handler \<Rightarrow> conn \<Rightarrow> 'x world_scheme \<Rightarrow> (int \<times> conn \<times> 'x world_scheme) option" where
  "call_req_handler h c w =
     (case h of
        request_handle_request_line_h \<Rightarrow> request_handle_request_line c w
      | request_handle_headers_h \<Rightarrow> request_handle_headers c w
      | request_handle_body_h \<Rightarrow> request_handle_body c w)"

partial_function (option) req_handler_loop :: "conn \<Rightarrow> 'x world_scheme \<Rightarrow> (int \<times> conn \<times> 'x world_scheme) option" where
  "req_handler_loop c w = do {
     h \<leftarrow> r_req_handler (c_req c);
     (status, c, w) \<leftarrow> call_req_handler h c w;
     if r_req_handler (c_req c) \<noteq> None \<and> status = OK then req_handler_loop c w
     else Some (status, c, w)
   }"

declare req_handler_loop.simps [code]

definition request_handle :: "conn \<Rightarrow> 'x world_scheme \<Rightarrow> (int \<times> conn \<times> 'x world_scheme) option" where
  "request_handle c w = do {
     (status, c, w) \<leftarrow> request_recv c w;
     if status = ERROR \<or> status = OK then Some (ERROR, c, w) else req_handler_loop c w
   }"

section \<open>Sending\<close>

text \<open>\<open>send\<close> of the rest of the output buffer; its length is a \<open>size_t\<close>.\<close>

partial_function (option) response_send :: "conn \<Rightarrow> 'x world_scheme \<Rightarrow> (int \<times> conn \<times> 'x world_scheme) option" where
  "response_send c w = do {
     b \<leftarrow> r_ob (c_req c);
     let sent = ar_buffer_sent (r_par (c_req c));
     x \<leftarrow> (if 0 \<le> sent \<and> sent \<le> b_len b
           then those (take (nat (b_len b - sent)) (drop (nat sent) (b_buf b))) else None);
     (case sys_send (c_fd c) x w of
        (Ret n, w) \<Rightarrow>
          if n = 0 then
            Some (OK, upd_par (\<lambda>ar. ar\<lparr>ar_buffer_sent := 0\<rparr>) (upd_req (\<lambda>r. r\<lparr>r_ob := Some (buffer_clear b)\<rparr>) c), w)
          else response_send (upd_par (\<lambda>ar. ar\<lparr>ar_buffer_sent := to_int32 (sent + int n)\<rparr>) c) w
      | (Eagain, w) \<Rightarrow> Some (AGAIN, c, w)
      | (Fail, w) \<Rightarrow> Some (ERROR, c, w))
   }"

declare response_send.simps [code]

definition response_handle_send_buffer :: "conn \<Rightarrow> 'x world_scheme \<Rightarrow> (int \<times> conn \<times> 'x world_scheme) option" where
  "response_handle_send_buffer c w = do {
     (status, c, w) \<leftarrow> response_send c w;
     if status \<noteq> OK then Some (status, c, w)
     else if r_resource_fd (c_req c) \<noteq> - 1 then
       Some (OK, upd_req (\<lambda>r. r\<lparr>r_res_handler := response_handle_send_file_h\<rparr>) c, w)
     else do {
       let c = upd_par (\<lambda>ar. ar\<lparr>ar_response_done := True\<rparr>) c;
       let (_, c, w) = connection_disable_out c w;
       Some (OK, c, w)
     }
   }"

partial_function (option) response_handle_send_file :: "conn \<Rightarrow> 'x world_scheme \<Rightarrow> (int \<times> conn \<times> 'x world_scheme) option" where
  "response_handle_send_file c w =
     (case sys_sendfile (c_fd c) (r_resource_fd (c_req c)) (r_resource_size (c_req c)) w of
        (Ret n, w) \<Rightarrow>
          if n = 0 then
            Some (OK, upd_par (\<lambda>ar. ar\<lparr>ar_response_done := True\<rparr>) c, close_fd (r_resource_fd (c_req c)) w)
          else response_handle_send_file c w
      | (Eagain, w) \<Rightarrow> Some (AGAIN, c, w)
      | (Fail, w) \<Rightarrow> Some (ERROR, c, w))"

declare response_handle_send_file.simps [code]

definition call_res_handler :: "res_handler \<Rightarrow> conn \<Rightarrow> 'x world_scheme \<Rightarrow> (int \<times> conn \<times> 'x world_scheme) option" where
  "call_res_handler h c w =
     (case h of
        response_handle_send_buffer_h \<Rightarrow> response_handle_send_buffer c w
      | response_handle_send_file_h \<Rightarrow> response_handle_send_file c w)"

partial_function (option) res_handler_loop :: "conn \<Rightarrow> 'x world_scheme \<Rightarrow> (int \<times> conn \<times> 'x world_scheme) option" where
  "res_handler_loop c w = do {
     (status, c, w) \<leftarrow> call_res_handler (r_res_handler (c_req c)) c w;
     if status = OK \<and> \<not> ar_response_done (r_par (c_req c)) then res_handler_loop c w
     else Some (status, c, w)
   }"

declare res_handler_loop.simps [code]

definition response_handle :: "conn \<Rightarrow> 'x world_scheme \<Rightarrow> (int \<times> conn \<times> 'x world_scheme) option" where
  "response_handle c w = do {
     (status, c, w) \<leftarrow> res_handler_loop c w;
     if ar_response_done (r_par (c_req c)) then
       if ar_keep_alive (r_par (c_req c)) then do {
         r \<leftarrow> request_reset (c_req c);
         let c = c\<lparr>c_req := r\<rparr>;
         let (_, c, w) = connection_disable_out c w;
         let (_, c, w) = connection_enable_in c w;
         Some (status, c, w)
       }
       else Some (ERROR, c, w)
     else Some (status, c, w)
   }"

end
