(* ===== verification/Sending.thy ===== *)
theory Sending
  imports Request
begin

text \<open>
  The sending side of \<^verbatim>\<open>src/src/request.c\<close>: the response head, then the file, go out in
  whatever pieces the kernel takes them, over as many calls as it needs. The reference is a function
  \<open>push\<close> of the kernel's answers and the bytes still to send.
\<close>

section \<open>What a socket takes\<close>

text \<open>Status, bytes taken, and the answers that are left.\<close>

fun push :: "send_answer list \<Rightarrow> string \<Rightarrow> int \<times> string \<times> send_answer list" where
  "push (Send_fail # as) x = (ERROR, [], as)"
| "push as [] = (OK, [], as)"
| "push [] x = (AGAIN, [], [])"
| "push (Send_some j # as) x =
     (let (st, y, as') = push as (drop (Suc j) x) in (st, take (Suc j) x @ y, as'))"

lemma push_prefix:
  "push as x = (st, y, as') \<Longrightarrow> \<exists>z. x = y @ z \<and> (st = OK \<longrightarrow> z = []) \<and> (st = AGAIN \<longrightarrow> as' = [] \<and> z \<noteq> [])"
proof (induction as x arbitrary: st y as' rule: push.induct)
  case (4 j as v va)
  obtain st1 y1 as1 where p: "push as (drop (Suc j) (v # va)) = (st1, y1, as1)" by (cases rule: prod_cases3)
  then obtain z where z: "drop (Suc j) (v # va) = y1 @ z" "st1 = OK \<longrightarrow> z = []" "st1 = AGAIN \<longrightarrow> as1 = [] \<and> z \<noteq> []"
    using "4.IH" by blast
  have "v # va = (take (Suc j) (v # va) @ y1) @ z"
    using append_take_drop_id [of "Suc j" "v # va"] z(1) by (metis append_assoc)
  moreover have "y = take (Suc j) (v # va) @ y1" "st = st1" "as' = as1" using "4.prems" p by auto
  ultimately show ?case using z by blast
qed (auto simp del: drop_Suc_Cons)

text \<open>A failure is an answer of the kernel, and enough answers take everything.\<close>

lemma push_status: "push as x = (st, y, as') \<Longrightarrow> st \<in> {OK, AGAIN, ERROR} \<and> (Send_fail \<notin> set as \<longrightarrow> st \<noteq> ERROR)"
  by (induction as x arbitrary: st y as' rule: push.induct) (auto split: prod.splits)

lemma push_blocked: "push as x = (AGAIN, y, as') \<Longrightarrow> length as \<le> length y"
proof (induction as x arbitrary: y as' rule: push.induct)
  case (4 j as v va)
  then obtain y1 where "push as (drop (Suc j) (v # va)) = (AGAIN, y1, as')" "y = take (Suc j) (v # va) @ y1"
    by (auto split: prod.splits)
  with "4.IH" show ?case by (simp add: trans_le_add2)
qed auto

section \<open>Sending the head\<close>

definition sock_at :: "int \<Rightarrow> 'x kernel_scheme \<Rightarrow> sock option" where
  "sock_at fd k = (case fd_lookup k fd of Some (Fd_sock s) \<Rightarrow> Some s | _ \<Rightarrow> None)"

definition set_sock :: "int \<Rightarrow> send_answer list \<Rightarrow> string \<Rightarrow> 'x kernel_scheme \<Rightarrow> 'x kernel_scheme" where
  "set_sock fd as out k =
     (case sock_at fd k of None \<Rightarrow> k
      | Some s \<Rightarrow> fd_update fd (Fd_sock (s\<lparr>s_send := as, s_out := out\<rparr>)) k)"

lemma sock_at_lookup: "sock_at fd k = Some s \<longleftrightarrow> fd_lookup k fd = Some (Fd_sock s)"
  by (auto simp: sock_at_def split: option.splits fd_object.splits)

lemma sock_at_set [simp]:
  "sock_at fd k = Some s \<Longrightarrow> sock_at fd (set_sock fd as out k) = Some (s\<lparr>s_send := as, s_out := out\<rparr>)"
  by (simp add: set_sock_def sock_at_def)

lemma AList_update_update: "AList.update k v (AList.update k w al) = AList.update k v al"
  by (induction al) auto

lemma AList_update_triv: "map_of al k = Some v \<Longrightarrow> AList.update k v al = al"
  by (induction al) auto

lemma fd_update_update [simp]: "fd_update fd ob (fd_update fd ob' k) = fd_update fd ob k"
  by (simp add: fd_update_def AList_update_update)

lemma fd_update_triv: "fd_lookup k fd = Some ob \<Longrightarrow> fd_update fd ob k = k"
  by (simp add: fd_update_def fd_lookup_def AList_update_triv)

lemma set_sock_set [simp]: "set_sock fd as out (set_sock fd as' out' k) = set_sock fd as out k"
  by (auto simp: set_sock_def sock_at_def split: option.splits fd_object.splits)

lemma set_sock_eq:
  "sock_at fd k = Some s \<Longrightarrow> set_sock fd as out k = fd_update fd (Fd_sock (s\<lparr>s_send := as, s_out := out\<rparr>)) k"
  by (simp add: set_sock_def)

lemma set_sock_triv: "sock_at fd k = Some s \<Longrightarrow> set_sock fd (s_send s) (s_out s) k = k"
  by (simp add: set_sock_eq fd_update_triv sock_at_lookup [THEN iffD1])

lemma sys_send_eq:
  assumes "sock_at fd k = Some s"
  shows "sys_send fd x k =
    (case s_send s of
       [] \<Rightarrow> if x = [] then (Ret 0, k) else (Eagain, k)
     | Send_fail # as \<Rightarrow> (Fail, set_sock fd as (s_out s) k)
     | Send_some j # as \<Rightarrow> if x = [] then (Ret 0, k)
         else (Ret (min (length x) (Suc j)), set_sock fd as (s_out s @ take (Suc j) x) k))"
  using sock_at_lookup [THEN iffD1, OF assms] fd_update_triv [of k fd "Fd_sock s"] set_sock_eq [OF assms]
  by (auto simp: sys_send_def sock_take_def min_def split: list.splits send_answer.splits)

lemma those_buffer_data:
  assumes "buffer_inv b" and "sent \<le> length (buffer_data b)"
  shows "those (take (nat (b_len b - int sent)) (drop sent (b_buf b))) = Some (drop sent (buffer_data b))"
proof -
  have "map Some (buffer_data b) = take (nat (b_len b)) (b_buf b)"
    using assms(1) holds_buffer [OF assms(1), of 0] length_buffer_data [OF assms(1)]
    by (auto simp: holds_def simp flip: length_buffer_data)
  then have "drop sent (map Some (buffer_data b)) = take (nat (b_len b) - sent) (drop sent (b_buf b))"
    by (simp add: drop_take)
  moreover have "nat (b_len b - int sent) = nat (b_len b) - sent" by simp
  ultimately show ?thesis by (metis drop_map those_map_Some)
qed

text \<open>The state after \<open>response_send\<close> has returned with status \<open>st\<close> and \<open>n\<close> more bytes sent.\<close>

definition after_send :: "int \<Rightarrow> nat \<Rightarrow> buffer_t \<Rightarrow> conn \<Rightarrow> conn" where
  "after_send st n b c =
     (if st = OK then upd_par (\<lambda>ar. ar\<lparr>ar_buffer_sent := 0\<rparr>) (upd_req (\<lambda>r. r\<lparr>r_ob := Some (buffer_clear b)\<rparr>) c)
      else upd_par (\<lambda>ar. ar\<lparr>ar_buffer_sent := ar_buffer_sent ar + int n\<rparr>) c)"

lemma response_send_push:
  assumes "buffer_inv b" and "r_ob (c_req c) = Some b" and "sock_at (c_fd c) w = Some s"
    and "ar_buffer_sent (r_par (c_req c)) = int sent" and "sent \<le> length (buffer_data b)"
    and "push (s_send s) (drop sent (buffer_data b)) = (st, y, as')"
  shows "response_send c w = Some (st, after_send st (length y) b c, set_sock (c_fd c) as' (s_out s @ y) w)"
  using assms(2-)
proof (induction "s_send s" arbitrary: c w s sent st y as')
  case Nil
  have "0 \<le> int sent \<and> int sent \<le> b_len b" using Nil.prems(4) length_buffer_data [OF assms(1)] by simp
  with Nil those_buffer_data [OF assms(1) Nil.prems(4)] sys_send_eq [OF Nil.prems(2)] set_sock_triv [OF Nil.prems(2)]
  show ?case
    by (subst response_send.simps) (cases "drop sent (buffer_data b)"; auto simp: after_send_def)
next
  case (Cons a as)
  have le: "0 \<le> int sent \<and> int sent \<le> b_len b" using Cons.prems(4) length_buffer_data [OF assms(1)] by simp
  note x = those_buffer_data [OF assms(1) Cons.prems(4)]
  note send = sys_send_eq [OF Cons.prems(2), of "drop sent (buffer_data b)"]
  show ?case
  proof (cases a)
    case Send_fail
    then have "st = ERROR" "y = []" "as' = as" using Cons.prems(5) Cons.hyps(2) by (auto simp flip: Cons.hyps(2))
    with Send_fail Cons.prems x send le Cons.hyps(2) [symmetric] show ?thesis
      by (subst response_send.simps) (simp add: after_send_def)
  next
    case (Send_some j)
    show ?thesis
    proof (cases "drop sent (buffer_data b) = []")
      case True
      with Send_some have "st = OK" "y = []" "as' = a # as" using Cons.prems(5) Cons.hyps(2) by (auto simp flip: Cons.hyps(2))
      with Send_some True Cons.prems x send le Cons.hyps(2) [symmetric] set_sock_triv [OF Cons.prems(2)] show ?thesis
        by (subst response_send.simps) (simp add: after_send_def)
    next
      case False
      let ?r = "drop sent (buffer_data b)" and ?n = "min (length (drop sent (buffer_data b))) (Suc j)"
      let ?c = "upd_par (\<lambda>ar. ar\<lparr>ar_buffer_sent := int (sent + ?n)\<rparr>) c"
      let ?w = "set_sock (c_fd c) as (s_out s @ take (Suc j) ?r) w"
      let ?s = "s\<lparr>s_send := as, s_out := s_out s @ take (Suc j) ?r\<rparr>"
      obtain y1 where y1: "push as (drop (Suc j) ?r) = (st, y1, as')" "y = take (Suc j) ?r @ y1"
        using Cons.prems(5) Cons.hyps(2) [symmetric] Send_some False
        by (cases ?r) (auto split: prod.splits simp del: drop_Suc_Cons take_Suc_Cons)
      have n: "sent + ?n \<le> length (buffer_data b)" "drop (sent + ?n) (buffer_data b) = drop (Suc j) ?r"
        using Cons.prems(4) by (auto simp: min_def add.commute)
      have "response_send ?c ?w =
          Some (st, after_send st (length y1) b ?c, set_sock (c_fd ?c) as' (s_out ?s @ y1) ?w)"
        using Cons.hyps(1) [of ?s ?c ?w "sent + ?n"] Cons.prems(1,2) n y1(1) by simp
      moreover have "after_send st (length y1) b ?c = after_send st (length y) b c"
        using y1(2) Cons.prems(3) by (auto simp: after_send_def min_def)
      moreover have "response_send c w = response_send ?c ?w"
      proof -
        have "b_len b < 2 ^ 31" using assms(1) by (simp add: buffer_inv_def)
        then have "to_int32 (int sent + int ?n) = int (sent + ?n)"
          using n(1) length_buffer_data [OF assms(1)] by (auto intro!: to_int32_id)
        moreover have "?n \<noteq> 0" using False by (simp add: min_def)
        ultimately show ?thesis
          using Cons.prems x send le Cons.hyps(2) [symmetric] Send_some False
          by (subst response_send.simps) (auto simp: Let_def min_def)
      qed
      ultimately show ?thesis using y1(2) by simp
    qed
  qed
qed

section \<open>Sending the file\<close>

lemma AList_update_commute:
  "k \<noteq> k' \<Longrightarrow> map_of al k \<noteq> None \<Longrightarrow> map_of al k' \<noteq> None \<Longrightarrow>
   AList.update k v (AList.update k' v' al) = AList.update k' v' (AList.update k v al)"
proof (induction al)
  case (Cons p al)
  have comm: "AList.update k v (AList.update k' v' al) = AList.update k' v' (AList.update k v al) \<or>
      fst p = k \<or> fst p = k'" using Cons by (cases p) (auto split: if_splits)
  then show ?case using Cons.prems(1) by (cases p) auto
qed simp

lemma set_sock_file:
  assumes "sock_at fd k = Some s" and "fd_lookup k f = Some (Fd_file i off)"
  shows "set_sock fd as out (fd_update f (Fd_file i' off') k) = fd_update f (Fd_file i' off') (set_sock fd as out k)"
proof -
  have ne: "f \<noteq> fd" using assms by (auto simp: sock_at_def)
  then have "sock_at fd (fd_update f (Fd_file i' off') k) = Some s" using assms(1) by (simp add: sock_at_def)
  then show ?thesis
    using assms ne AList_update_commute [of fd f "k_fds k"] sock_at_lookup [THEN iffD1, OF assms(1)]
    by (simp add: set_sock_eq fd_update_def fd_lookup_def)
qed

lemma sock_at_file: "fd_lookup k f = Some (Fd_file i off) \<Longrightarrow> sock_at fd (fd_update f (Fd_file i' off') k) = sock_at fd k"
  by (auto simp: sock_at_def)

lemma sys_sendfile_eq:
  assumes s: "sock_at fd k = Some s" and f: "fd_lookup k f = Some (Fd_file i off)" and x: "k_inode k i = Regular x"
    and size: "length x < 2 ^ 31"
  shows "sys_sendfile fd f (int (length x)) k =
    (case s_send s of
       [] \<Rightarrow> if drop off x = [] then (Ret 0, k) else (Eagain, k)
     | Send_fail # as \<Rightarrow> (Fail, set_sock fd as (s_out s) k)
     | Send_some j # as \<Rightarrow> if drop off x = [] then (Ret 0, k)
         else (Ret (min (length (drop off x)) (Suc j)),
               fd_update f (Fd_file i (off + min (length (drop off x)) (Suc j)))
                 (set_sock fd as (s_out s @ take (Suc j) (drop off x)) k)))"
proof -
  have "nat (to_size (int (length x))) = length x" using size by (simp add: width_simps)
  then show ?thesis
    using sock_at_lookup [THEN iffD1, OF s] f x fd_update_triv [of k fd "Fd_sock s"] fd_update_triv [of k f "Fd_file i off"]
      set_sock_eq [OF s]
    by (auto simp: sys_sendfile_def sock_take_def min_def Let_def split: list.splits send_answer.splits)
qed

lemma send_file_push:
  assumes "length x < 2 ^ 31" and "r_resource_size (c_req c) = int (length x)"
    and "sock_at (c_fd c) w = Some s" and "fd_lookup w (r_resource_fd (c_req c)) = Some (Fd_file i off)"
    and "k_inode w i = Regular x" and "push (s_send s) (drop off x) = (st, y, as')"
  shows "\<exists>w'. w' = fd_update (r_resource_fd (c_req c)) (Fd_file i (off + length y)) (set_sock (c_fd c) as' (s_out s @ y) w) \<and>
    response_handle_send_file c w =
      Some (if st = OK then (OK, upd_par (\<lambda>ar. ar\<lparr>ar_response_done := True\<rparr>) c, close_fd (r_resource_fd (c_req c)) w')
            else (st, c, w'))"
  using assms(3-)
proof (induction "s_send s" arbitrary: w s off st y as')
  case Nil
  note sf = sys_sendfile_eq [OF Nil.prems(1-3) assms(1)]
  from Nil sf assms(2) set_sock_triv [OF Nil.prems(1)] fd_update_triv [OF Nil.prems(2)] show ?case
    by (subst response_handle_send_file.simps) (cases "drop off x"; auto)
next
  case (Cons a as)
  note sf = sys_sendfile_eq [OF Cons.prems(1-3) assms(1)] and a = Cons.hyps(2) [symmetric]
  have triv: "fd_update (r_resource_fd (c_req c)) (Fd_file i off) (set_sock (c_fd c) as'' z w) = set_sock (c_fd c) as'' z w"
    for as'' z using set_sock_file [OF Cons.prems(1,2), of as'' z i off] fd_update_triv [OF Cons.prems(2)] by simp
  show ?case
  proof (cases a)
    case Send_fail
    with Cons.prems(4) a have "st = ERROR" "y = []" "as' = as" by auto
    with Send_fail sf a assms(2) triv show ?thesis by (subst response_handle_send_file.simps) simp
  next
    case (Send_some j)
    show ?thesis
    proof (cases "drop off x = []")
      case True
      with Send_some Cons.prems(4) a have "st = OK" "y = []" "as' = a # as" by auto
      with Send_some True sf a assms(2) triv set_sock_triv [OF Cons.prems(1)] fd_update_triv [OF Cons.prems(2)]
      show ?thesis
        by (subst response_handle_send_file.simps) simp
    next
      case False
      let ?n = "min (length (drop off x)) (Suc j)" and ?f = "r_resource_fd (c_req c)"
      let ?s = "s\<lparr>s_send := as, s_out := s_out s @ take (Suc j) (drop off x)\<rparr>"
      let ?v = "set_sock (c_fd c) as (s_out s @ take (Suc j) (drop off x)) w"
      let ?w = "fd_update ?f (Fd_file i (off + ?n)) ?v"
      obtain y1 where y1: "push as (drop (Suc j) (drop off x)) = (st, y1, as')" "y = take (Suc j) (drop off x) @ y1"
        using Cons.prems(4) a Send_some False
        by (cases "drop off x") (auto split: prod.splits simp del: drop_Suc_Cons take_Suc_Cons)
      have fv: "fd_lookup ?v ?f = Some (Fd_file i off)" "sock_at (c_fd c) ?v = Some ?s" "k_inode ?v = k_inode w"
        using Cons.prems(1,2) by (auto simp: set_sock_def sock_at_def split: option.splits fd_object.splits)
      have d: "drop (off + ?n) x = drop (Suc j) (drop off x)" "length y = ?n + length y1"
        using y1(2) by (auto simp: min_def add.commute)
      obtain w1 where w1: "w1 = fd_update ?f (Fd_file i (off + ?n + length y1)) (set_sock (c_fd c) as' (s_out ?s @ y1) ?w)"
        "response_handle_send_file c ?w = Some (if st = OK then (OK, upd_par (\<lambda>ar. ar\<lparr>ar_response_done := True\<rparr>) c,
           close_fd ?f w1) else (st, c, w1))"
        using Cons.hyps(1) [of ?s ?w "off + ?n" st y1 as'] fv d(1) y1(1) Cons.prems(3)
        by (auto simp: sock_at_file [OF fv(1)])
      have "w1 = fd_update ?f (Fd_file i (off + length y)) (set_sock (c_fd c) as' (s_out s @ y) w)"
        using w1(1) set_sock_file [OF fv(2,1)] d(2) y1(2) by (simp add: add.assoc)
      moreover have "response_handle_send_file c w = response_handle_send_file c ?w"
      proof -
        have "?n \<noteq> 0" using False by (simp add: min_def)
        then show ?thesis using sf a Send_some False assms(2)
          by (subst response_handle_send_file.simps) (auto simp: min_def)
      qed
      ultimately show ?thesis using w1(2) by simp
    qed
  qed
qed

section \<open>The response as a stream\<close>

text \<open>The part of the requested file that is not sent yet.\<close>

definition file_rest :: "request_t \<Rightarrow> 'x kernel_scheme \<Rightarrow> string" where
  "file_rest r k =
     (if r_resource_fd r = - 1 then []
      else case fd_lookup k (r_resource_fd r) of
        Some (Fd_file i off) \<Rightarrow> (case k_inode k i of Regular x \<Rightarrow> drop off x | Directory _ \<Rightarrow> [])
      | _ \<Rightarrow> [])"

definition head_rest :: "request_t \<Rightarrow> string" where
  "head_rest r =
     (case r_res_handler r of
        response_handle_send_buffer_h \<Rightarrow> drop (nat (ar_buffer_sent (r_par r))) (ob_text r)
      | response_handle_send_file_h \<Rightarrow> [])"

definition to_send :: "conn \<Rightarrow> 'x world_scheme \<Rightarrow> string" where
  "to_send c w = head_rest (c_req c) @ file_rest (c_req c) w"

text \<open>
  A connection in the middle of a response: its socket is open, the output buffer is well formed and
  at most all of it has been sent, and the resource, if there is one, is an open regular file whose
  size was recorded.
\<close>

definition head_ok :: "request_t \<Rightarrow> bool" where
  "head_ok r \<longleftrightarrow> ob_ok r \<and> 0 \<le> ar_buffer_sent (r_par r) \<and> nat (ar_buffer_sent (r_par r)) \<le> length (ob_text r)"

definition file_ok :: "request_t \<Rightarrow> 'x kernel_scheme \<Rightarrow> bool" where
  "file_ok r k \<longleftrightarrow> (\<exists>i off x. fd_lookup k (r_resource_fd r) = Some (Fd_file i off) \<and> k_inode k i = Regular x \<and>
     r_resource_size r = int (length x) \<and> length x < 2 ^ 31)"

definition send_ready :: "conn \<Rightarrow> 'x world_scheme \<Rightarrow> bool" where
  "send_ready c w \<longleftrightarrow> sock_at (c_fd c) w \<noteq> None \<and> head_ok (c_req c) \<and> interest_ok c w \<and>
     \<not> ar_response_done (r_par (c_req c)) \<and>
     (if r_resource_fd (c_req c) = - 1 then r_res_handler (c_req c) = response_handle_send_buffer_h
      else file_ok (c_req c) w)"

definition sock_out :: "int \<Rightarrow> 'x kernel_scheme \<Rightarrow> string" where
  "sock_out fd k = (case sock_at fd k of None \<Rightarrow> [] | Some s \<Rightarrow> s_out s)"

lemma set_sock_frame [simp]:
  "k_epoll (set_sock fd as out k) = k_epoll k" "k_inode (set_sock fd as out k) = k_inode k"
  by (simp_all add: set_sock_def split: option.splits)

lemma set_sock_other: "sock_at fd k \<noteq> None \<Longrightarrow> f \<noteq> fd \<Longrightarrow> fd_lookup (set_sock fd as out k) f = fd_lookup k f"
  by (auto simp: set_sock_def split: option.splits)

lemma file_ok_sock: "file_ok r k \<Longrightarrow> sock_at fd k \<noteq> None \<Longrightarrow> r_resource_fd r \<noteq> fd"
  by (auto simp: file_ok_def sock_at_def)

lemma file_set_sock:
  assumes "file_ok r k" and "sock_at fd k \<noteq> None"
  shows "file_ok r (set_sock fd as out k) \<and> file_rest r (set_sock fd as out k) = file_rest r k"
  using assms set_sock_other [OF assms(2) file_ok_sock [OF assms]]
  by (auto simp: file_ok_def file_rest_def split: option.splits fd_object.splits)

text \<open>One step of the response loop for the head: all of it is out, or the call ends here.\<close>

lemma send_buffer_stream:
  assumes "send_ready c w" and "r_res_handler (c_req c) = response_handle_send_buffer_h"
    and "sock_at (c_fd c) w = Some s"
    and "push (s_send s) (head_rest (c_req c)) = (st, y, as')"
  obtains b where "r_ob (c_req c) = Some b" and "buffer_inv b"
    and "response_send c w = Some (st, after_send st (length y) b c, set_sock (c_fd c) as' (s_out s @ y) w)"
proof -
  obtain b where b: "r_ob (c_req c) = Some b" "buffer_inv b"
    using assms(1) by (auto simp: send_ready_def head_ok_def ob_ok_def split: option.splits)
  have "nat (ar_buffer_sent (r_par (c_req c))) \<le> length (buffer_data b)" "0 \<le> ar_buffer_sent (r_par (c_req c))"
    using assms(1) b by (auto simp: send_ready_def head_ok_def ob_text_def)
  with response_send_push [OF b(2,1) assms(3), of "nat (ar_buffer_sent (r_par (c_req c)))" st y as'] assms(2,4) b
  show thesis by (intro that [of b]) (auto simp: head_rest_def ob_text_def)
qed

lemma after_send_sel [simp]:
  "c_fd (after_send st n b c) = c_fd c" "c_events (after_send st n b c) = c_events c"
  "c_data_ptr (after_send st n b c) = c_data_ptr c"
  "r_res_handler (c_req (after_send st n b c)) = r_res_handler (c_req c)"
  "r_resource_fd (c_req (after_send st n b c)) = r_resource_fd (c_req c)"
  "r_resource_size (c_req (after_send st n b c)) = r_resource_size (c_req c)"
  "r_ib (c_req (after_send st n b c)) = r_ib (c_req c)" "r_ib_at (c_req (after_send st n b c)) = r_ib_at (c_req c)"
  "ar_response_done (r_par (c_req (after_send st n b c))) = ar_response_done (r_par (c_req c))"
  "ar_keep_alive (r_par (c_req (after_send st n b c))) = ar_keep_alive (r_par (c_req c))"
  by (simp_all add: after_send_def)

lemma push_used: "push as x = (OK, y, as') \<Longrightarrow> \<exists>bs. as = bs @ as' \<and> length bs \<le> length x"
proof (induction as x arbitrary: y as' rule: push.induct)
  case (4 j as v va)
  then obtain y1 where "push as (drop (Suc j) (v # va)) = (OK, y1, as')" by (auto split: prod.splits)
  then obtain bs where "as = bs @ as'" "length bs \<le> length (drop (Suc j) (v # va))" using "4.IH" by blast
  then show ?case by (intro exI [of _ "Send_some j # bs"]) auto
qed auto

definition sock_answers :: "int \<Rightarrow> 'x kernel_scheme \<Rightarrow> send_answer list" where
  "sock_answers fd k = (case sock_at fd k of None \<Rightarrow> [] | Some s \<Rightarrow> s_send s)"

text \<open>
  What a call of the response loop may do to the stream: all of the pending bytes are out and the
  response is done; or the socket would block, and the rest is still pending; or the socket failed.
  The socket only blocks when all its answers are used up, each for at least one byte.
\<close>

definition stream_step :: "conn \<Rightarrow> 'x world_scheme \<Rightarrow> int \<Rightarrow> conn \<Rightarrow> 'x world_scheme \<Rightarrow> bool" where
  "stream_step c w st c' w' \<longleftrightarrow> (\<exists>y z. to_send c w = y @ z \<and> sock_out (c_fd c) w' = sock_out (c_fd c) w @ y \<and>
     (st = OK \<and> z = [] \<and> ar_response_done (r_par (c_req c')) \<and>
        (r_resource_fd (c_req c) \<noteq> - 1 \<longrightarrow> fd_lookup w' (r_resource_fd (c_req c)) = None) \<or>
      st = AGAIN \<and> z \<noteq> [] \<and> length (sock_answers (c_fd c) w) \<le> length y \<and> send_ready c' w' \<and> to_send c' w' = z \<or>
      st = ERROR \<and> \<not> ar_response_done (r_par (c_req c')) \<and> Send_fail \<in> set (sock_answers (c_fd c) w)))"

definition same_conn :: "conn \<Rightarrow> 'x world_scheme \<Rightarrow> conn \<Rightarrow> 'x world_scheme \<Rightarrow> bool" where
  "same_conn c w c' w' \<longleftrightarrow> c_fd c' = c_fd c \<and> interest_ok c' w' \<and> ob_ok (c_req c') \<and>
     r_ib (c_req c') = r_ib (c_req c) \<and> r_ib_at (c_req c') = r_ib_at (c_req c) \<and>
     ar_keep_alive (r_par (c_req c')) = ar_keep_alive (r_par (c_req c))"

lemma file_phase:
  assumes ready: "send_ready c w" and h: "r_res_handler (c_req c) = response_handle_send_file_h"
  shows "\<exists>st c' w'. res_handler_loop c w = Some (st, c', w') \<and> stream_step c w st c' w' \<and> same_conn c w c' w'"
proof -
  let ?f = "r_resource_fd (c_req c)" and ?fd = "c_fd c"
  obtain s where s: "sock_at ?fd w = Some s" using ready by (auto simp: send_ready_def)
  have f: "?f \<noteq> - 1" "file_ok (c_req c) w" using ready h by (auto simp: send_ready_def split: if_splits)
  then obtain i off x where x: "fd_lookup w ?f = Some (Fd_file i off)" "k_inode w i = Regular x"
    "r_resource_size (c_req c) = int (length x)" "length x < 2 ^ 31" by (auto simp: file_ok_def)
  have ts: "to_send c w = drop off x" using h f x by (simp add: to_send_def head_rest_def file_rest_def)
  obtain st y as' where p: "push (s_send s) (drop off x) = (st, y, as')" by (cases rule: prod_cases3)
  let ?v = "set_sock ?fd as' (s_out s @ y) w"
  let ?w = "fd_update ?f (Fd_file i (off + length y)) ?v"
  obtain z where z: "drop off x = y @ z" "st = OK \<longrightarrow> z = []" "st = AGAIN \<longrightarrow> as' = [] \<and> z \<noteq> []"
    using push_prefix [OF p] by blast
  have st: "st = OK \<or> st = AGAIN \<or> st = ERROR \<and> Send_fail \<in> set (s_send s)" using push_status [OF p] by auto
  have en: "st = AGAIN \<Longrightarrow> length (s_send s) \<le> length y" using push_blocked p by auto
  have fv: "fd_lookup ?v ?f = Some (Fd_file i off)"
    using set_sock_other [of ?fd w ?f] file_ok_sock [OF f(2)] s x(1) by simp
  have dz: "drop (off + length y) x = z" using z(1) by (metis append_eq_conv_conj drop_drop add.commute)
  have out: "sock_at ?fd ?w = Some (s\<lparr>s_send := as', s_out := s_out s @ y\<rparr>)"
    using sock_at_file [OF fv] s by simp
  note sf = send_file_push [OF x(4,3) s x(1,2) p]
  have ne: "?f \<noteq> ?fd" using file_ok_sock [OF f(2), of ?fd] s by auto
  show ?thesis
  proof (cases "st = OK")
    case True
    let ?c = "upd_par (\<lambda>ar. ar\<lparr>ar_response_done := True\<rparr>) c"
    have "res_handler_loop c w = Some (OK, ?c, close_fd ?f ?w)"
      using sf True h by (subst res_handler_loop.simps) (simp add: call_res_handler_def)
    moreover have "stream_step c w OK ?c (close_fd ?f ?w)"
      using z(1,2) True ts out ne s unfolding stream_step_def
      by (intro conjI exI [of _ y] exI [of _ "[]"]) (auto simp: sock_out_def sock_at_def)
    moreover have "same_conn c w ?c (close_fd ?f ?w)"
      using ready by (simp add: same_conn_def send_ready_def interest_ok_def event_of_def head_ok_def ob_ok_def)
    ultimately show ?thesis by blast
  next
    case False
    have loop: "res_handler_loop c w = Some (st, c, ?w)"
      using sf False h by (subst res_handler_loop.simps) (simp add: call_res_handler_def)
    have fw: "file_ok (c_req c) ?w" "file_rest (c_req c) ?w = z"
      using f(1) x dz by (auto simp: file_ok_def file_rest_def)
    have "stream_step c w st c ?w"
      using z st en False ts out fw ready h s unfolding stream_step_def sock_out_def sock_answers_def
      by (intro conjI exI [of _ y] exI [of _ z])
        (auto simp: send_ready_def to_send_def head_rest_def interest_ok_def)
    moreover have "same_conn c w c ?w"
      using ready by (simp add: same_conn_def send_ready_def interest_ok_def head_ok_def)
    ultimately show ?thesis using loop by blast
  qed
qed

lemma epoll_frame [simp]:
  "fd_lookup (k\<lparr>k_epoll := e\<rparr>) = fd_lookup k" "sock_at fd (k\<lparr>k_epoll := e\<rparr>) = sock_at fd k"
  by (simp_all add: fd_lookup_def sock_at_def fun_eq_iff)

lemma file_cong:
  "r_resource_fd r = r_resource_fd r' \<Longrightarrow> file_rest r k = file_rest r' k"
  "r_resource_fd r = r_resource_fd r' \<Longrightarrow> r_resource_size r = r_resource_size r' \<Longrightarrow> file_ok r k = file_ok r' k"
  by (simp_all add: file_rest_def file_ok_def)

lemma stream_step_compose:
  assumes "to_send c w = y @ to_send c1 w1" and "c_fd c1 = c_fd c" and "r_resource_fd (c_req c1) = r_resource_fd (c_req c)"
    and "sock_out (c_fd c) w1 = sock_out (c_fd c) w @ y" and "sock_answers (c_fd c) w = bs @ sock_answers (c_fd c) w1"
    and "length bs \<le> length y" and "stream_step c1 w1 st c' w'"
  shows "stream_step c w st c' w'"
proof -
  obtain y1 z where y1: "to_send c1 w1 = y1 @ z" "sock_out (c_fd c) w' = sock_out (c_fd c) w1 @ y1"
    "st = OK \<and> z = [] \<and> ar_response_done (r_par (c_req c')) \<and>
       (r_resource_fd (c_req c) \<noteq> - 1 \<longrightarrow> fd_lookup w' (r_resource_fd (c_req c)) = None) \<or>
     st = AGAIN \<and> z \<noteq> [] \<and> length (sock_answers (c_fd c) w1) \<le> length y1 \<and> send_ready c' w' \<and> to_send c' w' = z \<or>
     st = ERROR \<and> \<not> ar_response_done (r_par (c_req c')) \<and> Send_fail \<in> set (sock_answers (c_fd c) w1)"
    using assms(7) unfolding stream_step_def assms(2,3) by blast
  show ?thesis unfolding stream_step_def
  proof (rule exI [of _ "y @ y1"], rule exI [of _ z], intro conjI)
    show "to_send c w = (y @ y1) @ z" using assms(1) y1(1) by simp
    show "sock_out (c_fd c) w' = sock_out (c_fd c) w @ y @ y1" using assms(4) y1(2) by simp
  qed (use y1(3) assms in auto)
qed

lemma after_send_head:
  assumes "head_ok (c_req c)" and "r_res_handler (c_req c) = response_handle_send_buffer_h"
    and "r_ob (c_req c) = Some b" and "st \<noteq> OK" and "head_rest (c_req c) = y @ z"
  shows "head_rest (c_req (after_send st (length y) b c)) = z \<and> head_ok (c_req (after_send st (length y) b c))"
proof -
  let ?n = "ar_buffer_sent (r_par (c_req c))"
  have n: "0 \<le> ?n" "drop (nat ?n) (buffer_data b) = y @ z" "nat ?n \<le> length (buffer_data b)"
    using assms by (simp_all add: head_ok_def head_rest_def ob_text_def)
  then have "drop (nat (?n + int (length y))) (buffer_data b) = z"
    by (simp add: nat_add_distrib add.commute flip: drop_drop)
  moreover have "nat (?n + int (length y)) \<le> length (buffer_data b)"
    using arg_cong [OF n(2), of length] n(1,3) by (auto simp: nat_add_distrib)
  ultimately show ?thesis
    using assms n(1) by (auto simp: after_send_def head_rest_def head_ok_def ob_text_def ob_ok_def)
qed

lemma disable_out_frame:
  assumes "interest_ok c k"
  shows "\<exists>c' k'. connection_disable_out c k = (OK, c', k') \<and> c' = c\<lparr>c_events := c_events c'\<rparr> \<and>
    k' = k\<lparr>k_epoll := k_epoll k'\<rparr> \<and> interest_ok c' k'"
  using wrapper_with_events(4) [OF assms] by (simp add: with_events_def interest_ok_def event_of_def)

lemma head_sent:
  assumes ready: "send_ready c w" and h: "r_res_handler (c_req c) = response_handle_send_buffer_h" and s: "sock_at (c_fd c) w = Some s"
    and p: "push (s_send s) (head_rest (c_req c)) = (st, y, as')"
  obtains b z where "r_ob (c_req c) = Some b" and "buffer_inv b"
    and "response_send c w = Some (st, after_send st (length y) b c, set_sock (c_fd c) as' (s_out s @ y) w)"
    and "head_rest (c_req c) = y @ z" and "st = OK \<longrightarrow> z = []" and "st = AGAIN \<longrightarrow> as' = [] \<and> z \<noteq> []"
    and "interest_ok (after_send st (length y) b c) (set_sock (c_fd c) as' (s_out s @ y) w)" and "ob_ok (c_req (after_send st (length y) b c))"
    and "file_rest (c_req c) (set_sock (c_fd c) as' (s_out s @ y) w) = file_rest (c_req c) w"
    and "r_resource_fd (c_req c) \<noteq> - 1 \<longrightarrow> file_ok (c_req c) (set_sock (c_fd c) as' (s_out s @ y) w)"
proof -
  let ?w = "set_sock (c_fd c) as' (s_out s @ y) w"
  obtain b where b: "r_ob (c_req c) = Some b" "buffer_inv b"
    and send: "response_send c w = Some (st, after_send st (length y) b c, ?w)"
    using send_buffer_stream [OF ready h s p] .
  obtain z where z: "head_rest (c_req c) = y @ z" "st = OK \<longrightarrow> z = []" "st = AGAIN \<longrightarrow> as' = [] \<and> z \<noteq> []"
    using push_prefix [OF p] by blast
  have f: "r_resource_fd (c_req c) \<noteq> - 1 \<longrightarrow> file_ok (c_req c) ?w \<and> file_rest (c_req c) ?w = file_rest (c_req c) w"
    using file_set_sock [of "c_req c" w "c_fd c" as' "s_out s @ y"] s ready by (simp add: send_ready_def)
  have "interest_ok (after_send st (length y) b c) ?w" using ready by (simp add: send_ready_def interest_ok_def event_of_def)
  moreover have "ob_ok (c_req (after_send st (length y) b c))" using b buffer_clear_ok [OF b(2)] by (auto simp: after_send_def ob_ok_def)
  moreover have "file_rest (c_req c) ?w = file_rest (c_req c) w" using f by (auto simp: file_rest_def)
  ultimately show thesis using that b send z f by blast
qed

lemma head_blocked:
  assumes ready: "send_ready c w" and h: "r_res_handler (c_req c) = response_handle_send_buffer_h" and s: "sock_at (c_fd c) w = Some s"
    and p: "push (s_send s) (head_rest (c_req c)) = (st, y, as')" and False: "st \<noteq> OK"
  shows "\<exists>st c' w'. res_handler_loop c w = Some (st, c', w') \<and> stream_step c w st c' w' \<and> same_conn c w c' w'"
proof -
  obtain b z where b: "r_ob (c_req c) = Some b" "buffer_inv b"
    and send: "response_send c w = Some (st, after_send st (length y) b c, set_sock (c_fd c) as' (s_out s @ y) w)"
    and z: "head_rest (c_req c) = y @ z" "st = OK \<longrightarrow> z = []" "st = AGAIN \<longrightarrow> as' = [] \<and> z \<noteq> []"
    and int: "interest_ok (after_send st (length y) b c) (set_sock (c_fd c) as' (s_out s @ y) w)" and ob: "ob_ok (c_req (after_send st (length y) b c))"
    and frest': "file_rest (c_req c) (set_sock (c_fd c) as' (s_out s @ y) w) = file_rest (c_req c) w"
    and fok: "r_resource_fd (c_req c) \<noteq> - 1 \<longrightarrow> file_ok (c_req c) (set_sock (c_fd c) as' (s_out s @ y) w)"
    by (rule head_sent [OF ready h s p])
  let ?c = "after_send st (length y) b c" and ?w = "set_sock (c_fd c) as' (s_out s @ y) w"
  have st: "st = OK \<or> st = AGAIN \<or> st = ERROR \<and> Send_fail \<in> set (s_send s)" using push_status [OF p] by auto
  have loop: "res_handler_loop c w = Some (st, ?c, ?w)"
    using send False h by (subst res_handler_loop.simps) (simp add: call_res_handler_def response_handle_send_buffer_def)
  have hr: "head_rest (c_req ?c) = z" "head_ok (c_req ?c)"
    using after_send_head [OF _ h b(1) False z(1)] ready by (simp_all add: send_ready_def)
  have fr: "file_rest (c_req ?c) ?w = file_rest (c_req c) w" "file_ok (c_req ?c) ?w = file_ok (c_req c) ?w"
    using frest' by (simp_all add: file_cong [of "c_req ?c" "c_req c"])
  have en: "st = AGAIN \<Longrightarrow> length (s_send s) \<le> length y" using push_blocked p by auto
  have "stream_step c w st ?c ?w"
    using z st en False fr fok hr int ready h s unfolding stream_step_def sock_out_def sock_answers_def
    by (intro conjI exI [of _ y] exI [of _ "z @ file_rest (c_req c) w"])
      (auto simp: send_ready_def to_send_def)
  then show ?thesis using loop int ob by (auto simp: same_conn_def)
qed

lemma head_alone:
  assumes ready: "send_ready c w" and h: "r_res_handler (c_req c) = response_handle_send_buffer_h" and s: "sock_at (c_fd c) w = Some s"
    and p: "push (s_send s) (head_rest (c_req c)) = (OK, y, as')" and nofile: "r_resource_fd (c_req c) = - 1"
  shows "\<exists>st c' w'. res_handler_loop c w = Some (st, c', w') \<and> stream_step c w st c' w' \<and> same_conn c w c' w'"
proof -
  obtain b z where b: "r_ob (c_req c) = Some b" "buffer_inv b"
    and send: "response_send c w = Some (OK, after_send OK (length y) b c, set_sock (c_fd c) as' (s_out s @ y) w)"
    and z: "head_rest (c_req c) = y @ z" "OK = OK \<longrightarrow> z = []" "OK = AGAIN \<longrightarrow> as' = [] \<and> z \<noteq> []"
    and int: "interest_ok (after_send OK (length y) b c) (set_sock (c_fd c) as' (s_out s @ y) w)" and ob: "ob_ok (c_req (after_send OK (length y) b c))"
    and frest': "file_rest (c_req c) (set_sock (c_fd c) as' (s_out s @ y) w) = file_rest (c_req c) w"
    and fok: "r_resource_fd (c_req c) \<noteq> - 1 \<longrightarrow> file_ok (c_req c) (set_sock (c_fd c) as' (s_out s @ y) w)"
    by (rule head_sent [OF ready h s p])
  let ?c = "after_send OK (length y) b c" and ?w = "set_sock (c_fd c) as' (s_out s @ y) w"
  have ts: "to_send c w = y @ file_rest (c_req c) w" using z by (simp add: to_send_def)
  let ?d = "upd_par (\<lambda>ar. ar\<lparr>ar_response_done := True\<rparr>) ?c"
  obtain c2 w2 where c2: "connection_disable_out ?d ?w = (OK, c2, w2)" "c2 = ?d\<lparr>c_events := c_events c2\<rparr>"
    "w2 = ?w\<lparr>k_epoll := k_epoll w2\<rparr>" "interest_ok c2 w2"
    using disable_out_frame [of ?d ?w] int by (auto simp: interest_ok_def event_of_def)
  have fin: "ar_response_done (r_par (c_req c2))" "c_fd c2 = c_fd c" "c_req c2 = c_req ?d"
    by (subst c2(2), simp)+
  have "res_handler_loop c w = Some (OK, c2, w2)"
    using send nofile h c2(1) fin(1)
    by (subst res_handler_loop.simps) (simp add: call_res_handler_def response_handle_send_buffer_def)
  moreover have "sock_out (c_fd c) w2 = sock_out (c_fd c) w @ y" by (subst c2(3)) (use s in \<open>simp add: sock_out_def\<close>)
  then have "stream_step c w OK c2 w2" unfolding stream_step_def
    by (intro conjI exI [where x = y] exI [where x = "[]"]) (use ts nofile fin in \<open>auto simp: file_rest_def\<close>)
  moreover have "same_conn c w c2 w2" using ob c2(4) fin by (simp add: same_conn_def ob_ok_def)
  ultimately show ?thesis by blast
qed

lemma head_then_file:
  assumes ready: "send_ready c w" and h: "r_res_handler (c_req c) = response_handle_send_buffer_h" and s: "sock_at (c_fd c) w = Some s"
    and p: "push (s_send s) (head_rest (c_req c)) = (OK, y, as')" and isfile: "r_resource_fd (c_req c) \<noteq> - 1"
  shows "\<exists>st c' w'. res_handler_loop c w = Some (st, c', w') \<and> stream_step c w st c' w' \<and> same_conn c w c' w'"
proof -
  obtain b z where b: "r_ob (c_req c) = Some b" "buffer_inv b"
    and send: "response_send c w = Some (OK, after_send OK (length y) b c, set_sock (c_fd c) as' (s_out s @ y) w)"
    and z: "head_rest (c_req c) = y @ z" "OK = OK \<longrightarrow> z = []" "OK = AGAIN \<longrightarrow> as' = [] \<and> z \<noteq> []"
    and int: "interest_ok (after_send OK (length y) b c) (set_sock (c_fd c) as' (s_out s @ y) w)" and ob: "ob_ok (c_req (after_send OK (length y) b c))"
    and frest': "file_rest (c_req c) (set_sock (c_fd c) as' (s_out s @ y) w) = file_rest (c_req c) w"
    and fok: "r_resource_fd (c_req c) \<noteq> - 1 \<longrightarrow> file_ok (c_req c) (set_sock (c_fd c) as' (s_out s @ y) w)"
    by (rule head_sent [OF ready h s p])
  let ?c = "after_send OK (length y) b c" and ?w = "set_sock (c_fd c) as' (s_out s @ y) w"
  have ts: "to_send c w = y @ file_rest (c_req c) w" using z by (simp add: to_send_def)
  obtain bs where bs: "s_send s = bs @ as'" "length bs \<le> length y" using push_used [of "s_send s" _ y as'] p z by auto
  have nd: "\<not> ar_response_done (r_par (c_req c))" using ready by (simp add: send_ready_def)
  let ?d = "upd_req (\<lambda>r. r\<lparr>r_res_handler := response_handle_send_file_h\<rparr>) ?c"
  have "send_ready ?d ?w"
    using ready fok isfile int ob s b buffer_clear_ok [OF b(2)]
    by (auto simp: send_ready_def head_ok_def file_ok_def interest_ok_def event_of_def after_send_def ob_ok_def ob_text_def)
  then obtain st' c' w' where f: "res_handler_loop ?d ?w = Some (st', c', w')" "stream_step ?d ?w st' c' w'"
    "same_conn ?d ?w c' w'" using file_phase [of ?d ?w] by auto
  have "res_handler_loop c w = Some (st', c', w')"
    using send isfile h f(1) nd
    by (subst res_handler_loop.simps) (simp add: call_res_handler_def response_handle_send_buffer_def)
  moreover have "stream_step c w st' c' w'"
  proof (rule stream_step_compose [OF _ _ _ _ _ bs(2) f(2)])
    have "file_rest (c_req ?d) ?w = file_rest (c_req c) ?w" by (rule file_cong(1)) simp
    then show "to_send c w = y @ to_send ?d ?w" using ts frest' by (simp add: to_send_def head_rest_def)
    show "sock_out (c_fd c) ?w = sock_out (c_fd c) w @ y" "sock_answers (c_fd c) w = bs @ sock_answers (c_fd c) ?w"
      using s bs(1) by (simp_all add: sock_out_def sock_answers_def)
  qed simp_all
  ultimately show ?thesis using f(3) by (auto simp: same_conn_def)
qed

lemma head_phase:
  assumes ready: "send_ready c w" and h: "r_res_handler (c_req c) = response_handle_send_buffer_h"
  shows "\<exists>st c' w'. res_handler_loop c w = Some (st, c', w') \<and> stream_step c w st c' w' \<and> same_conn c w c' w'"
proof -
  obtain s where s: "sock_at (c_fd c) w = Some s" using ready by (auto simp: send_ready_def)
  obtain st y as' where p: "push (s_send s) (head_rest (c_req c)) = (st, y, as')" by (cases rule: prod_cases3)
  show ?thesis
    using head_blocked [OF ready h s p] head_alone [OF ready h s, of y as'] head_then_file [OF ready h s, of y as'] p
    by (cases "st = OK"; cases "r_resource_fd (c_req c) = - 1") auto
qed

section \<open>Handling output\<close>

lemma enable_in_frame:
  assumes "interest_ok c k"
  shows "\<exists>c' k'. connection_enable_in c k = (OK, c', k') \<and> c' = c\<lparr>c_events := c_events c'\<rparr> \<and>
    k' = k\<lparr>k_epoll := k_epoll k'\<rparr> \<and> interest_ok c' k' \<and> c_events c' = c_events c OR EPOLLIN"
  using wrapper_with_events(1) [OF assms] by (simp add: with_events_def interest_ok_def event_of_def)

text \<open>The request is as a new connection's, with the same two buffers, emptied.\<close>

definition idle :: "conn \<Rightarrow> 'x world_scheme \<Rightarrow> bool" where
  "idle c w \<longleftrightarrow> (\<exists>a ib ob. c_req c = fresh_request a ib (Some ob) \<and> buffer_inv ib \<and> buffer_inv ob \<and>
     buffer_data ib = [] \<and> buffer_data ob = []) \<and> interest_ok c w \<and> CONN_IS_IN c \<and> \<not> CONN_IS_OUT c"

lemma res_loop_stream:
  assumes "send_ready c w"
  shows "\<exists>st c' w'. res_handler_loop c w = Some (st, c', w') \<and> stream_step c w st c' w' \<and> same_conn c w c' w'"
  by (cases "r_res_handler (c_req c)") (rule head_phase file_phase, rule assms, assumption)+

lemma request_reset_idle:
  assumes "interest_ok c w" and "ob_ok (c_req c)" and "buffer_inv (r_ib (c_req c))"
  shows "\<exists>r c' w'. request_reset (c_req c) = Some r \<and>
    (let (_, c1, w1) = connection_disable_out (c\<lparr>c_req := r\<rparr>) w in connection_enable_in c1 w1) = (OK, c', w') \<and>
    idle c' w' \<and> c_fd c' = c_fd c \<and> w' = w\<lparr>k_epoll := k_epoll w'\<rparr>"
proof -
  obtain ob where ob: "r_ob (c_req c) = Some ob" "buffer_inv ob"
    using assms(2) by (auto simp: ob_ok_def split: option.splits)
  let ?r = "fresh_request (r_ib_at (c_req c)) (buffer_clear (r_ib (c_req c))) (Some (buffer_clear ob))"
  let ?c = "c\<lparr>c_req := ?r\<rparr>"
  have "request_reset (c_req c) = Some ?r" using ob by (simp add: request_reset_def)
  moreover have i: "interest_ok ?c w" using assms(1) by (simp add: interest_ok_def event_of_def)
  obtain c1 w1 where c1: "with_events (c_events ?c AND NOT EPOLLOUT) ?c w = (c1, w1)" by fastforce
  note i1 = with_events_interest [OF c1]
  obtain c2 w2 where c2: "with_events (c_events c1 OR EPOLLIN) c1 w1 = (c2, w2)" by fastforce
  have "(let (_, c1, w1) = connection_disable_out ?c w in connection_enable_in c1 w1) = (OK, c2, w2)"
    using wrapper_with_events(4) [OF i] wrapper_with_events(1) [OF i1] c1 c2 by simp
  moreover have "bit (c_events c2) 0" "\<not> bit (c_events c2) 2"
    using c1 c2 mask_bits [of "c_events c"] mask_bits [of "c_events c1"] unfolding with_events_def by auto
  then have "idle c2 w2 \<and> c_fd c2 = c_fd c \<and> w2 = w\<lparr>k_epoll := k_epoll w2\<rparr>"
    using c1 c2 with_events_interest [OF c2] buffer_clear_ok [OF ob(2)] buffer_clear_ok [OF assms(3)]
    unfolding idle_def is_in_bit is_out_bit with_events_def by (auto, blast)
  ultimately show ?thesis by blast
qed

text \<open>
  A call of \<open>response_handle\<close>: the bytes that go out are the next ones of the pending response; if
  some are left the call returns \<open>AGAIN\<close>, if none are left the connection is ready for the next
  request or is to be closed.
\<close>

definition response_progress :: "conn \<Rightarrow> 'x world_scheme \<Rightarrow> int \<Rightarrow> conn \<Rightarrow> 'x world_scheme \<Rightarrow> bool" where
  "response_progress c w st c' w' \<longleftrightarrow> c_fd c' = c_fd c \<and>
     (\<exists>y z. to_send c w = y @ z \<and> sock_out (c_fd c) w' = sock_out (c_fd c) w @ y \<and>
       (st = OK \<and> z = [] \<and> ar_keep_alive (r_par (c_req c)) \<and> idle c' w' \<or>
        st = ERROR \<and> z = [] \<and> \<not> ar_keep_alive (r_par (c_req c)) \<or>
        st = AGAIN \<and> z \<noteq> [] \<and> length (sock_answers (c_fd c) w) \<le> length y \<and> send_ready c' w' \<and> to_send c' w' = z \<and>
          r_ib (c_req c') = r_ib (c_req c) \<and> ar_keep_alive (r_par (c_req c')) = ar_keep_alive (r_par (c_req c)) \<or>
        st = ERROR \<and> Send_fail \<in> set (sock_answers (c_fd c) w)))"

lemma response_handle_progress:
  assumes "send_ready c w" and "buffer_inv (r_ib (c_req c))"
  shows "\<exists>st c' w'. response_handle c w = Some (st, c', w') \<and> response_progress c w st c' w'"
proof -
  obtain st c1 w1 where loop: "res_handler_loop c w = Some (st, c1, w1)"
    and step: "stream_step c w st c1 w1" and same: "same_conn c w c1 w1"
    using res_loop_stream [OF assms(1)] by blast
  then obtain y z where yz: "to_send c w = y @ z" "sock_out (c_fd c) w1 = sock_out (c_fd c) w @ y"
    and alt: "st = OK \<and> z = [] \<and> ar_response_done (r_par (c_req c1)) \<or>
      st = AGAIN \<and> z \<noteq> [] \<and> length (sock_answers (c_fd c) w) \<le> length y \<and> send_ready c1 w1 \<and> to_send c1 w1 = z \<or>
      st = ERROR \<and> \<not> ar_response_done (r_par (c_req c1)) \<and> Send_fail \<in> set (sock_answers (c_fd c) w)"
    unfolding stream_step_def by blast
  have fd: "c_fd c1 = c_fd c" "interest_ok c1 w1" "ob_ok (c_req c1)" "r_ib (c_req c1) = r_ib (c_req c)"
    "ar_keep_alive (r_par (c_req c1)) = ar_keep_alive (r_par (c_req c))" using same by (auto simp: same_conn_def)
  show ?thesis
  proof (cases "ar_response_done (r_par (c_req c1)) \<and> ar_keep_alive (r_par (c_req c1))")
    case True
    then have st: "st = OK" "z = []" using alt by (auto simp: send_ready_def)
    obtain r c' w' where r: "request_reset (c_req c1) = Some r"
      "(let (_, c2, w2) = connection_disable_out (c1\<lparr>c_req := r\<rparr>) w1 in connection_enable_in c2 w2) = (OK, c', w')"
      "idle c' w'" "c_fd c' = c_fd c1" "w' = w1\<lparr>k_epoll := k_epoll w'\<rparr>"
      using request_reset_idle [OF fd(2,3)] assms(2) fd(4) by auto
    have "response_handle c w = Some (st, c', w')"
      using loop True r(1,2) by (simp add: response_handle_def split: prod.splits)
    moreover have "sock_out (c_fd c) w' = sock_out (c_fd c) w1" by (subst r(5)) (simp add: sock_out_def)
    ultimately show ?thesis using st r(3,4) fd yz True by (auto simp: response_progress_def)
  next
    case False
    then have "response_handle c w = Some (if ar_response_done (r_par (c_req c1)) then ERROR else st, c1, w1)"
      using loop by (auto simp: response_handle_def)
    moreover have "response_progress c w (if ar_response_done (r_par (c_req c1)) then ERROR else st) c1 w1"
      using alt False fd yz unfolding response_progress_def by (auto simp: send_ready_def)
    ultimately show ?thesis by blast
  qed
qed

text \<open>
  The response over several calls: before each the kernel is ready for some more, and the calls go
  on as long as they return \<open>AGAIN\<close>.
\<close>

fun deliver :: "send_answer list list \<Rightarrow> conn \<Rightarrow> 'x world_scheme \<Rightarrow> (int \<times> conn \<times> 'x world_scheme) option" where
  "deliver [] c w = Some (AGAIN, c, w)"
| "deliver (as # ass) c w = do {
     (st, c, w) \<leftarrow> response_handle c (set_sock (c_fd c) as (sock_out (c_fd c) w) w);
     if st = AGAIN then deliver ass c w else Some (st, c, w)
   }"

lemma set_sock_ready:
  assumes "send_ready c w"
  shows "send_ready c (set_sock (c_fd c) as (sock_out (c_fd c) w) w)"
    and "to_send c (set_sock (c_fd c) as (sock_out (c_fd c) w) w) = to_send c w"
    and "sock_out (c_fd c) (set_sock (c_fd c) as (sock_out (c_fd c) w) w) = sock_out (c_fd c) w"
    and "sock_answers (c_fd c) (set_sock (c_fd c) as (sock_out (c_fd c) w) w) = as"
proof -
  obtain s where s: "sock_at (c_fd c) w = Some s" using assms by (auto simp: send_ready_def)
  note f = file_set_sock [of "c_req c" w "c_fd c" as "sock_out (c_fd c) w"]
  show "send_ready c (set_sock (c_fd c) as (sock_out (c_fd c) w) w)"
    using assms s f by (auto simp: send_ready_def interest_ok_def split: if_splits)
  show "to_send c (set_sock (c_fd c) as (sock_out (c_fd c) w) w) = to_send c w"
    using assms s f by (auto simp: to_send_def send_ready_def file_rest_def)
qed (use assms in \<open>auto simp: sock_out_def sock_answers_def send_ready_def\<close>)

lemma deliver_stream:
  assumes "send_ready c w" and "buffer_inv (r_ib (c_req c))" and "list_all (\<lambda>as. Send_fail \<notin> set as) ass"
  shows "\<exists>st c' w' y z. deliver ass c w = Some (st, c', w') \<and> to_send c w = y @ z \<and>
    sock_out (c_fd c) w' = sock_out (c_fd c) w @ y \<and>
    (if st = AGAIN then send_ready c' w' \<and> to_send c' w' = z \<and> length (concat ass) \<le> length y
     else z = [] \<and> st = (if ar_keep_alive (r_par (c_req c)) then OK else ERROR) \<and> (st = OK \<longrightarrow> idle c' w'))"
  using assms
proof (induction ass arbitrary: c w)
  case Nil
  then show ?case by auto
next
  case (Cons as ass)
  let ?w = "set_sock (c_fd c) as (sock_out (c_fd c) w) w"
  note ready = set_sock_ready [OF Cons.prems(1), of as]
  obtain st c1 w1 where r: "response_handle c ?w = Some (st, c1, w1)" "response_progress c ?w st c1 w1"
    using response_handle_progress [OF ready(1) Cons.prems(2)] by blast
  have nf: "Send_fail \<notin> set as" using Cons.prems(3) by simp
  obtain y z where yz: "to_send c w = y @ z" "sock_out (c_fd c) w1 = sock_out (c_fd c) w @ y" "c_fd c1 = c_fd c"
    "st = OK \<and> z = [] \<and> ar_keep_alive (r_par (c_req c)) \<and> idle c1 w1 \<or>
     st = ERROR \<and> z = [] \<and> \<not> ar_keep_alive (r_par (c_req c)) \<or>
     st = AGAIN \<and> length as \<le> length y \<and> send_ready c1 w1 \<and> to_send c1 w1 = z \<and>
       r_ib (c_req c1) = r_ib (c_req c) \<and> ar_keep_alive (r_par (c_req c1)) = ar_keep_alive (r_par (c_req c))"
    using r(2) nf unfolding response_progress_def ready by blast
  show ?case
  proof (cases "st = AGAIN")
    case False
    with r(1) yz show ?thesis by (intro exI [of _ st] exI [of _ c1] exI [of _ w1] exI [of _ y] exI [of _ z]) auto
  next
    case True
    then have c1: "send_ready c1 w1" "buffer_inv (r_ib (c_req c1))" "list_all (\<lambda>as. Send_fail \<notin> set as) ass"
      "to_send c1 w1 = z" "length as \<le> length y" "ar_keep_alive (r_par (c_req c1)) = ar_keep_alive (r_par (c_req c))"
      using yz(4) Cons.prems by auto
    obtain st' c' w' y' z' where IH: "deliver ass c1 w1 = Some (st', c', w')" "to_send c1 w1 = y' @ z'"
      "sock_out (c_fd c1) w' = sock_out (c_fd c1) w1 @ y'"
      "if st' = AGAIN then send_ready c' w' \<and> to_send c' w' = z' \<and> length (concat ass) \<le> length y'
       else z' = [] \<and> st' = (if ar_keep_alive (r_par (c_req c1)) then OK else ERROR) \<and> (st' = OK \<longrightarrow> idle c' w')"
      using Cons.IH [OF c1(1-3)] by blast
    show ?thesis
    proof (rule exI [of _ st'], rule exI [of _ c'], rule exI [of _ w'], rule exI [of _ "y @ y'"], rule exI [of _ z'], intro conjI)
      show "deliver (as # ass) c w = Some (st', c', w')" using r(1) True IH(1) by simp
    qed (use IH yz(1,2,3) c1(4-6) in \<open>auto split: if_splits\<close>)
  qed
qed

text \<open>
  C5. A response is delivered whole and in order, however the kernel takes it. Over any sequence of
  calls of \<open>response_handle\<close>, with any sizes of partial sends before each would-block, the bytes on
  the socket are at every moment a prefix of the head followed by the file; the calls return
  \<open>AGAIN\<close> exactly while bytes are left, and the rest stays pending; when none are left the
  connection is idle again (keep-alive) or is reported for closing. The loops end, and as each
  answer takes at least one byte the response is complete after at most as many answers as it has bytes.
\<close>
theorem response_delivered:
  assumes "send_ready c w" and "buffer_inv (r_ib (c_req c))" and "list_all (\<lambda>as. Send_fail \<notin> set as) ass"
  shows "\<exists>st c' w' y z. deliver ass c w = Some (st, c', w') \<and> to_send c w = y @ z \<and>
    sock_out (c_fd c) w' = sock_out (c_fd c) w @ y \<and>
    (if st = AGAIN then send_ready c' w' \<and> to_send c' w' = z \<and> length (concat ass) \<le> length y
     else z = [] \<and> st = (if ar_keep_alive (r_par (c_req c)) then OK else ERROR) \<and> (st = OK \<longrightarrow> idle c' w'))"
  by (rule deliver_stream [OF assms])

definition demo_conn :: conn where
  "demo_conn = \<lparr>c_fd = 5, c_events = EPOLLET OR EPOLLOUT, c_active_time = 0, c_heap_idx = 0, c_data_ptr = Some 0,
     c_req = (fresh_request 0 (buf_of []) (Some (buf_of ''head'')))
       \<lparr>r_resource_fd := 6, r_resource_size := 4\<rparr>\<rparr>"

definition demo_world :: world where
  "demo_world = \<lparr>k_fds = [(5, Fd_sock \<lparr>s_in = [], s_send = [], s_out = []\<rparr>), (6, Fd_file 1 0)],
     k_epoll = [5 \<mapsto> (EPOLLET OR EPOLLOUT, Some 0)], k_epoll_room = True, k_pending = [], k_namei = (\<lambda>_ _. None),
     k_inode = (\<lambda>_. Regular ''body''), k_now = 0, k_realloc = [], k_malloc = [], g_rootdir_fd = 3,
     g_status_table = (\<lambda>_. None), g_mime_dict = dict_init,
     g_err_page = \<lparr>err_page_fd = 4, raw_err_page = [], raw_page_size = 0, rendered_err_page = buf_of [],
        rendered_page_size = 0\<rparr>,
     w_header_dict = dict_init\<rparr>"

lemma demo_ready: "send_ready demo_conn demo_world" "buffer_inv (r_ib (c_req demo_conn))"
    "to_send demo_conn demo_world = ''headbody''" "sock_out 5 demo_world = []"
  using buf_of_ok [of "''head''"] buf_of_ok [of "[]"]
  by (simp_all add: demo_conn_def demo_world_def send_ready_def to_send_def head_rest_def file_rest_def head_ok_def
      file_ok_def ob_ok_def ob_text_def sock_at_def sock_out_def fd_lookup_def interest_ok_def event_of_def
      fresh_request_def parse_archive_init_def)

theorem response_delivered_witness:
  "\<exists>c w. deliver (replicate 9 [Send_some 0]) demo_conn demo_world = Some (ERROR, c, w) \<and>
     sock_out 5 w = ''headbody''"
proof -
  have fd: "c_fd demo_conn = 5" "\<not> ar_keep_alive (r_par (c_req demo_conn))"
    by (simp_all add: demo_conn_def fresh_request_def parse_archive_init_def)
  have "list_all (\<lambda>as. Send_fail \<notin> set as) (replicate 9 [Send_some 0])" by (simp add: list_all_iff)
  from response_delivered [OF demo_ready(1,2) this] obtain st c w y z where
    d: "deliver (replicate 9 [Send_some 0]) demo_conn demo_world = Some (st, c, w)" "''headbody'' = y @ z"
      "sock_out 5 w = y" "st = AGAIN \<longrightarrow> length (concat (replicate 9 [Send_some 0])) \<le> length y"
      "st \<noteq> AGAIN \<longrightarrow> z = [] \<and> st = ERROR"
    unfolding demo_ready fd(1) using fd(2) by (auto split: if_splits)
  have "length y \<le> 8" using arg_cong [OF d(2), of length] by simp
  then have "st \<noteq> AGAIN" using d(4) by (auto simp: eval_nat_numeral)
  then show ?thesis using d by auto
qed



end
