(* ===== verification/Frames.thy ===== *)
theory Frames
  imports Sending
begin

text \<open>
  What the handlers of one connection leave alone. Whatever its input, a call of \<open>request_handle\<close>
  or \<open>response_handle\<close> changes only its own connection, only its own entry of the epoll set, and
  of the descriptors only its socket, the file it is sending and files it opens itself. The server
  keeps many connections, and its invariants rest on this frame.
\<close>

section \<open>The frame\<close>

text \<open>Of the world only descriptors, the epoll set, the allocator and the rendered error page change.\<close>

definition world_frame :: "'x world_scheme \<Rightarrow> 'x world_scheme \<Rightarrow> bool" where
  "world_frame w w' \<longleftrightarrow> (\<exists>fds e rs ep. w' = w\<lparr>k_fds := fds, k_epoll := e, k_realloc := rs, g_err_page := ep\<rparr>)"

definition fds_frame :: "conn \<Rightarrow> 'x world_scheme \<Rightarrow> conn \<Rightarrow> 'x world_scheme \<Rightarrow> bool" where
  "fds_frame c w c' w' \<longleftrightarrow>
     (\<forall>f ob. fd_lookup w f = Some ob \<and> 0 \<le> f \<and> f \<noteq> c_fd c \<and> f \<noteq> r_resource_fd (c_req c) \<longrightarrow>
        fd_lookup w' f = Some ob \<and> f \<noteq> r_resource_fd (c_req c')) \<and>
     (sock_at (c_fd c) w \<noteq> None \<and> 0 \<le> c_fd c \<and> c_fd c \<noteq> r_resource_fd (c_req c) \<longrightarrow>
        sock_at (c_fd c) w' \<noteq> None \<and> c_fd c \<noteq> r_resource_fd (c_req c'))"

definition conn_frame :: "conn \<Rightarrow> 'x world_scheme \<Rightarrow> conn \<Rightarrow> 'x world_scheme \<Rightarrow> bool" where
  "conn_frame c w c' w' \<longleftrightarrow> (\<exists>ev r. c' = c\<lparr>c_events := ev, c_req := r\<rparr>) \<and> world_frame w w' \<and>
     (\<forall>f. f \<noteq> c_fd c \<longrightarrow> k_epoll w' f = k_epoll w f) \<and> fds_frame c w c' w'"

text \<open>
  The invariant of one connection: the kernel knows the events the connection has recorded, a
  connection that waits for input has a handler for it, and its resource is a file it holds open.
\<close>

definition res_ok :: "conn \<Rightarrow> 'x world_scheme \<Rightarrow> bool" where
  "res_ok c w \<longleftrightarrow> r_resource_fd (c_req c) = - 1 \<or>
     0 \<le> r_resource_fd (c_req c) \<and> (\<exists>i off. fd_lookup w (r_resource_fd (c_req c)) = Some (Fd_file i off))"

definition input_ok :: "conn \<Rightarrow> 'x world_scheme \<Rightarrow> bool" where
  "input_ok c w \<longleftrightarrow> interest_ok c w \<and> (CONN_IS_IN c \<longrightarrow> r_req_handler (c_req c) \<noteq> None)"

definition keeps_conn :: "conn \<Rightarrow> 'x world_scheme \<Rightarrow> conn \<Rightarrow> 'x world_scheme \<Rightarrow> bool" where
  "keeps_conn c w c' w' \<longleftrightarrow> conn_frame c w c' w' \<and> (input_ok c w \<longrightarrow> input_ok c' w') \<and> (res_ok c w \<longrightarrow> res_ok c' w')"

section \<open>Composition\<close>

lemma world_frame_refl: "world_frame w w"
proof -
  have "w = w\<lparr>k_fds := k_fds w, k_epoll := k_epoll w, k_realloc := k_realloc w, g_err_page := g_err_page w\<rparr>" by simp
  then show ?thesis unfolding world_frame_def by blast
qed

lemma world_frame_trans: "world_frame w w1 \<Longrightarrow> world_frame w1 w2 \<Longrightarrow> world_frame w w2"
  by (auto simp: world_frame_def) metis

lemma conn_frame_sel:
  "conn_frame c w c' w' \<Longrightarrow> c_fd c' = c_fd c \<and> c_active_time c' = c_active_time c \<and> c_heap_idx c' = c_heap_idx c \<and>
    c_data_ptr c' = c_data_ptr c"
  by (auto simp: conn_frame_def)

lemma conn_frame_refl: "conn_frame c w c w"
proof -
  have "c = c\<lparr>c_events := c_events c, c_req := c_req c\<rparr>" by simp
  then show ?thesis unfolding conn_frame_def fds_frame_def using world_frame_refl by blast
qed

lemma fds_frame_trans:
  assumes "fds_frame c w c1 w1" and "fds_frame c1 w1 c2 w2" and "c_fd c1 = c_fd c"
  shows "fds_frame c w c2 w2"
  using assms(1,2) unfolding fds_frame_def assms(3) by blast

lemma conn_frame_trans:
  assumes "conn_frame c w c1 w1" and "conn_frame c1 w1 c2 w2"
  shows "conn_frame c w c2 w2"
proof -
  have fd: "c_fd c1 = c_fd c" using conn_frame_sel [OF assms(1)] by simp
  obtain ev r ev' r' where "c1 = c\<lparr>c_events := ev, c_req := r\<rparr>" "c2 = c1\<lparr>c_events := ev', c_req := r'\<rparr>"
    using assms unfolding conn_frame_def by blast
  then have "c2 = c\<lparr>c_events := ev', c_req := r'\<rparr>" by simp
  then have "\<exists>ev r. c2 = c\<lparr>c_events := ev, c_req := r\<rparr>" by blast
  moreover have "world_frame w w2" using assms world_frame_trans by (auto simp: conn_frame_def)
  moreover have "fds_frame c w c2 w2" using assms fd fds_frame_trans unfolding conn_frame_def by blast
  ultimately show ?thesis using assms fd by (simp add: conn_frame_def)
qed

lemma keeps_conn_refl [simp]: "keeps_conn c w c w"
  by (simp add: keeps_conn_def conn_frame_refl)

lemma keeps_conn_trans [trans]: "keeps_conn c w c1 w1 \<Longrightarrow> keeps_conn c1 w1 c2 w2 \<Longrightarrow> keeps_conn c w c2 w2"
  using conn_frame_trans by (auto simp: keeps_conn_def)

text \<open>A handler, or a part of one, that keeps the connection whenever it returns.\<close>

definition kept_by :: "(conn \<Rightarrow> 'x world_scheme \<Rightarrow> (int \<times> conn \<times> 'x world_scheme) option) \<Rightarrow> bool" where
  "kept_by h \<longleftrightarrow> (\<forall>c w st c' w'. h c w = Some (st, c', w') \<longrightarrow> keeps_conn c w c' w')"

lemma kept_byD: "kept_by h \<Longrightarrow> h c w = Some (st, c', w') \<Longrightarrow> keeps_conn c w c' w'"
  by (simp add: kept_by_def)

section \<open>Small steps\<close>

text \<open>A step on the request that leaves its resource and its input handler, and the allocator.\<close>

lemma keeps_request:
  assumes "r_resource_fd r = r_resource_fd (c_req c)" and "r_req_handler r = r_req_handler (c_req c) \<or> r_req_handler r \<noteq> None"
  shows "keeps_conn c w (c\<lparr>c_req := r\<rparr>) (w\<lparr>k_realloc := rs\<rparr>)" and "keeps_conn c w (c\<lparr>c_req := r\<rparr>) w"
proof -
  have "c\<lparr>c_req := r\<rparr> = c\<lparr>c_events := c_events c, c_req := r\<rparr>"
    "w\<lparr>k_realloc := rs\<rparr> = w\<lparr>k_fds := k_fds w, k_epoll := k_epoll w, k_realloc := rs, g_err_page := g_err_page w\<rparr>" by simp_all
  then have c: "\<exists>ev r'. c\<lparr>c_req := r\<rparr> = c\<lparr>c_events := ev, c_req := r'\<rparr>" and w: "world_frame w (w\<lparr>k_realloc := rs\<rparr>)"
    unfolding world_frame_def by blast+
  have fd: "fd_lookup (w\<lparr>k_realloc := rs\<rparr>) = fd_lookup w" "sock_at fd (w\<lparr>k_realloc := rs\<rparr>) = sock_at fd w" for fd
    by (simp_all add: fd_lookup_def sock_at_def fun_eq_iff)
  show "keeps_conn c w (c\<lparr>c_req := r\<rparr>) (w\<lparr>k_realloc := rs\<rparr>)" "keeps_conn c w (c\<lparr>c_req := r\<rparr>) w"
    using c w assms fd world_frame_refl
    by (auto simp: keeps_conn_def conn_frame_def fds_frame_def input_ok_def res_ok_def interest_ok_def event_of_def CONN_IS_IN_def)
qed

lemma keeps_socket:
  assumes "sock_at (c_fd c) w = Some s"
  shows "keeps_conn c w c (fd_update (c_fd c) (Fd_sock s') w)"
proof -
  have w: "world_frame w (fd_update (c_fd c) (Fd_sock s') w)"
    unfolding world_frame_def fd_update_def
    by (rule exI [of _ "AList.update (c_fd c) (Fd_sock s') (k_fds w)"], rule exI [of _ "k_epoll w"], rule exI [of _ "k_realloc w"],
        rule exI [of _ "g_err_page w"]) simp
  have "conn_frame c w c (fd_update (c_fd c) (Fd_sock s') w)"
    using w conn_frame_refl [of c w] by (simp add: conn_frame_def fds_frame_def sock_at_def)
  moreover have "res_ok c w \<Longrightarrow> res_ok c (fd_update (c_fd c) (Fd_sock s') w)"
    using assms by (auto simp: res_ok_def sock_at_def)
  ultimately show ?thesis by (simp add: keeps_conn_def input_ok_def interest_ok_def)
qed

lemma sock_at_fd: "fd_lookup w fd = Some (Fd_sock s) \<Longrightarrow> sock_at fd w = Some s"
  by (simp add: sock_at_def)

lemma sys_recv_keeps: "sys_recv (c_fd c) n w = (x, w') \<Longrightarrow> keeps_conn c w c w'"
  by (auto simp: sys_recv_def split: option.splits fd_object.splits list.splits recv_answer.splits
      intro: keeps_socket [OF sock_at_fd])

lemma sys_send_keeps: "sys_send (c_fd c) x w = (r, w') \<Longrightarrow> keeps_conn c w c w'"
  by (auto simp: sys_send_def split: option.splits fd_object.splits sysret.splits prod.splits
      intro: keeps_socket [OF sock_at_fd])

lemma next_realloc_keeps: "next_realloc w = (ra, w') \<Longrightarrow> \<exists>rs. w' = w\<lparr>k_realloc := rs\<rparr>"
  by (cases "k_realloc w") (auto simp: next_realloc_def intro: exI [of _ "[]"])

section \<open>Receiving and parsing\<close>

lemma request_recv_keeps: "kept_by request_recv"
proof -
  have "keeps_conn c w (fst (snd y)) (snd (snd y))" if "request_recv c w = Some y" for c w and y :: "int \<times> conn \<times> 'x world_scheme"
  proof (rule request_recv.raw_induct [where P = "\<lambda>c w y. keeps_conn c w (fst (snd y)) (snd (snd y))", OF _ that])
    fix rec :: "conn \<Rightarrow> 'x world_scheme \<Rightarrow> (int \<times> conn \<times> 'x world_scheme) option" and c w y
    assume IH: "\<And>c w y. rec c w = Some y \<Longrightarrow> keeps_conn c w (fst (snd y)) (snd (snd y))"
      and eq: "(case sys_recv (c_fd c) 8192 w of
        (Ret x, w) \<Rightarrow>
          if x = [] then Some (OK, c, w)
          else do {
            let (ra, w) = next_realloc w;
            ib \<leftarrow> cat_keep ra (r_ib (c_req c)) x;
            rec (upd_req (\<lambda>r. r\<lparr>r_ib := ib\<rparr>) c) w
          }
      | (Eagain, w) \<Rightarrow> Some (AGAIN, c, w)
      | (Fail, w) \<Rightarrow> Some (ERROR, c, w)) = Some y"
    obtain x w1 where r: "sys_recv (c_fd c) 8192 w = (x, w1)" by fastforce
    note k = sys_recv_keeps [OF r]
    show "keeps_conn c w (fst (snd y)) (snd (snd y))"
    proof (cases "\<exists>b. x = Ret b \<and> b \<noteq> []")
      case False
      then show ?thesis using eq r k by (cases x) auto
    next
      case True
      then obtain b where b: "x = Ret b" "b \<noteq> []" by blast
      obtain ra w2 where ra: "next_realloc w1 = (ra, w2)" by fastforce
      obtain rs where rs: "w2 = w1\<lparr>k_realloc := rs\<rparr>" using next_realloc_keeps [OF ra] by blast
      obtain ib where "rec (upd_req (\<lambda>r. r\<lparr>r_ib := ib\<rparr>) c) w2 = Some y"
        using eq r b ra by (auto simp: bind_eq_Some_conv)
      note rest = IH [OF this]
      have "keeps_conn c w1 (upd_req (\<lambda>r. r\<lparr>r_ib := ib\<rparr>) c) w2" unfolding rs by (rule keeps_request) simp_all
      with k rest show ?thesis by (blast intro: keeps_conn_trans)
    qed
  qed
  then show ?thesis by (fastforce simp: kept_by_def)
qed

section \<open>Assembling responses\<close>

text \<open>A step on the output buffer: the resource and the handler stay, of the world the allocator and the page may change.\<close>

definition ob_frame :: "request_t \<Rightarrow> 'x globals_scheme \<Rightarrow> request_t \<Rightarrow> 'x globals_scheme \<Rightarrow> bool" where
  "ob_frame r g r' g' \<longleftrightarrow> r_resource_fd r' = r_resource_fd r \<and> r_req_handler r' = r_req_handler r \<and>
     (\<exists>rs ep. g' = g\<lparr>k_realloc := rs, g_err_page := ep\<rparr>)"

lemma ob_frame_trans: "ob_frame r g r1 g1 \<Longrightarrow> ob_frame r1 g1 r2 g2 \<Longrightarrow> ob_frame r g r2 g2"
  by (auto simp: ob_frame_def) metis

lemma cat_run_frame: "cat_run b ss g = Some (ob, g') \<Longrightarrow> \<exists>rs. g' = g\<lparr>k_realloc := rs\<rparr>"
proof (induction ss arbitrary: b g)
  case Nil
  then have "g' = g\<lparr>k_realloc := k_realloc g\<rparr>" by simp
  then show ?case ..
next
  case (Cons s ss)
  obtain ra g1 where ra: "next_realloc g = (ra, g1)" by fastforce
  have g1: "\<exists>rs. g1 = g\<lparr>k_realloc := rs\<rparr>" using ra by (cases "k_realloc g") (auto simp: next_realloc_def intro: exI [of _ "[]"])
  have "g' = g1 \<or> (\<exists>b'. cat_run b' ss g1 = Some (ob, g'))"
    using Cons.prems ra by (auto split: option.splits cat_result.splits if_splits)
  then show ?case
  proof
    assume "\<exists>b'. cat_run b' ss g1 = Some (ob, g')"
    then obtain rs where "g' = g1\<lparr>k_realloc := rs\<rparr>" using Cons.IH by blast
    with g1 have "g' = g\<lparr>k_realloc := rs\<rparr>" by auto
    then show ?thesis ..
  qed (use g1 in blast)
qed

lemma append_ob_frame: "append_ob ss r g = Some (r', g') \<Longrightarrow> ob_frame r g r' g'"
proof -
  assume "append_ob ss r g = Some (r', g')"
  then obtain b ob where "cat_run b ss g = Some (ob, g')" "r' = r\<lparr>r_ob := ob\<rparr>" by (auto simp: append_ob_def bind_eq_Some_conv)
  moreover from cat_run_frame [OF this(1)] obtain rs where "g' = g\<lparr>k_realloc := rs\<rparr>" by blast
  then have "g' = g\<lparr>k_realloc := rs, g_err_page := g_err_page g\<rparr>" by simp
  then have "\<exists>rs ep. g' = g\<lparr>k_realloc := rs, g_err_page := ep\<rparr>" by blast
  ultimately show ?thesis by (simp add: ob_frame_def)
qed

lemma date_frame: "response_append_date r g = Some (r', g') \<Longrightarrow> ob_frame r g r' g'"
proof -
  assume "response_append_date r g = Some (r', g')"
  then have "g' = g\<lparr>k_realloc := k_realloc g, g_err_page := g_err_page g\<rparr>" "r_resource_fd r' = r_resource_fd r \<and> r_req_handler r' = r_req_handler r"
    by (auto simp: response_append_date_def bind_eq_Some_conv Let_def split: if_splits)
  then show ?thesis unfolding ob_frame_def by blast
qed

lemma length_frame: "response_append_content_length r g = Some (r', g') \<Longrightarrow> ob_frame r g r' g'"
proof -
  assume "response_append_content_length r g = Some (r', g')"
  then obtain len g1 where 1: "(if ar_err_req (r_par r) then render_err_page r g else Some (r_resource_size r, g)) = Some (len, g1)"
    "append_ob [''Content-Length: '' @ dec len @ CRLF] r g1 = Some (r', g')"
    by (auto simp: response_append_content_length_def bind_eq_Some_conv)
  have "\<exists>ep. g1 = g\<lparr>k_realloc := k_realloc g, g_err_page := ep\<rparr>"
  proof (cases "ar_err_req (r_par r)")
    case True
    with 1(1) show ?thesis by (auto simp: render_err_page_def bind_eq_Some_conv Let_def)
  next
    case False
    with 1(1) have "g1 = g\<lparr>k_realloc := k_realloc g, g_err_page := g_err_page g\<rparr>" by simp
    then show ?thesis ..
  qed
  then have "ob_frame r g r g1" unfolding ob_frame_def by blast
  with append_ob_frame [OF 1(2)] show ?thesis by (rule ob_frame_trans [rotated])
qed

lemma line_frames:
  "response_append_status_line r g = Some (r', g') \<Longrightarrow> ob_frame r g r' g'"
  "response_append_server r g = Some (r', g') \<Longrightarrow> ob_frame r g r' g'"
  "response_append_content_type r g = Some (r', g') \<Longrightarrow> ob_frame r g r' g'"
  "response_append_connection r g = Some (r', g') \<Longrightarrow> ob_frame r g r' g'"
  "response_append_crlf r g = Some (r', g') \<Longrightarrow> ob_frame r g r' g'"
  using append_ob_frame
  by (auto simp: response_append_status_line_def response_append_server_def response_append_content_type_def
      response_append_connection_def response_append_crlf_def bind_eq_Some_conv)

lemma ob_frame_par: "ob_frame (r\<lparr>r_par := p\<rparr>) g r' g' = ob_frame r g r' g'"
  by (simp add: ob_frame_def)

lemma assemble_frame:
  assumes "response_assemble_buffer r w = Some (r', w')"
  shows "ob_frame r w r' w'"
proof -
  obtain r1 w1 r2 w2 r3 w3 r4 w4 r5 w5 r6 w6 where s:
    "response_append_status_line r w = Some (r1, w1)" "response_append_date r1 w1 = Some (r2, w2)"
    "response_append_server r2 w2 = Some (r3, w3)" "response_append_content_type r3 w3 = Some (r4, w4)"
    "response_append_content_length r4 w4 = Some (r5, w5)" "response_append_connection r5 w5 = Some (r6, w6)"
    "response_append_crlf r6 w6 = Some (r', w')"
    using assms by (auto simp: response_assemble_buffer_def bind_eq_Some_conv)
  note t = ob_frame_trans
  show ?thesis
    by (rule t [OF line_frames(1) [OF s(1)] t [OF date_frame [OF s(2)] t [OF line_frames(2) [OF s(3)]
      t [OF line_frames(3) [OF s(4)] t [OF length_frame [OF s(5)] t [OF line_frames(4) [OF s(6)] line_frames(5) [OF s(7)]]]]]]])
qed

lemma assemble_err_frame:
  assumes "assemble_err_text code r w = Some (r', w')"
  shows "r_resource_fd r' = r_resource_fd r \<and> r_req_handler r' = None \<and> (\<exists>rs ep. w' = w\<lparr>k_realloc := rs, g_err_page := ep\<rparr>)"
proof -
  let ?r = "r\<lparr>r_par := (r_par r)\<lparr>ar_err_req := True\<rparr>, r_status_code := code, r_req_handler := None\<rparr>"
  obtain r1 w1 r2 w2 r3 w3 r4 w4 r5 w5 r6 w6 r7 w7 p where s:
    "response_append_status_line ?r w = Some (r1, w1)" "response_append_date r1 w1 = Some (r2, w2)"
    "response_append_server r2 w2 = Some (r3, w3)" "response_append_content_type r3 w3 = Some (r4, w4)"
    "response_append_content_length r4 w4 = Some (r5, w5)"
    "response_append_connection (r5\<lparr>r_par := (r_par r5)\<lparr>ar_keep_alive := False\<rparr>\<rparr>) w5 = Some (r6, w6)"
    "response_append_crlf r6 w6 = Some (r7, w7)" "append_ob [p] r7 w7 = Some (r', w')"
    using assms by (auto simp: assemble_err_text_def bind_eq_Some_conv Let_def)
  note t = ob_frame_trans
  have "ob_frame ?r w r' w'"
    by (rule t [OF line_frames(1) [OF s(1)] t [OF date_frame [OF s(2)] t [OF line_frames(2) [OF s(3)]
      t [OF line_frames(3) [OF s(4)] t [OF length_frame [OF s(5)] t [OF line_frames(4) [OF s(6), unfolded ob_frame_par]
      t [OF line_frames(5) [OF s(7)] append_ob_frame [OF s(8)]]]]]]]])
  then show ?thesis by (simp add: ob_frame_def)
qed

section \<open>The epoll wrappers\<close>

lemma set_events_frame:
  assumes "set_events ev c w = (st, c', w')"
  shows "c' = c\<lparr>c_events := ev\<rparr>" and "conn_frame c w c' w'" and "res_ok c w \<Longrightarrow> res_ok c' w'"
    and "\<exists>e. w' = w\<lparr>k_epoll := e\<rparr> \<and> (\<forall>f. f \<noteq> c_fd c \<longrightarrow> e f = k_epoll w f)" and "interest_ok c w \<Longrightarrow> interest_ok c' w'"
proof -
  show c': "c' = c\<lparr>c_events := ev\<rparr>" using assms by (auto simp: set_events_def Let_def split: prod.splits)
  show w': "\<exists>e. w' = w\<lparr>k_epoll := e\<rparr> \<and> (\<forall>f. f \<noteq> c_fd c \<longrightarrow> e f = k_epoll w f)"
  proof (cases "k_epoll w (c_fd c) = None")
    case True
    then have "w' = w\<lparr>k_epoll := k_epoll w\<rparr>" using assms by (auto simp: set_events_def epoll_ctl_def Let_def)
    then show ?thesis by blast
  next
    case False
    then show ?thesis using assms by (auto simp: set_events_def epoll_ctl_def Let_def event_of_def)
  qed
  show i: "interest_ok c w \<Longrightarrow> interest_ok c' w'"
    using assms by (auto simp: set_events_eq interest_ok_def event_of_def)
  then obtain e where e: "w' = w\<lparr>k_epoll := e\<rparr>" "\<forall>f. f \<noteq> c_fd c \<longrightarrow> e f = k_epoll w f" using w' by blast
  have "w' = w\<lparr>k_fds := k_fds w, k_epoll := e, k_realloc := k_realloc w, g_err_page := g_err_page w\<rparr>" using e(1) by simp
  then have "world_frame w w'" unfolding world_frame_def by blast
  moreover have "c' = c\<lparr>c_events := ev, c_req := c_req c\<rparr>" using c' by simp
  then have "\<exists>ev r. c' = c\<lparr>c_events := ev, c_req := r\<rparr>" by blast
  ultimately show "conn_frame c w c' w'" using e c' by (auto simp: conn_frame_def fds_frame_def)
  show "res_ok c w \<Longrightarrow> res_ok c' w'" using c' e(1) by (auto simp: res_ok_def)
qed

lemma wrapper_cases:
  "connection_enable_in c w = (OK, c, w) \<and> bit (c_events c) 0 \<or> connection_enable_in c w = set_events (c_events c OR EPOLLIN) c w"
  "connection_disable_in c w = (OK, c, w) \<and> \<not> bit (c_events c) 0 \<or> connection_disable_in c w = set_events (c_events c AND NOT EPOLLIN) c w"
  "connection_enable_out c w = (OK, c, w) \<and> bit (c_events c) 2 \<or> connection_enable_out c w = set_events (c_events c OR EPOLLOUT) c w"
  "connection_disable_out c w = (OK, c, w) \<and> \<not> bit (c_events c) 2 \<or> connection_disable_out c w = set_events (c_events c AND NOT EPOLLOUT) c w"
  by (auto simp: connection_enable_in_def connection_disable_in_def connection_enable_out_def connection_disable_out_def
      is_in_bit is_out_bit)

definition same_but_events :: "conn \<Rightarrow> 'x world_scheme \<Rightarrow> conn \<Rightarrow> 'x world_scheme \<Rightarrow> bool" where
  "same_but_events c w c' w' \<longleftrightarrow> conn_frame c w c' w' \<and> (res_ok c w \<longrightarrow> res_ok c' w') \<and> (interest_ok c w \<longrightarrow> interest_ok c' w') \<and>
     c_req c' = c_req c"

lemma set_events_same: "set_events ev c w = (st, c', w') \<Longrightarrow> same_but_events c w c' w' \<and> c_events c' = ev"
  using set_events_frame [of ev c w st c' w'] by (simp add: same_but_events_def)

lemma wrappers_same:
  "connection_enable_in c w = (st, c', w') \<Longrightarrow> same_but_events c w c' w' \<and> bit (c_events c') 0"
  "connection_disable_in c w = (st, c', w') \<Longrightarrow> same_but_events c w c' w' \<and> \<not> bit (c_events c') 0"
  "connection_enable_out c w = (st, c', w') \<Longrightarrow> same_but_events c w c' w' \<and> bit (c_events c') 0 = bit (c_events c) 0"
  "connection_disable_out c w = (st, c', w') \<Longrightarrow> same_but_events c w c' w' \<and> bit (c_events c') 0 = bit (c_events c) 0"
  using wrapper_cases [of c w] set_events_same [of _ c w st c' w'] conn_frame_refl [of c w] mask_bits
  by (auto simp: same_but_events_def)

lemma same_but_events_trans: "same_but_events c w c1 w1 \<Longrightarrow> same_but_events c1 w1 c2 w2 \<Longrightarrow> same_but_events c w c2 w2"
  using conn_frame_trans by (auto simp: same_but_events_def)

text \<open>The two calls every complete request ends with.\<close>

lemma to_output_same:
  assumes "connection_disable_in c w = (st, c1, w1)" and "connection_enable_out c1 w1 = (st', c2, w2)"
  shows "same_but_events c w c2 w2" and "\<not> CONN_IS_IN c2"
  using wrappers_same(2) [OF assms(1)] wrappers_same(3) [OF assms(2)] same_but_events_trans by (auto simp: is_in_bit)

section \<open>The request handlers\<close>

lemma frame_request:
  assumes "r_resource_fd r = r_resource_fd (c_req c)" and "w' = w\<lparr>k_realloc := rs, g_err_page := ep\<rparr>"
  shows "conn_frame c w (c\<lparr>c_req := r\<rparr>) w'" and "res_ok c w \<Longrightarrow> res_ok (c\<lparr>c_req := r\<rparr>) w'"
    and "interest_ok (c\<lparr>c_req := r\<rparr>) w' = interest_ok c w"
proof -
  have "c\<lparr>c_req := r\<rparr> = c\<lparr>c_events := c_events c, c_req := r\<rparr>"
    "w' = w\<lparr>k_fds := k_fds w, k_epoll := k_epoll w, k_realloc := rs, g_err_page := ep\<rparr>" using assms by simp_all
  then have c: "\<exists>ev r'. c\<lparr>c_req := r\<rparr> = c\<lparr>c_events := ev, c_req := r'\<rparr>" and w: "world_frame w w'"
    unfolding world_frame_def by blast+
  have fd: "fd_lookup w' = fd_lookup w" "sock_at fd w' = sock_at fd w" for fd
    by (simp_all add: assms fd_lookup_def sock_at_def fun_eq_iff)
  show "conn_frame c w (c\<lparr>c_req := r\<rparr>) w'" "res_ok c w \<Longrightarrow> res_ok (c\<lparr>c_req := r\<rparr>) w'"
    "interest_ok (c\<lparr>c_req := r\<rparr>) w' = interest_ok c w"
    using c w assms fd by (auto simp: conn_frame_def fds_frame_def res_ok_def interest_ok_def event_of_def)
qed

lemma err_buffer_keeps: "kept_by (response_assemble_err_buffer code)"
  unfolding kept_by_def
proof (intro allI impI)
  fix c w st c' w' assume h: "response_assemble_err_buffer code c w = Some (st, c', w')"
  then obtain r w1 where s1: "assemble_err_text code (c_req c) w = Some (r, w1)"
    by (auto simp: response_assemble_err_buffer_def with_req_def bind_eq_Some_conv)
  obtain st1 c2 w2 st2 c3 w3 where s2: "connection_disable_in (c\<lparr>c_req := r\<rparr>) w1 = (st1, c2, w2)"
    "connection_enable_out c2 w2 = (st2, c3, w3)" by (metis prod_cases3)
  have s: "c' = upd_par (\<lambda>ar. ar\<lparr>ar_response_done := True\<rparr>) c3" "w' = w3"
    using h s1 s2 by (simp_all add: response_assemble_err_buffer_def with_req_def)
  obtain rs ep where r: "r_resource_fd r = r_resource_fd (c_req c)" "w1 = w\<lparr>k_realloc := rs, g_err_page := ep\<rparr>"
    using assemble_err_frame [OF s1] by blast
  note f1 = frame_request [OF r]
  note f2 = to_output_same [OF s2]
  have f3: "keeps_conn c3 w3 c' w'" unfolding s by (rule keeps_request) simp_all
  have "conn_frame c w c3 w3" "res_ok c w \<longrightarrow> res_ok c3 w3" "input_ok c w \<longrightarrow> input_ok c3 w3"
    using f1 f2 conn_frame_trans by (auto simp: same_but_events_def input_ok_def)
  then have "keeps_conn c w c3 w3" by (simp add: keeps_conn_def)
  then show "keeps_conn c w c' w'" using f3 by (rule keeps_conn_trans)
qed

text \<open>A new resource: it is fresh, and everything else stays open.\<close>

lemma keeps_resource:
  assumes "\<And>g ob. fd_lookup w g = Some ob \<Longrightarrow> 0 \<le> g \<Longrightarrow> g \<noteq> r_resource_fd r \<and> fd_lookup (w\<lparr>k_fds := fds\<rparr>) g = Some ob"
    and "r_resource_fd r = - 1 \<or> 0 \<le> r_resource_fd r \<and> (\<exists>i off. fd_lookup (w\<lparr>k_fds := fds\<rparr>) (r_resource_fd r) = Some (Fd_file i off))"
    and "r_req_handler r \<noteq> None"
  shows "keeps_conn c w (c\<lparr>c_req := r\<rparr>) (w\<lparr>k_fds := fds\<rparr>)"
proof -
  have "c\<lparr>c_req := r\<rparr> = c\<lparr>c_events := c_events c, c_req := r\<rparr>"
    "w\<lparr>k_fds := fds\<rparr> = w\<lparr>k_fds := fds, k_epoll := k_epoll w, k_realloc := k_realloc w, g_err_page := g_err_page w\<rparr>" by simp_all
  then have c: "\<exists>ev r'. c\<lparr>c_req := r\<rparr> = c\<lparr>c_events := ev, c_req := r'\<rparr>" and w: "world_frame w (w\<lparr>k_fds := fds\<rparr>)"
    unfolding world_frame_def by blast+
  have "fds_frame c w (c\<lparr>c_req := r\<rparr>) (w\<lparr>k_fds := fds\<rparr>)"
    using assms(1) sock_at_lookup unfolding fds_frame_def by fastforce
  then show ?thesis using c w assms(2,3)
    by (auto simp: keeps_conn_def conn_frame_def input_ok_def res_ok_def interest_ok_def event_of_def CONN_IS_IN_def)
qed

lemma sys_openat_cases:
  assumes "sys_openat d path w = (f, w')"
  shows "f = ERROR \<and> w' = w \<or> (\<exists>i. f = new_fd w \<and> w' = fd_update (new_fd w) (Fd_file i 0) w)"
  using assms by (auto simp: sys_openat_def split: option.splits fd_object.splits)

lemma open_resource_keeps: "kept_by (open_resource path)"
  unfolding kept_by_def
proof (intro allI impI)
  fix c and w :: "'x world_scheme" and st c' w' assume h: "open_resource path c w = Some (st, c', w')"
  obtain f w1 where f: "sys_openat (g_rootdir_fd w) path w = (f, w1)" by fastforce
  show "keeps_conn c w c' w'"
  proof (cases "f = ERROR")
    case True
    then have "response_assemble_err_buffer 404 c w = Some (st, c', w')" using sys_openat_cases [OF f] h f new_fd_nonneg(1) [of w] by (auto simp: open_resource_def)
    with err_buffer_keeps show ?thesis by (rule kept_byD)
  next
    case False
    then obtain i where i: "f = new_fd w" "w1 = fd_update (new_fd w) (Fd_file i 0) w" using sys_openat_cases [OF f] by auto
    obtain d n where st1: "sys_fstat f w1 = Some (d, n)" using i by (cases "k_inode w i") (auto simp: sys_fstat_def)
    have new: "g \<noteq> new_fd w" if "fd_lookup w g = Some ob" for g ob using that new_fd_fresh [of w] by auto
    show ?thesis
    proof (cases d)
      case False
      let ?r = "(c_req c)\<lparr>r_resource_fd := f, r_resource_size := to_int32 n, r_req_handler := Some request_handle_headers_h\<rparr>"
      have "c' = c\<lparr>c_req := ?r\<rparr>" "w' = w\<lparr>k_fds := k_fds w1\<rparr>"
        using h f \<open>f \<noteq> ERROR\<close> False st1 i by (auto simp: open_resource_def fd_update_def)
      moreover have "fd_lookup (w\<lparr>k_fds := k_fds w1\<rparr>) = (fd_lookup w)(f \<mapsto> Fd_file i 0)"
        unfolding i fd_lookup_update [symmetric] by (rule fd_lookup_cong) (simp add: fd_update_def)
      ultimately show ?thesis using i new_fd_fresh [of w] by (auto intro!: keeps_resource)
    next
      case True
      obtain g w2 where g: "sys_openat f ''index.html'' w1 = (g, w2)" by fastforce
      let ?w = "close_fd f w2"
      obtain e n' where r: "c' = c\<lparr>c_req := (c_req c)\<lparr>r_par := e, r_resource_fd := g, r_resource_size := n',
          r_req_handler := Some request_handle_headers_h\<rparr>\<rparr>" "w' = ?w"
        using h f \<open>f \<noteq> ERROR\<close> True st1 g by (auto simp: open_resource_def bind_eq_Some_conv Let_def)
      have w2: "g = ERROR \<and> w2 = w1 \<or> (\<exists>j. g = new_fd w1 \<and> g \<noteq> f \<and> w2 = fd_update g (Fd_file j 0) w1)"
        using sys_openat_cases [OF g] new_fd_fresh [of w1] i by auto
      then have fds: "?w = w\<lparr>k_fds := k_fds ?w\<rparr>" using i by (auto simp: fd_update_def close_fd_def)
      have old: "h \<noteq> g \<and> fd_lookup ?w h = Some ob" if "fd_lookup w h = Some ob" "0 \<le> h" for h ob
        using w2 new [OF that(1)] new_fd_fresh [of w1] that i by auto
      have "g = - 1 \<or> 0 \<le> g \<and> (\<exists>j off. fd_lookup ?w g = Some (Fd_file j off))" using w2 by auto
      then show ?thesis unfolding r using old by (subst fds, intro keeps_resource) (simp_all flip: fds)
    qed
  qed
qed

lemma keeps_par: "keeps_conn c w (upd_par f c) w"
  by (rule keeps_request) simp_all

lemma hd_base_keeps: "keeps_conn c w (request_handle_hd_base off c) w"
  unfolding request_handle_hd_base_def by (rule keeps_par)

lemma hd_connection_keeps: "kept_by (request_handle_hd_connection off)"
  unfolding kept_by_def
proof (intro allI impI)
  fix c w st c' w' assume h: "request_handle_hd_connection off c w = Some (st, c', w')"
  let ?c = "request_handle_hd_base off c"
  have "(\<exists>f. c' = upd_par f ?c \<and> w' = w) \<or> response_assemble_err_buffer 400 ?c w = Some (st, c', w')"
    using h by (auto simp: request_handle_hd_connection_def bind_eq_Some_conv Let_def split: if_splits)
  then have "keeps_conn ?c w c' w'" using keeps_par err_buffer_keeps [THEN kept_byD] by blast
  with hd_base_keeps show "keeps_conn c w c' w'" by (rule keeps_conn_trans)
qed

lemma hd_content_length_keeps: "kept_by (request_handle_hd_content_length off)"
  unfolding kept_by_def
proof (intro allI impI)
  fix c w st c' w' assume h: "request_handle_hd_content_length off c w = Some (st, c', w')"
  let ?c = "request_handle_hd_base off c"
  have "(\<exists>f. c' = upd_par f ?c \<and> w' = w) \<or> response_assemble_err_buffer 400 ?c w = Some (st, c', w')"
    using h by (auto simp: request_handle_hd_content_length_def bind_eq_Some_conv Let_def split: if_splits)
  then have "keeps_conn ?c w c' w'" using keeps_par err_buffer_keeps [THEN kept_byD] by blast
  with hd_base_keeps show "keeps_conn c w c' w'" by (rule keeps_conn_trans)
qed

lemma hd_transfer_encoding_keeps: "kept_by (request_handle_hd_transfer_encoding off)"
  unfolding kept_by_def
proof (intro allI impI)
  fix c w st c' w' assume h: "request_handle_hd_transfer_encoding off c w = Some (st, c', w')"
  let ?c = "request_handle_hd_base off c"
  obtain te where te: "(case te of
       Some t \<Rightarrow> response_assemble_err_buffer 501 (upd_par (\<lambda>ar. ar\<lparr>ar_transfer_encoding := t\<rparr>) ?c) w
     | None \<Rightarrow> response_assemble_err_buffer 400 ?c w) = Some (st, c', w')"
    using h by (auto simp: request_handle_hd_transfer_encoding_def bind_eq_Some_conv Let_def)
  have "keeps_conn ?c w c' w'"
  proof (cases te)
    case None
    with te have "response_assemble_err_buffer 400 ?c w = Some (st, c', w')" by simp
    then show ?thesis by (rule kept_byD [OF err_buffer_keeps])
  next
    case (Some t)
    then have "response_assemble_err_buffer 501 (upd_par (\<lambda>ar. ar\<lparr>ar_transfer_encoding := t\<rparr>) ?c) w = Some (st, c', w')" using te by simp
    from keeps_par kept_byD [OF err_buffer_keeps this] show ?thesis by (rule keeps_conn_trans)
  qed
  with hd_base_keeps show "keeps_conn c w c' w'" by (rule keeps_conn_trans)
qed

lemma hd_method_keeps: "kept_by (call_hd_method h off)"
  using hd_base_keeps hd_connection_keeps [of off] hd_content_length_keeps [of off] hd_transfer_encoding_keeps [of off]
  by (cases h) (auto simp: kept_by_def call_hd_method_def)

lemma ib_bytes_frame: "ib_bytes m r = Some r' \<Longrightarrow> r_resource_fd r' = r_resource_fd r \<and> r_req_handler r' = r_req_handler r"
  by (auto simp: ib_bytes_def)

lemma one_header_keeps: "kept_by handle_one_header"
  unfolding kept_by_def
proof (intro allI impI)
  fix c w st c' w' assume "handle_one_header c w = Some (st, c', w')"
  then obtain m r and hf :: "header_func option" where s: "ib_bytes m (c_req c) = Some r" "(case hf of None \<Rightarrow> Some (OK, c\<lparr>c_req := r\<rparr>, w)
     | Some h \<Rightarrow> call_hd_method (hf_func h) (hf_offset h) (c\<lparr>c_req := r\<rparr>) w) = Some (st, c', w')"
    by (auto simp: handle_one_header_def bind_eq_Some_conv Let_def)
  have k: "keeps_conn c w (c\<lparr>c_req := r\<rparr>) w" using ib_bytes_frame [OF s(1)] by (intro keeps_request) auto
  moreover have "keeps_conn (c\<lparr>c_req := r\<rparr>) w c' w'"
  proof (cases hf)
    case None
    then show ?thesis using s(2) by auto
  next
    case (Some h)
    then have "call_hd_method (hf_func h) (hf_offset h) (c\<lparr>c_req := r\<rparr>) w = Some (st, c', w')" using s(2) by simp
    then show ?thesis by (rule kept_byD [OF hd_method_keeps])
  qed
  ultimately show "keeps_conn c w c' w'" by (rule keeps_conn_trans)
qed

text \<open>The loops, by induction on their unfoldings.\<close>

lemma if_chain: "(if a then x1 else if b then x2 else if c then x3 else if d then x4 else x5) = z \<Longrightarrow>
    x1 = z \<or> x2 = z \<or> x3 = z \<or> x4 = z \<or> x5 = z"
  by (auto split: if_splits)

lemma headers_keep: "kept_by request_handle_headers"
proof -
  have "keeps_conn c w (fst (snd y)) (snd (snd y))" if "request_handle_headers c w = Some y" for c w and y :: "int \<times> conn \<times> 'x world_scheme"
  proof (rule request_handle_headers.raw_induct [where P = "\<lambda>c w y. keeps_conn c w (fst (snd y)) (snd (snd y))", OF _ that])
    fix rec :: "conn \<Rightarrow> 'x world_scheme \<Rightarrow> (int \<times> conn \<times> 'x world_scheme) option" and c w y
    assume IH: "\<And>c w y. rec c w = Some y \<Longrightarrow> keeps_conn c w (fst (snd y)) (snd (snd y))"
      and eq: "do {
       (status, ar) \<leftarrow> parse_header_line (r_ib_at (c_req c)) (r_ib (c_req c)) (r_par (c_req c));
       let c = upd_req (\<lambda>r. r\<lparr>r_par := ar\<rparr>) c;
       if status = AGAIN then Some (AGAIN, c, w)
       else if status = INVALID_REQUEST then response_assemble_err_buffer 400 c w
       else if status = CRLF_LINE then
         Some (OK, upd_req (\<lambda>r. r\<lparr>r_req_handler := Some request_handle_body_h\<rparr>) c, w)
       else if status = OK then do {
         (status, c, w) \<leftarrow> handle_one_header c w;
         if status \<noteq> OK then Some (OK, c, w) else rec c w
       }
       else rec c w
     } = Some y"
    then obtain st ar where p: "parse_header_line (r_ib_at (c_req c)) (r_ib (c_req c)) (r_par (c_req c)) = Some (st, ar)"
      by (auto simp: bind_eq_Some_conv)
    let ?c = "upd_req (\<lambda>r. r\<lparr>r_par := ar\<rparr>) c"
    have k: "keeps_conn c w ?c w" by (rule keeps_request) simp_all
    have eq': "(if st = AGAIN then Some (AGAIN, ?c, w)
       else if st = INVALID_REQUEST then response_assemble_err_buffer 400 ?c w
       else if st = CRLF_LINE then Some (OK, upd_req (\<lambda>r. r\<lparr>r_req_handler := Some request_handle_body_h\<rparr>) ?c, w)
       else if st = OK then handle_one_header ?c w \<bind> (\<lambda>(status, c, w). if status \<noteq> OK then Some (OK, c, w) else rec c w)
       else rec ?c w) = Some y" using eq p by (simp add: Let_def)
    from if_chain [OF eq'] consider "Some (AGAIN, ?c, w) = Some y" | "response_assemble_err_buffer 400 ?c w = Some y"
      | "Some (OK, upd_req (\<lambda>r. r\<lparr>r_req_handler := Some request_handle_body_h\<rparr>) ?c, w) = Some y"
      | "handle_one_header ?c w \<bind> (\<lambda>(status, c, w). if status \<noteq> OK then Some (OK, c, w) else rec c w) = Some y"
      | "rec ?c w = Some y" by blast
    then have "keeps_conn ?c w (fst (snd y)) (snd (snd y))"
    proof cases
      case 2
      then show ?thesis using kept_byD [OF err_buffer_keeps, of 400 ?c w "fst y" "fst (snd y)" "snd (snd y)"] by simp
    next
      case 3
      have "keeps_conn ?c w (upd_req (\<lambda>r. r\<lparr>r_req_handler := Some request_handle_body_h\<rparr>) ?c) w" by (rule keeps_request) simp_all
      with 3 show ?thesis by auto
    next
      case 4
      then obtain st1 c1 w1 where 1: "handle_one_header ?c w = Some (st1, c1, w1)" "(if st1 \<noteq> OK then Some (OK, c1, w1) else rec c1 w1) = Some y"
        by (auto simp: bind_eq_Some_conv)
      have "keeps_conn c1 w1 (fst (snd y)) (snd (snd y))" using 1(2) IH [of c1 w1 y] by (auto split: if_splits)
      with kept_byD [OF one_header_keeps 1(1)] show ?thesis by (rule keeps_conn_trans)
    qed (use IH in auto)
    with k show "keeps_conn c w (fst (snd y)) (snd (snd y))" by (rule keeps_conn_trans)
  qed
  then show ?thesis by (fastforce simp: kept_by_def)
qed

lemma relative_path_frame:
  "relative_path r = Some (p, r') \<Longrightarrow> r_resource_fd r' = r_resource_fd r \<and> r_req_handler r' = r_req_handler r"
  by (auto simp: relative_path_def bind_eq_Some_conv Let_def dest!: ib_bytes_frame)

lemma request_line_keeps: "kept_by request_handle_request_line"
  unfolding kept_by_def
proof (intro allI impI)
  fix c and w :: "'x world_scheme" and st c' w' assume h: "request_handle_request_line c w = Some (st, c', w')"
  then obtain st1 ar where p: "parse_request_line (r_ib_at (c_req c)) (r_ib (c_req c)) (r_par (c_req c)) = Some (st1, ar)"
    by (auto simp: request_handle_request_line_def bind_eq_Some_conv Let_def)
  let ?c = "upd_req (\<lambda>r. r\<lparr>r_par := ar\<rparr>) c" let ?v = "ar_version ar"
  let ?c2 = "upd_par (\<lambda>ar. ar\<lparr>ar_keep_alive := (http_major (ar_version ar) = 1 \<and> http_minor (ar_version ar) = 1)\<rparr>) ?c"
  have k: "keeps_conn c w ?c w" by (rule keeps_request) simp_all
  have eq: "(if st1 = AGAIN then Some (AGAIN, ?c, w) else if st1 \<noteq> OK then response_assemble_err_buffer 400 ?c w
     else if http_major ?v > 1 \<or> http_minor ?v > 1 then response_assemble_err_buffer 505 ?c w
     else relative_path (c_req ?c2) \<bind> (\<lambda>(path, r). open_resource path (?c2\<lparr>c_req := r\<rparr>) w)) = Some (st, c', w')"
    using h unfolding request_handle_request_line_def by (simp only: Let_def p bind.simps prod.case)
  consider "Some (AGAIN, ?c, w) = Some (st, c', w')" | "response_assemble_err_buffer 400 ?c w = Some (st, c', w')"
    | "response_assemble_err_buffer 505 ?c w = Some (st, c', w')"
    | "relative_path (c_req ?c2) \<bind> (\<lambda>(path, r). open_resource path (?c2\<lparr>c_req := r\<rparr>) w) = Some (st, c', w')"
    using if_chain [of _ _ _ _ _ _ False "Some (AGAIN, ?c, w)"] eq by meson
  then have "keeps_conn ?c w c' w'"
  proof cases
    case 4
    then obtain path r where r: "relative_path (c_req ?c2) = Some (path, r)" "open_resource path (?c2\<lparr>c_req := r\<rparr>) w = Some (st, c', w')"
      by (auto simp: bind_eq_Some_conv)
    have "keeps_conn ?c w ?c2 w" by (rule keeps_par)
    also have "keeps_conn ?c2 w (?c2\<lparr>c_req := r\<rparr>) w"
      using relative_path_frame [OF r(1)] by (intro keeps_request(2)) blast+
    also have "keeps_conn (?c2\<lparr>c_req := r\<rparr>) w c' w'" by (rule kept_byD [OF open_resource_keeps r(2)])
    finally show ?thesis .
  qed (auto intro: kept_byD [OF err_buffer_keeps])
  with k show "keeps_conn c w c' w'" by (rule keeps_conn_trans)
qed

lemma body_keeps: "kept_by request_handle_body"
  unfolding kept_by_def
proof (intro allI impI)
  fix c and w :: "'x world_scheme" and st c' w' assume h: "request_handle_body c w = Some (st, c', w')"
  then obtain st1 ar where p: "(if ar_transfer_encoding (r_par (c_req c)) = TE_IDENTITY
        then parse_header_body_identity (r_ib_at (c_req c)) (r_ib (c_req c)) (r_par (c_req c))
        else Some (ERROR, r_par (c_req c))) = Some (st1, ar)"
    by (auto simp: request_handle_body_def bind_eq_Some_conv Let_def)
  let ?c = "upd_req (\<lambda>r. r\<lparr>r_par := ar\<rparr>) c"
  obtain st2 c2 w2 st3 c3 w3 where ep: "connection_disable_in ?c w = (st2, c2, w2)" "connection_enable_out c2 w2 = (st3, c3, w3)"
    by (metis prod_cases3)
  let ?c3 = "upd_req (\<lambda>r. r\<lparr>r_req_handler := None\<rparr>) c3"
  have eq: "(if st1 = AGAIN then Some (AGAIN, ?c, w)
     else if st1 = OK then with_req response_assemble_buffer ?c3 w3 \<bind> (\<lambda>(c, w). Some (OK, c, w))
     else response_assemble_err_buffer 501 ?c w) = Some (st, c', w')"
    using h unfolding request_handle_body_def by (simp only: Let_def p ep bind.simps prod.case)
  consider "Some (AGAIN, ?c, w) = Some (st, c', w')" | "response_assemble_err_buffer 501 ?c w = Some (st, c', w')"
    | "with_req response_assemble_buffer ?c3 w3 \<bind> (\<lambda>(c, w). Some (OK, c, w)) = Some (st, c', w')"
    using eq by meson
  then have "keeps_conn ?c w c' w'"
  proof cases
    case 3
    then obtain r where r: "response_assemble_buffer (c_req ?c3) w3 = Some (r, w')" "c' = c3\<lparr>c_req := r\<rparr>"
      by (auto simp: with_req_def bind_eq_Some_conv)
    have f: "r_resource_fd r = r_resource_fd (c_req c3)" "\<exists>rs ep. w' = w3\<lparr>k_realloc := rs, g_err_page := ep\<rparr>"
      using assemble_frame [OF r(1)] by (auto simp: ob_frame_def)
    then obtain rs ep where w': "w' = w3\<lparr>k_realloc := rs, g_err_page := ep\<rparr>" by blast
    note s = to_output_same [OF ep]
    have "conn_frame ?c w c3 w3" "conn_frame c3 w3 c' w'" using s(1) frame_request(1) [OF f(1) w'] by (simp_all add: same_but_events_def r(2))
    moreover have "res_ok ?c w \<Longrightarrow> res_ok c' w'" "interest_ok ?c w \<Longrightarrow> interest_ok c' w'" "\<not> CONN_IS_IN c'"
      using s frame_request(2,3) [OF f(1) w'] by (auto simp: same_but_events_def r(2) CONN_IS_IN_def)
    ultimately show ?thesis using conn_frame_trans by (auto simp: keeps_conn_def input_ok_def)
  qed (auto intro: kept_byD [OF err_buffer_keeps])
  moreover have "keeps_conn c w ?c w" by (rule keeps_request) simp_all
  ultimately show "keeps_conn c w c' w'" using keeps_conn_trans by blast
qed

lemma req_handlers_keep: "kept_by (call_req_handler h)"
  using request_line_keeps headers_keep body_keeps by (cases h) (auto simp: kept_by_def call_req_handler_def)

lemma req_loop_keeps: "kept_by req_handler_loop"
proof -
  have "keeps_conn c w (fst (snd y)) (snd (snd y))" if "req_handler_loop c w = Some y" for c w and y :: "int \<times> conn \<times> 'x world_scheme"
  proof (rule req_handler_loop.raw_induct [where P = "\<lambda>c w y. keeps_conn c w (fst (snd y)) (snd (snd y))", OF _ that])
    fix rec :: "conn \<Rightarrow> 'x world_scheme \<Rightarrow> (int \<times> conn \<times> 'x world_scheme) option" and c w y
    assume IH: "\<And>c w y. rec c w = Some y \<Longrightarrow> keeps_conn c w (fst (snd y)) (snd (snd y))"
      and "do {
        h \<leftarrow> r_req_handler (c_req c);
        (status, c, w) \<leftarrow> call_req_handler h c w;
        if r_req_handler (c_req c) \<noteq> None \<and> status = OK then rec c w
        else Some (status, c, w)
      } = Some y"
    then obtain h st1 c1 w1 where 1: "call_req_handler h c w = Some (st1, c1, w1)" "rec c1 w1 = Some y \<or> y = (st1, c1, w1)"
      by (auto simp: bind_eq_Some_conv split: if_splits)
    have "keeps_conn c1 w1 (fst (snd y)) (snd (snd y))" using 1(2) IH [of c1 w1 y] by auto
    with kept_byD [OF req_handlers_keep 1(1)] show "keeps_conn c w (fst (snd y)) (snd (snd y))" by (rule keeps_conn_trans)
  qed
  then show ?thesis by (fastforce simp: kept_by_def)
qed

lemma request_handle_keeps: "kept_by request_handle"
  unfolding kept_by_def
proof (intro allI impI)
  fix c and w :: "'x world_scheme" and st c' w' assume "request_handle c w = Some (st, c', w')"
  then obtain st1 c1 w1 where 1: "request_recv c w = Some (st1, c1, w1)" "c' = c1 \<and> w' = w1 \<or> req_handler_loop c1 w1 = Some (st, c', w')"
    by (auto simp: request_handle_def bind_eq_Some_conv split: if_splits)
  have "keeps_conn c1 w1 c' w'" using 1(2) kept_byD [OF req_loop_keeps] by auto
  with kept_byD [OF request_recv_keeps 1(1)] show "keeps_conn c w c' w'" by (rule keeps_conn_trans)
qed

section \<open>The response handlers\<close>

lemma fds_step:
  assumes "w' = w\<lparr>k_fds := fds\<rparr>" and "r_resource_fd r = r_resource_fd (c_req c)"
    and "\<And>f. 0 \<le> f \<Longrightarrow> f \<noteq> c_fd c \<Longrightarrow> f \<noteq> r_resource_fd (c_req c) \<Longrightarrow> fd_lookup w' f = fd_lookup w f"
    and "c_fd c \<noteq> r_resource_fd (c_req c) \<Longrightarrow> sock_at (c_fd c) w \<noteq> None \<Longrightarrow> sock_at (c_fd c) w' \<noteq> None"
  shows "conn_frame c w (c\<lparr>c_req := r\<rparr>) w'"
proof -
  have "c\<lparr>c_req := r\<rparr> = c\<lparr>c_events := c_events c, c_req := r\<rparr>"
    "w' = w\<lparr>k_fds := fds, k_epoll := k_epoll w, k_realloc := k_realloc w, g_err_page := g_err_page w\<rparr>" using assms(1) by simp_all
  then have "\<exists>ev r'. c\<lparr>c_req := r\<rparr> = c\<lparr>c_events := ev, c_req := r'\<rparr>" "world_frame w w'"
    unfolding world_frame_def by blast+
  moreover have "k_epoll w' = k_epoll w" using assms(1) by simp
  ultimately show ?thesis using assms(2-) by (auto simp: conn_frame_def fds_frame_def)
qed

lemma sys_sendfile_cases:
  assumes "sys_sendfile fd i n w = (x, w')"
  shows "w' = w \<or> sock_at fd w \<noteq> None \<and> (\<exists>s. w' = fd_update fd (Fd_sock s) w) \<or>
    sock_at fd w \<noteq> None \<and> fd \<noteq> i \<and> (\<exists>s j off. w' = fd_update i (Fd_file j off) (fd_update fd (Fd_sock s) w))"
proof (cases "\<exists>s j off y. fd_lookup w fd = Some (Fd_sock s) \<and> fd_lookup w i = Some (Fd_file j off) \<and> k_inode w j = Regular y")
  case False
  then have "w' = w" using assms by (auto simp: sys_sendfile_def split: option.splits fd_object.splits inode.splits)
  then show ?thesis by blast
next
  case True
  then obtain s j off y where l: "fd_lookup w fd = Some (Fd_sock s)" "fd_lookup w i = Some (Fd_file j off)" "k_inode w j = Regular y" by blast
  obtain a s' where t: "sock_take (length (take (nat (to_size n)) (drop off y))) s = (a, s')" by fastforce
  have "sock_at fd w \<noteq> None" "fd \<noteq> i" using l by (auto simp: sock_at_def)
  then show ?thesis using assms l t by (cases a) (auto simp: sys_sendfile_def Let_def)
qed

lemma sys_sendfile_keeps:
  assumes "sys_sendfile (c_fd c) (r_resource_fd (c_req c)) n w = (x, w')"
  shows "keeps_conn c w c w'"
  using sys_sendfile_cases [OF assms]
proof (elim disjE conjE exE)
  fix s i off
  assume 3: "sock_at (c_fd c) w \<noteq> None" "c_fd c \<noteq> r_resource_fd (c_req c)"
    "w' = fd_update (r_resource_fd (c_req c)) (Fd_file i off) (fd_update (c_fd c) (Fd_sock s) w)"
  have w': "w' = w\<lparr>k_fds := k_fds w'\<rparr>" using 3 by (simp add: fd_update_def)
  have "conn_frame c w (c\<lparr>c_req := c_req c\<rparr>) w'"
    by (rule fds_step [OF w']) (use 3 in \<open>simp_all add: sock_at_def\<close>)
  moreover have "res_ok c w \<Longrightarrow> res_ok c w'" using 3 by (auto simp: res_ok_def)
  ultimately show ?thesis using 3 by (simp add: keeps_conn_def input_ok_def interest_ok_def)
qed (auto intro: keeps_socket)

text \<open>Sending may end with the resource closed, but then the response is marked as done.\<close>

definition sends_conn :: "conn \<Rightarrow> 'x world_scheme \<Rightarrow> conn \<Rightarrow> 'x world_scheme \<Rightarrow> bool" where
  "sends_conn c w c' w' \<longleftrightarrow> conn_frame c w c' w' \<and> (input_ok c w \<longrightarrow> input_ok c' w') \<and>
     (res_ok c w \<and> \<not> ar_response_done (r_par (c_req c')) \<longrightarrow> res_ok c' w')"

lemma keeps_sends: "keeps_conn c w c' w' \<Longrightarrow> sends_conn c w c' w'"
  by (simp add: keeps_conn_def sends_conn_def)

lemma keeps_sends_trans: "keeps_conn c w c1 w1 \<Longrightarrow> sends_conn c1 w1 c2 w2 \<Longrightarrow> sends_conn c w c2 w2"
  using conn_frame_trans unfolding keeps_conn_def sends_conn_def by blast

lemma sends_trans: "sends_conn c w c1 w1 \<Longrightarrow> \<not> ar_response_done (r_par (c_req c1)) \<Longrightarrow> sends_conn c1 w1 c2 w2 \<Longrightarrow> sends_conn c w c2 w2"
  using conn_frame_trans unfolding sends_conn_def by blast

lemma response_send_keeps: "kept_by response_send"
proof -
  have "keeps_conn c w (fst (snd y)) (snd (snd y))" if "response_send c w = Some y" for c w and y :: "int \<times> conn \<times> 'x world_scheme"
  proof (rule response_send.raw_induct [where P = "\<lambda>c w y. keeps_conn c w (fst (snd y)) (snd (snd y))", OF _ that])
    fix rec :: "conn \<Rightarrow> 'x world_scheme \<Rightarrow> (int \<times> conn \<times> 'x world_scheme) option" and c w y
    assume IH: "\<And>c w y. rec c w = Some y \<Longrightarrow> keeps_conn c w (fst (snd y)) (snd (snd y))"
      and eq: "do {
       b \<leftarrow> r_ob (c_req c);
       let sent = ar_buffer_sent (r_par (c_req c));
       x \<leftarrow> (if 0 \<le> sent \<and> sent \<le> b_len b
             then those (take (nat (b_len b - sent)) (drop (nat sent) (b_buf b))) else None);
       (case sys_send (c_fd c) x w of
          (Ret n, w) \<Rightarrow>
            if n = 0 then
              Some (OK, upd_par (\<lambda>ar. ar\<lparr>ar_buffer_sent := 0\<rparr>) (upd_req (\<lambda>r. r\<lparr>r_ob := Some (buffer_clear b)\<rparr>) c), w)
            else rec (upd_par (\<lambda>ar. ar\<lparr>ar_buffer_sent := to_int32 (sent + int n)\<rparr>) c) w
        | (Eagain, w) \<Rightarrow> Some (AGAIN, c, w)
        | (Fail, w) \<Rightarrow> Some (ERROR, c, w))
     } = Some y"
    from eq obtain b x where bx: "(case sys_send (c_fd c) x w of
          (Ret n, w) \<Rightarrow>
            if n = 0 then
              Some (OK, upd_par (\<lambda>ar. ar\<lparr>ar_buffer_sent := 0\<rparr>) (upd_req (\<lambda>r. r\<lparr>r_ob := Some (buffer_clear b)\<rparr>) c), w)
            else rec (upd_par (\<lambda>ar. ar\<lparr>ar_buffer_sent := to_int32 (ar_buffer_sent (r_par (c_req c)) + int n)\<rparr>) c) w
        | (Eagain, w) \<Rightarrow> Some (AGAIN, c, w)
        | (Fail, w) \<Rightarrow> Some (ERROR, c, w)) = Some y"
      by (auto simp: bind_eq_Some_conv Let_def)
    obtain ans w1 where s: "sys_send (c_fd c) x w = (ans, w1)" by fastforce
    have "keeps_conn c w1 (fst (snd y)) (snd (snd y))"
    proof (cases ans)
      case (Ret n)
      let ?r = "(c_req c)\<lparr>r_ob := Some (buffer_clear b), r_par := (r_par (c_req c))\<lparr>ar_buffer_sent := 0\<rparr>\<rparr>"
      let ?c = "upd_par (\<lambda>ar. ar\<lparr>ar_buffer_sent := to_int32 (ar_buffer_sent (r_par (c_req c)) + int n)\<rparr>) c"
      have "keeps_conn c w1 (c\<lparr>c_req := ?r\<rparr>) w1" by (rule keeps_request) simp_all
      moreover have "keeps_conn c w1 (fst (snd y)) (snd (snd y))" if "rec ?c w1 = Some y"
        using keeps_par IH [OF that] by (rule keeps_conn_trans)
      ultimately show ?thesis using bx s Ret by (cases "n = 0") auto
    qed (use bx s in auto)
    with sys_send_keeps [OF s] show "keeps_conn c w (fst (snd y)) (snd (snd y))" by (rule keeps_conn_trans)
  qed
  then show ?thesis by (fastforce simp: kept_by_def)
qed

lemma same_but_events_keeps: "same_but_events c w c' w' \<Longrightarrow> bit (c_events c') 0 = bit (c_events c) 0 \<Longrightarrow> keeps_conn c w c' w'"
  by (auto simp: same_but_events_def keeps_conn_def input_ok_def is_in_bit)

lemma send_buffer_keeps: "kept_by response_handle_send_buffer"
  unfolding kept_by_def
proof (intro allI impI)
  fix c and w :: "'x world_scheme" and st c' w' assume h: "response_handle_send_buffer c w = Some (st, c', w')"
  then obtain st1 c1 w1 where s: "response_send c w = Some (st1, c1, w1)"
    by (auto simp: response_handle_send_buffer_def bind_eq_Some_conv)
  let ?c = "upd_par (\<lambda>ar. ar\<lparr>ar_response_done := True\<rparr>) c1"
  obtain st2 c2 w2 where d: "connection_disable_out ?c w1 = (st2, c2, w2)" by (metis prod_cases3)
  note k = kept_byD [OF response_send_keeps s]
  let ?d = "upd_req (\<lambda>r. r\<lparr>r_res_handler := response_handle_send_file_h\<rparr>) c1"
  have eq: "(if st1 \<noteq> OK then Some (st1, c1, w1) else if r_resource_fd (c_req c1) \<noteq> - 1 then Some (OK, ?d, w1) else Some (OK, c2, w2)) =
      Some (st, c', w')"
    using h unfolding response_handle_send_buffer_def by (simp only: s d Let_def bind.simps prod.case)
  consider "c' = c1" "w' = w1" | "c' = ?d" "w' = w1" | "c' = c2" "w' = w2"
    using eq by (cases "st1 = OK"; cases "r_resource_fd (c_req c1) = - 1") (simp_all only: if_True if_False simp_thms option.inject prod.inject)
  then have "keeps_conn c1 w1 c' w'"
  proof cases
    case 2
    then show ?thesis using keeps_request(2) [of "(c_req c1)\<lparr>r_res_handler := response_handle_send_file_h\<rparr>" c1 w1] by simp
  next
    case 3
    have "keeps_conn c1 w1 ?c w1" by (rule keeps_par)
    also have "keeps_conn ?c w1 c' w'" using wrappers_same(4) [OF d] 3 by (auto intro: same_but_events_keeps)
    finally show ?thesis .
  qed simp
  with k show "keeps_conn c w c' w'" by (rule keeps_conn_trans)
qed

lemma close_resource_sends:
  "sends_conn c w (upd_par (\<lambda>ar. ar\<lparr>ar_response_done := True\<rparr>) c) (close_fd (r_resource_fd (c_req c)) w)"
proof -
  have w': "close_fd (r_resource_fd (c_req c)) w = w\<lparr>k_fds := AList.delete (r_resource_fd (c_req c)) (k_fds w)\<rparr>" by (simp add: close_fd_def)
  have "conn_frame c w (upd_par (\<lambda>ar. ar\<lparr>ar_response_done := True\<rparr>) c) (close_fd (r_resource_fd (c_req c)) w)"
    by (rule fds_step [OF w']) (simp_all add: sock_at_def)
  then show ?thesis by (simp add: sends_conn_def input_ok_def interest_ok_def event_of_def CONN_IS_IN_def)
qed

lemma send_file_sends: "response_handle_send_file c w = Some (st, c', w') \<Longrightarrow> sends_conn c w c' w'"
proof -
  have "sends_conn c w (fst (snd y)) (snd (snd y))" if "response_handle_send_file c w = Some y" for c w and y :: "int \<times> conn \<times> 'x world_scheme"
  proof (rule response_handle_send_file.raw_induct [where P = "\<lambda>c w y. sends_conn c w (fst (snd y)) (snd (snd y))", OF _ that])
    fix rec :: "conn \<Rightarrow> 'x world_scheme \<Rightarrow> (int \<times> conn \<times> 'x world_scheme) option" and c w y
    assume IH: "\<And>c w y. rec c w = Some y \<Longrightarrow> sends_conn c w (fst (snd y)) (snd (snd y))"
      and eq: "(case sys_sendfile (c_fd c) (r_resource_fd (c_req c)) (r_resource_size (c_req c)) w of
        (Ret n, w) \<Rightarrow>
          if n = 0 then
            Some (OK, upd_par (\<lambda>ar. ar\<lparr>ar_response_done := True\<rparr>) c, close_fd (r_resource_fd (c_req c)) w)
          else rec c w
      | (Eagain, w) \<Rightarrow> Some (AGAIN, c, w)
      | (Fail, w) \<Rightarrow> Some (ERROR, c, w)) = Some y"
    obtain x w1 where s: "sys_sendfile (c_fd c) (r_resource_fd (c_req c)) (r_resource_size (c_req c)) w = (x, w1)" by fastforce
    note k = sys_sendfile_keeps [OF s]
    have "sends_conn c w1 (fst (snd y)) (snd (snd y))"
    proof (cases x)
      case (Ret n)
      then show ?thesis using eq s IH [of c w1 y] close_resource_sends [of c w1] by (auto split: if_splits)
    qed (use eq s keeps_sends [OF keeps_conn_refl] in auto)
    with k show "sends_conn c w (fst (snd y)) (snd (snd y))" by (rule keeps_sends_trans)
  qed
  from this [of c w "(st, c', w')"] show "response_handle_send_file c w = Some (st, c', w') \<Longrightarrow> ?thesis" by simp
qed

lemma res_loop_sends: "res_handler_loop c w = Some (st, c', w') \<Longrightarrow> sends_conn c w c' w'"
proof -
  have "sends_conn c w (fst (snd y)) (snd (snd y))" if "res_handler_loop c w = Some y" for c w and y :: "int \<times> conn \<times> 'x world_scheme"
  proof (rule res_handler_loop.raw_induct [where P = "\<lambda>c w y. sends_conn c w (fst (snd y)) (snd (snd y))", OF _ that])
    fix rec :: "conn \<Rightarrow> 'x world_scheme \<Rightarrow> (int \<times> conn \<times> 'x world_scheme) option" and c w y
    assume IH: "\<And>c w y. rec c w = Some y \<Longrightarrow> sends_conn c w (fst (snd y)) (snd (snd y))"
      and "do {
        (status, c, w) \<leftarrow> call_res_handler (r_res_handler (c_req c)) c w;
        if status = OK \<and> \<not> ar_response_done (r_par (c_req c)) then rec c w
        else Some (status, c, w)
      } = Some y"
    then obtain st1 c1 w1 where 1: "call_res_handler (r_res_handler (c_req c)) c w = Some (st1, c1, w1)"
      "\<not> ar_response_done (r_par (c_req c1)) \<and> rec c1 w1 = Some y \<or> y = (st1, c1, w1)"
      by (auto simp: bind_eq_Some_conv split: if_splits)
    have s: "sends_conn c w c1 w1"
      using 1(1) keeps_sends [OF kept_byD [OF send_buffer_keeps]] send_file_sends by (cases "r_res_handler (c_req c)") (auto simp: call_res_handler_def)
    from 1(2) show "sends_conn c w (fst (snd y)) (snd (snd y))"
    proof
      assume "\<not> ar_response_done (r_par (c_req c1)) \<and> rec c1 w1 = Some y"
      then show ?thesis using sends_trans [OF s] IH [of c1 w1 y] by blast
    qed (use s in simp)
  qed
  from this [of c w "(st, c', w')"] show "res_handler_loop c w = Some (st, c', w') \<Longrightarrow> ?thesis" by simp
qed

text \<open>After a complete response the request is new, and the connection waits for input again.\<close>

lemma reset_kept:
  assumes "request_reset (c_req c) = Some r" and "connection_disable_out (c\<lparr>c_req := r\<rparr>) w = (st1, c1, w1)"
    and "connection_enable_in c1 w1 = (st2, c2, w2)"
  shows "conn_frame c w c2 w2" and "input_ok c w \<Longrightarrow> input_ok c2 w2" and "res_ok c2 w2"
proof -
  have r: "r_resource_fd r = - 1" "r_req_handler r \<noteq> None"
    using assms(1) by (auto simp: request_reset_def fresh_request_def bind_eq_Some_conv)
  note s = same_but_events_trans [OF conjunct1 [OF wrappers_same(4) [OF assms(2)]] conjunct1 [OF wrappers_same(1) [OF assms(3)]]]
  have "c\<lparr>c_req := r\<rparr> = c\<lparr>c_events := c_events c, c_req := r\<rparr>" by simp
  then have "\<exists>ev r'. c\<lparr>c_req := r\<rparr> = c\<lparr>c_events := ev, c_req := r'\<rparr>" by blast
  then have "conn_frame c w (c\<lparr>c_req := r\<rparr>) w" using r world_frame_refl by (auto simp: conn_frame_def fds_frame_def)
  then show "conn_frame c w c2 w2" using s conn_frame_trans by (auto simp: same_but_events_def)
  show "res_ok c2 w2" using s r by (auto simp: same_but_events_def res_ok_def)
  show "input_ok c2 w2" if "input_ok c w"
  proof -
    have "interest_ok (c\<lparr>c_req := r\<rparr>) w" using that by (simp add: input_ok_def interest_ok_def event_of_def)
    then show ?thesis using s r by (auto simp: same_but_events_def input_ok_def)
  qed
qed

lemma response_handle_keeps:
  assumes "response_handle c w = Some (st, c', w')"
  shows "conn_frame c w c' w'" and "input_ok c w \<Longrightarrow> input_ok c' w'" and "res_ok c w \<Longrightarrow> st \<noteq> ERROR \<Longrightarrow> res_ok c' w'"
proof -
  obtain st1 c1 w1 where l: "res_handler_loop c w = Some (st1, c1, w1)"
    using assms by (auto simp: response_handle_def bind_eq_Some_conv)
  note s = res_loop_sends [OF l, unfolded sends_conn_def]
  have "conn_frame c w c' w' \<and> (input_ok c w \<longrightarrow> input_ok c' w') \<and> (res_ok c w \<and> st \<noteq> ERROR \<longrightarrow> res_ok c' w')"
  proof (cases "ar_response_done (r_par (c_req c1)) \<and> ar_keep_alive (r_par (c_req c1))")
    case True
    then obtain r where r: "request_reset (c_req c1) = Some r"
      using assms l by (auto simp: response_handle_def bind_eq_Some_conv)
    obtain st2 c2 w2 st3 c3 w3 where ep: "connection_disable_out (c1\<lparr>c_req := r\<rparr>) w1 = (st2, c2, w2)" "connection_enable_in c2 w2 = (st3, c3, w3)"
      by (metis prod_cases3)
    have "Some (st1, c3, w3) = Some (st, c', w')"
      using assms True unfolding response_handle_def by (simp only: l r ep Let_def bind.simps prod.case if_True simp_thms)
    then show ?thesis using s reset_kept [OF r ep] conn_frame_trans by blast
  next
    case False
    then have "(if ar_response_done (r_par (c_req c1)) then Some (ERROR, c1, w1) else Some (st1, c1, w1)) = Some (st, c', w')"
      using assms unfolding response_handle_def by (cases "ar_response_done (r_par (c_req c1))") (simp_all only: l bind.simps prod.case simp_thms if_True if_False)
    then show ?thesis using s by (auto split: if_splits)
  qed
  then show "conn_frame c w c' w'" "input_ok c w \<Longrightarrow> input_ok c' w'" "res_ok c w \<Longrightarrow> st \<noteq> ERROR \<Longrightarrow> res_ok c' w'" by auto
qed

lemma request_handle_frame:
  assumes "request_handle c w = Some (st, c', w')"
  shows "conn_frame c w c' w'" and "input_ok c w \<Longrightarrow> input_ok c' w'" and "res_ok c w \<Longrightarrow> res_ok c' w'"
  using kept_byD [OF request_handle_keeps assms] by (auto simp: keeps_conn_def)

section \<open>Status codes\<close>

text \<open>The handlers of a request return \<open>OK\<close> or \<open>AGAIN\<close> whatever the request is; only receiving can fail.\<close>

definition goes_on :: "int \<Rightarrow> bool" where
  "goes_on st \<longleftrightarrow> st = OK \<or> st = AGAIN"

lemma err_buffer_status: "response_assemble_err_buffer code c w = Some (st, c', w') \<Longrightarrow> st = OK"
  by (auto simp: response_assemble_err_buffer_def bind_eq_Some_conv Let_def split_beta)

lemma open_resource_status: "open_resource path c w = Some (st, c', w') \<Longrightarrow> st = OK"
  by (auto simp: open_resource_def bind_eq_Some_conv Let_def err_buffer_status split: prod.splits if_splits)

lemma request_line_status: "request_handle_request_line c w = Some (st, c', w') \<Longrightarrow> goes_on st"
  by (auto simp: request_handle_request_line_def bind_eq_Some_conv Let_def goes_on_def
      dest!: err_buffer_status open_resource_status split: if_splits)

lemma body_handler_status: "request_handle_body c w = Some (st, c', w') \<Longrightarrow> goes_on st"
  by (auto simp: request_handle_body_def bind_eq_Some_conv Let_def goes_on_def dest!: err_buffer_status split: if_splits prod.splits)

lemma headers_status: "request_handle_headers c w = Some (st, c', w') \<Longrightarrow> goes_on st"
proof -
  have "goes_on (fst y)" if "request_handle_headers c w = Some y" for c w and y :: "int \<times> conn \<times> 'x world_scheme"
  proof (rule request_handle_headers.raw_induct [where P = "\<lambda>c w y. goes_on (fst y)", OF _ that])
    fix rec :: "conn \<Rightarrow> 'x world_scheme \<Rightarrow> (int \<times> conn \<times> 'x world_scheme) option" and c w y
    assume IH: "\<And>c w y. rec c w = Some y \<Longrightarrow> goes_on (fst y)"
      and eq: "do {
       (status, ar) \<leftarrow> parse_header_line (r_ib_at (c_req c)) (r_ib (c_req c)) (r_par (c_req c));
       let c = upd_req (\<lambda>r. r\<lparr>r_par := ar\<rparr>) c;
       if status = AGAIN then Some (AGAIN, c, w)
       else if status = INVALID_REQUEST then response_assemble_err_buffer 400 c w
       else if status = CRLF_LINE then
         Some (OK, upd_req (\<lambda>r. r\<lparr>r_req_handler := Some request_handle_body_h\<rparr>) c, w)
       else if status = OK then do {
         (status, c, w) \<leftarrow> handle_one_header c w;
         if status \<noteq> OK then Some (OK, c, w) else rec c w
       }
       else rec c w
     } = Some y"
    have ok: "goes_on OK" "goes_on AGAIN" by (simp_all add: goes_on_def)
    show "goes_on (fst y)"
      using eq ok by (cases y) (auto simp: bind_eq_Some_conv Let_def dest: IH err_buffer_status split: if_splits)
  qed
  from this [of c w "(st, c', w')"] show "request_handle_headers c w = Some (st, c', w') \<Longrightarrow> ?thesis" by simp
qed

lemma call_status: "call_req_handler h c w = Some (st, c', w') \<Longrightarrow> goes_on st"
  using request_line_status headers_status body_handler_status by (cases h) (auto simp: call_req_handler_def)

lemma loop_status: "req_handler_loop c w = Some (st, c', w') \<Longrightarrow> goes_on st"
proof -
  have "goes_on (fst y)" if "req_handler_loop c w = Some y" for c w and y :: "int \<times> conn \<times> 'x world_scheme"
  proof (rule req_handler_loop.raw_induct [where P = "\<lambda>c w y. goes_on (fst y)", OF _ that])
    fix rec :: "conn \<Rightarrow> 'x world_scheme \<Rightarrow> (int \<times> conn \<times> 'x world_scheme) option" and c w y
    assume IH: "\<And>c w y. rec c w = Some y \<Longrightarrow> goes_on (fst y)"
      and "do {
        h \<leftarrow> r_req_handler (c_req c);
        (status, c, w) \<leftarrow> call_req_handler h c w;
        if r_req_handler (c_req c) \<noteq> None \<and> status = OK then rec c w
        else Some (status, c, w)
      } = Some y"
    then obtain h st1 c1 w1 where 1: "call_req_handler h c w = Some (st1, c1, w1)" "rec c1 w1 = Some y \<or> y = (st1, c1, w1)"
      by (auto simp: bind_eq_Some_conv split: if_splits)
    show "goes_on (fst y)" using 1(2) IH [of c1 w1 y] call_status [OF 1(1)] by auto
  qed
  from this [of c w "(st, c', w')"] show "req_handler_loop c w = Some (st, c', w') \<Longrightarrow> ?thesis" by simp
qed

lemma recv_status: "request_recv c w = Some (st, c', w') \<Longrightarrow> st = ERROR \<or> goes_on st"
proof -
  have "fst y = ERROR \<or> goes_on (fst y)" if "request_recv c w = Some y" for c w and y :: "int \<times> conn \<times> 'x world_scheme"
  proof (rule request_recv.raw_induct [where P = "\<lambda>c w y. fst y = ERROR \<or> goes_on (fst y)", OF _ that])
    fix rec :: "conn \<Rightarrow> 'x world_scheme \<Rightarrow> (int \<times> conn \<times> 'x world_scheme) option" and c w y
    assume IH: "\<And>c w y. rec c w = Some y \<Longrightarrow> fst y = ERROR \<or> goes_on (fst y)"
      and eq: "(case sys_recv (c_fd c) 8192 w of
        (Ret x, w) \<Rightarrow>
          if x = [] then Some (OK, c, w)
          else do {
            let (ra, w) = next_realloc w;
            ib \<leftarrow> cat_keep ra (r_ib (c_req c)) x;
            rec (upd_req (\<lambda>r. r\<lparr>r_ib := ib\<rparr>) c) w
          }
      | (Eagain, w) \<Rightarrow> Some (AGAIN, c, w)
      | (Fail, w) \<Rightarrow> Some (ERROR, c, w)) = Some y"
    then show "fst y = ERROR \<or> goes_on (fst y)"
      by (auto simp: goes_on_def bind_eq_Some_conv Let_def split_beta split: prod.splits sysret.splits if_splits dest!: IH)
  qed
  from this [of c w "(st, c', w')"] show "request_recv c w = Some (st, c', w') \<Longrightarrow> ?thesis" by simp
qed

section \<open>Properties\<close>

text \<open>
  C8. Isolation. Whatever a client sends and however the kernel answers, a call of \<open>request_handle\<close>
  or \<open>response_handle\<close> that returns leaves every descriptor but the connection's own socket and
  resource as it was, takes none of them for its resource, and leaves the epoll registrations of all
  other descriptors; its own registration stays the one the connection has recorded, and a connection that is
  registered for input has a request handler to call.
\<close>

theorem handlers_isolated:
  assumes "request_handle c w = Some (st, c', w') \<or> response_handle c w = Some (st, c', w')"
    and "k_epoll w (c_fd c) = Some (event_of c)" and "CONN_IS_IN c \<longrightarrow> r_req_handler (c_req c) \<noteq> None"
  shows "c_fd c' = c_fd c \<and> (\<forall>f. f \<noteq> c_fd c \<longrightarrow> k_epoll w' f = k_epoll w f) \<and>
    (\<forall>f ob. fd_lookup w f = Some ob \<and> 0 \<le> f \<and> f \<noteq> c_fd c \<and> f \<noteq> r_resource_fd (c_req c) \<longrightarrow>
       fd_lookup w' f = Some ob \<and> f \<noteq> r_resource_fd (c_req c')) \<and>
    k_epoll w' (c_fd c') = Some (event_of c') \<and> (CONN_IS_IN c' \<longrightarrow> r_req_handler (c_req c') \<noteq> None)"
proof -
  have i: "input_ok c w" using assms(2,3) by (simp add: input_ok_def interest_ok_def)
  have "conn_frame c w c' w' \<and> input_ok c' w'"
    using assms(1) request_handle_frame [of c w st c' w'] response_handle_keeps [of c w st c' w'] i by blast
  then show ?thesis using conn_frame_sel [of c w c' w'] by (auto simp: conn_frame_def fds_frame_def input_ok_def interest_ok_def)
qed

theorem handlers_isolated_witness:
  "\<exists>st c' w'. response_handle demo_conn (fd_update 7 Fd_other demo_world) = Some (st, c', w') \<and>
     fd_lookup w' 7 = Some Fd_other \<and> k_epoll w' 5 = Some (event_of c')"
proof -
  let ?w = "fd_update 7 Fd_other demo_world"
  have "send_ready demo_conn ?w"
    using demo_ready(1) by (simp add: send_ready_def file_ok_def sock_at_def interest_ok_def)
      (simp add: demo_conn_def demo_world_def fd_lookup_def fresh_request_def)
  from response_handle_progress [OF this demo_ready(2)] obtain st c' w' where
    r: "response_handle demo_conn ?w = Some (st, c', w')" by blast
  have "k_epoll ?w (c_fd demo_conn) = Some (event_of demo_conn)" "\<not> CONN_IS_IN demo_conn" "c_fd demo_conn = 5" "r_resource_fd (c_req demo_conn) = 6"
    by (simp_all add: demo_conn_def demo_world_def event_of_def CONN_IS_IN_def fresh_request_def)
  with handlers_isolated [OF disjI2 [OF r]] r show ?thesis by auto
qed



end
