(* ===== verification/Mem_Pool.thy ===== *)
theory Mem_Pool
  imports Lotos_Prelude
begin

text \<open>
  The fixed-size block pool of \<^verbatim>\<open>src/src/mem_pool.h\<close> and \<^verbatim>\<open>src/src/mem_pool.c\<close>. The pool owns
  one region; a pointer into it is its byte offset, \<open>None\<close> is the null pointer, and the memory of
  the region is the pointer stored in the first word of the block at each offset (the free blocks
  form a linked list through these words). Sizes and the allocation counter are \<open>size_t\<close>. The
  locale \<open>block_allocator\<close> is what the connection code relies on.
\<close>

section \<open>State\<close>

type_synonym pool_ptr = "int option"

record mem_pool_t =
  mp_block_num :: "64 word"
  mp_block_size :: "64 word"
  mp_block_allocated :: "64 word"
  mp_next :: pool_ptr
  mp_blocks :: "(int \<Rightarrow> pool_ptr) option"

abbreviation (input) sizeof_ptr :: "64 word" where "sizeof_ptr \<equiv> 8"

text \<open>\<open>pool_create\<close> leaves the process when \<open>calloc\<close> fails.\<close>

datatype create_result = Create_exit | Create_ok mem_pool_t

section \<open>Operations\<close>

definition region_size :: "mem_pool_t \<Rightarrow> int" where
  "region_size pool = uint (mp_block_num pool) * uint (mp_block_size pool)"

text \<open>Reading and writing the pointer word at an offset: undefined outside a live region.\<close>

definition peek :: "mem_pool_t \<Rightarrow> int \<Rightarrow> pool_ptr option" where
  "peek pool p =
     (case mp_blocks pool of None \<Rightarrow> None
      | Some m \<Rightarrow> if 0 \<le> p \<and> p + 8 \<le> region_size pool then Some (m p) else None)"

definition poke :: "mem_pool_t \<Rightarrow> int \<Rightarrow> pool_ptr \<Rightarrow> mem_pool_t option" where
  "poke pool p v =
     (case mp_blocks pool of None \<Rightarrow> None
      | Some m \<Rightarrow> if 0 \<le> p \<and> p + 8 \<le> region_size pool
                then Some (pool\<lparr>mp_blocks := Some (m(p := v))\<rparr>) else None)"

definition last_block :: "mem_pool_t \<Rightarrow> int" where
  "last_block pool = sint ((mp_block_num pool - 1) * mp_block_size pool)"

text \<open>The loop that chains the blocks: it ends with the offset it stopped at.\<close>

partial_function (option) link_blocks :: "mem_pool_t \<Rightarrow> int \<Rightarrow> (int \<times> mem_pool_t) option" where
  "link_blocks pool char_ptr =
     (if char_ptr < last_block pool then do {
        pool' \<leftarrow> poke pool char_ptr (Some (char_ptr + uint (mp_block_size pool)));
        link_blocks pool' (char_ptr + uint (mp_block_size pool))
      }
      else Some (char_ptr, pool))"

definition pool_create :: "bool \<Rightarrow> 64 word \<Rightarrow> 64 word \<Rightarrow> create_result option" where
  "pool_create calloc_ok nmemb sz =
     (let bsize = (if sz > sizeof_ptr then sz else sizeof_ptr);
          pool = \<lparr>mp_block_num = nmemb, mp_block_size = bsize, mp_block_allocated = 0,
                  mp_next = Some 0, mp_blocks = Some (\<lambda>_. None)\<rparr> in
      if calloc_ok \<and> uint nmemb * uint bsize < 2 ^ 63 then do {
        (char_ptr, pool') \<leftarrow> link_blocks pool 0;
        pool'' \<leftarrow> poke pool' char_ptr None;
        Some (Create_ok pool'')
      }
      else Some Create_exit)"

definition pool_destroy :: "mem_pool_t \<Rightarrow> mem_pool_t" where
  "pool_destroy pool = (if mp_blocks pool \<noteq> None then pool\<lparr>mp_blocks := None\<rparr> else pool)"

definition pool_alloc :: "mem_pool_t \<Rightarrow> (pool_ptr \<times> mem_pool_t) option" where
  "pool_alloc pool =
     (if mp_block_allocated pool \<ge> mp_block_num pool then Some (None, pool)
      else case mp_next pool of
        None \<Rightarrow> Some (None, pool)
      | Some cur \<Rightarrow> do {
          link \<leftarrow> peek pool cur;
          Some (Some cur, pool\<lparr>mp_next := link, mp_block_allocated := mp_block_allocated pool + 1\<rparr>)
        })"

definition pool_free :: "mem_pool_t \<Rightarrow> pool_ptr \<Rightarrow> mem_pool_t option" where
  "pool_free pool ptr =
     (case ptr of
        None \<Rightarrow> Some pool
      | Some p \<Rightarrow> do {
          pool' \<leftarrow> poke pool p (mp_next pool);
          Some (pool'\<lparr>mp_next := Some p, mp_block_allocated := mp_block_allocated pool - 1\<rparr>)
        })"

section \<open>Abstraction: the list of free blocks\<close>

fun free_chain :: "(int \<Rightarrow> pool_ptr) \<Rightarrow> pool_ptr \<Rightarrow> int list \<Rightarrow> bool" where
  "free_chain m p [] \<longleftrightarrow> p = None"
| "free_chain m p (a # as) \<longleftrightarrow> p = Some a \<and> free_chain m (m a) as"

definition block_starts :: "mem_pool_t \<Rightarrow> int set" where
  "block_starts pool = (\<lambda>i. int i * uint (mp_block_size pool)) ` {..< unat (mp_block_num pool)}"

definition pool_rep :: "mem_pool_t \<Rightarrow> int list \<Rightarrow> bool" where
  "pool_rep pool fl \<longleftrightarrow>
     (\<exists>m. mp_blocks pool = Some m \<and> free_chain m (mp_next pool) fl) \<and>
     8 \<le> uint (mp_block_size pool) \<and> region_size pool < 2 ^ 63 \<and>
     distinct fl \<and> set fl \<subseteq> block_starts pool \<and>
     unat (mp_block_allocated pool) + length fl = unat (mp_block_num pool)"

section \<open>Facts\<close>

lemma free_chain_upd [simp]: "a \<notin> set fl \<Longrightarrow> free_chain (m(a := v)) p fl = free_chain m p fl"
  by (induction fl arbitrary: p) auto

lemma block_start_bounds:
  assumes "p \<in> block_starts pool" and "8 \<le> uint (mp_block_size pool)"
  shows "0 \<le> p \<and> p + 8 \<le> region_size pool"
proof -
  from assms(1) obtain i where i: "i < unat (mp_block_num pool)" and p: "p = int i * uint (mp_block_size pool)"
    by (auto simp: block_starts_def)
  have "int i < int (unat (mp_block_num pool))" using i by (simp only: of_nat_less_iff)
  then have "int i + 1 \<le> uint (mp_block_num pool)" by simp
  then have "(int i + 1) * uint (mp_block_size pool) \<le> region_size pool"
    unfolding region_size_def by (intro mult_right_mono) auto
  then show ?thesis using p assms(2) by (simp add: distrib_right)
qed

lemma card_block_starts:
  "0 < uint (mp_block_size pool) \<Longrightarrow> card (block_starts pool) = unat (mp_block_num pool)"
  unfolding block_starts_def by (subst card_image) (auto simp: inj_on_def)

lemma finite_block_starts [simp]: "finite (block_starts pool)"
  by (simp add: block_starts_def)

lemma peek_block:
  "pool_rep pool fl \<Longrightarrow> p \<in> block_starts pool \<Longrightarrow>
   \<exists>m. mp_blocks pool = Some m \<and> peek pool p = Some (m p)"
  using block_start_bounds by (auto simp: pool_rep_def peek_def)

lemma poke_block:
  "pool_rep pool fl \<Longrightarrow> p \<in> block_starts pool \<Longrightarrow>
   \<exists>m. mp_blocks pool = Some m \<and> poke pool p v = Some (pool\<lparr>mp_blocks := Some (m(p := v))\<rparr>)"
  using block_start_bounds by (auto simp: pool_rep_def poke_def)

lemma pool_alloc_empty: "pool_rep pool [] \<Longrightarrow> pool_alloc pool = Some (None, pool)"
  by (auto simp: pool_rep_def pool_alloc_def word_le_nat_alt)

lemma pool_alloc_cons:
  assumes "pool_rep pool (a # fl)"
  shows "\<exists>pool'. pool_alloc pool = Some (Some a, pool') \<and> pool_rep pool' fl \<and>
     block_starts pool' = block_starts pool"
proof -
  have lt: "unat (mp_block_allocated pool) + 1 \<le> unat (mp_block_num pool)"
    and nxt: "mp_next pool = Some a" and a: "a \<in> block_starts pool"
    using assms by (auto simp: pool_rep_def)
  obtain m where m: "mp_blocks pool = Some m" "peek pool a = Some (m a)"
    using peek_block [OF assms a] by blast
  let ?p = "pool\<lparr>mp_next := m a, mp_block_allocated := mp_block_allocated pool + 1\<rparr>"
  have "pool_alloc pool = Some (Some a, ?p)"
    using lt nxt m by (simp add: pool_alloc_def word_le_nat_alt)
  moreover have "unat (mp_block_allocated pool + 1) = unat (mp_block_allocated pool) + 1"
    using lt unsigned_less [where 'a = nat, of "mp_block_num pool"] by (simp add: unat_word_ariths)
  then have "pool_rep ?p fl" using assms m
    by (auto simp: pool_rep_def region_size_def block_starts_def)
  ultimately show ?thesis by (auto simp: block_starts_def)
qed

lemma pool_free_ok:
  assumes rep: "pool_rep pool fl" and a: "a \<in> block_starts pool" "a \<notin> set fl"
  shows "\<exists>pool'. pool_free pool (Some a) = Some pool' \<and> pool_rep pool' (a # fl) \<and>
     block_starts pool' = block_starts pool"
proof -
  obtain m where m: "mp_blocks pool = Some m"
    "poke pool a (mp_next pool) = Some (pool\<lparr>mp_blocks := Some (m(a := mp_next pool))\<rparr>)"
    using poke_block [OF rep a(1)] by blast
  let ?p = "pool\<lparr>mp_blocks := Some (m(a := mp_next pool)), mp_next := Some a,
      mp_block_allocated := mp_block_allocated pool - 1\<rparr>"
  have "pool_free pool (Some a) = Some ?p" using m by (simp add: pool_free_def)
  moreover have "length fl + 1 \<le> unat (mp_block_num pool)"
  proof -
    have "card (set (a # fl)) \<le> card (block_starts pool)"
      using rep a by (intro card_mono) (auto simp: pool_rep_def)
    then show ?thesis using rep a card_block_starts [of pool]
      by (auto simp: pool_rep_def distinct_card)
  qed
  then have "unat (mp_block_allocated pool - 1) = unat (mp_block_allocated pool) - 1"
    and "1 \<le> unat (mp_block_allocated pool)"
    using rep by (auto simp: pool_rep_def unat_sub_if' )
  then have "pool_rep ?p (a # fl)" using rep a m
    by (auto simp: pool_rep_def region_size_def block_starts_def)
  ultimately show ?thesis by (auto simp: block_starts_def)
qed

section \<open>Creation\<close>

text \<open>The offset of block \<open>i\<close>.\<close>

definition block_at :: "mem_pool_t \<Rightarrow> nat \<Rightarrow> int" where
  "block_at pool i = int i * uint (mp_block_size pool)"

lemma block_at_blocks [simp]: "block_at (pool\<lparr>mp_blocks := x\<rparr>) = block_at pool"
  by (simp add: fun_eq_iff block_at_def)

lemma region_size_blocks [simp]: "region_size (pool\<lparr>mp_blocks := x\<rparr>) = region_size pool"
  by (simp add: region_size_def)

lemma block_at_mem: "i < unat (mp_block_num pool) \<Longrightarrow> block_at pool i \<in> block_starts pool"
  by (auto simp: block_at_def block_starts_def)

lemma block_at_inj:
  "8 \<le> uint (mp_block_size pool) \<Longrightarrow> block_at pool i = block_at pool j \<longleftrightarrow> i = j"
  by (auto simp: block_at_def)

lemma block_at_Suc: "block_at pool i + uint (mp_block_size pool) = block_at pool (Suc i)"
  by (simp add: block_at_def distrib_right)

lemma last_block_eq:
  assumes n: "1 \<le> unat (mp_block_num pool)" and small: "region_size pool < 2 ^ 63"
  shows "last_block pool = block_at pool (unat (mp_block_num pool) - 1)"
proof -
  let ?n = "mp_block_num pool" and ?s = "mp_block_size pool"
  have "int 1 \<le> int (unat ?n)" using n by (simp only: of_nat_le_iff)
  then have n1: "1 \<le> uint ?n" by simp
  have n1: "uint (?n - 1) = uint ?n - 1" "0 \<le> uint ?n - 1"
    using n1 by (simp_all add: uint_sub_if')
  have le: "0 \<le> (uint ?n - 1) * uint ?s" "(uint ?n - 1) * uint ?s \<le> region_size pool"
    using n1 by (auto simp: region_size_def intro!: mult_right_mono)
  then have u: "uint ((?n - 1) * ?s) = (uint ?n - 1) * uint ?s"
    using small n1 by (simp add: uint_word_ariths)
  have "sint ((?n - 1) * ?s) = uint ((?n - 1) * ?s)"
    unfolding sint_uint using u le small by (simp add: signed_take_bit_int_eq_self)
  moreover have "int (unat ?n - 1) = uint ?n - 1" using n by (simp add: of_nat_diff)
  ultimately show ?thesis using u by (simp add: last_block_def block_at_def)
qed

lemma link_blocks_chain:
  assumes s: "8 \<le> uint (mp_block_size pool)" and small: "region_size pool < 2 ^ 63"
    and n: "Suc n = unat (mp_block_num pool)"
  shows "mp_blocks pool = Some m \<Longrightarrow> i + d = n \<Longrightarrow>
    \<exists>m'. link_blocks pool (block_at pool i) = Some (block_at pool n, pool\<lparr>mp_blocks := Some m'\<rparr>) \<and>
      (\<forall>k. i \<le> k \<and> k < n \<longrightarrow> m' (block_at pool k) = Some (block_at pool (Suc k))) \<and>
      (\<forall>k < i. m' (block_at pool k) = m (block_at pool k))"
  using s small n
proof (induction d arbitrary: pool m i)
  case 0
  then have "last_block pool = block_at pool n"
    using last_block_eq [of pool] by (metis Suc_leI diff_Suc_1 zero_less_Suc One_nat_def)
  with 0 show ?case by (intro exI [of _ m]) (auto simp: link_blocks.simps [of pool])
next
  case (Suc d)
  have "last_block pool = block_at pool n"
    using last_block_eq [of pool] Suc.prems by (metis Suc_leI diff_Suc_1 zero_less_Suc One_nat_def)
  moreover have "block_at pool i < block_at pool n" using Suc.prems by (simp add: block_at_def)
  ultimately have lt: "block_at pool i < last_block pool" by simp
  define m1 where "m1 = m(block_at pool i := Some (block_at pool (Suc i)))"
  let ?p = "pool\<lparr>mp_blocks := Some m1\<rparr>"
  have "poke pool (block_at pool i) (Some (block_at pool (Suc i))) = Some ?p"
    using block_start_bounds [OF block_at_mem [of i pool]] Suc.prems by (simp add: poke_def m1_def)
  then have step: "link_blocks pool (block_at pool i) = link_blocks ?p (block_at pool (Suc i))"
    using lt by (subst link_blocks.simps) (simp add: block_at_Suc)
  obtain m' where m': "link_blocks ?p (block_at pool (Suc i)) = Some (block_at pool n, pool\<lparr>mp_blocks := Some m'\<rparr>)"
    "\<forall>k. Suc i \<le> k \<and> k < n \<longrightarrow> m' (block_at pool k) = Some (block_at pool (Suc k))"
    "\<forall>k < Suc i. m' (block_at pool k) = m1 (block_at pool k)"
    using Suc.IH [of ?p m1 "Suc i"] Suc.prems by auto
  have "m' (block_at pool k) = Some (block_at pool (Suc k))" if "i \<le> k \<and> k < n" for k
    using m'(2,3) that by (cases "k = i") (auto simp: m1_def)
  moreover have "m' (block_at pool k) = m (block_at pool k)" if "k < i" for k
    using m'(3) that block_at_inj [of pool k i] Suc.prems by (simp add: m1_def)
  ultimately show ?case using step m'(1) by (intro exI [of _ m']) simp
qed

lemma free_chain_blocks:
  "(\<forall>k. i \<le> k \<and> k < n \<longrightarrow> m (block_at pool k) = Some (block_at pool (Suc k))) \<Longrightarrow>
   m (block_at pool n) = None \<Longrightarrow> i + d = n \<Longrightarrow>
   free_chain m (Some (block_at pool i)) (map (block_at pool) [i..<Suc n])"
proof (induction d arbitrary: i)
  case (Suc d)
  have "free_chain m (Some (block_at pool (Suc i))) (map (block_at pool) [Suc i..<Suc n])"
    using Suc.prems by (intro Suc.IH) auto
  moreover have "[i..<Suc n] = i # [Suc i..<Suc n]" using Suc.prems by (simp add: upt_conv_Cons)
  ultimately show ?case using Suc.prems by (simp del: upt_Suc)
qed simp

lemma pool_create_ok:
  assumes n: "0 < unat nmemb"
    and small: "uint nmemb * uint (if sz > sizeof_ptr then sz else sizeof_ptr) < 2 ^ 63"
  shows "\<exists>pool. pool_create True nmemb sz = Some (Create_ok pool) \<and>
     mp_block_num pool = nmemb \<and> mp_block_allocated pool = 0 \<and>
     mp_block_size pool = (if sz > sizeof_ptr then sz else sizeof_ptr) \<and>
     pool_rep pool (map (block_at pool) [0..<unat nmemb])"
proof -
  let ?s = "if sz > sizeof_ptr then sz else sizeof_ptr"
  let ?p = "\<lparr>mp_block_num = nmemb, mp_block_size = ?s, mp_block_allocated = 0, mp_next = Some 0,
      mp_blocks = Some (\<lambda>_. None)\<rparr>"
  obtain k where k: "Suc k = unat (mp_block_num ?p)" using n by (metis Suc_pred mem_pool_t.select_convs(1))
  have s: "8 \<le> uint (mp_block_size ?p)" by (auto simp: word_less_alt)
  have small': "region_size ?p < 2 ^ 63" using small by (simp add: region_size_def)
  obtain m where m: "link_blocks ?p 0 = Some (block_at ?p k, ?p\<lparr>mp_blocks := Some m\<rparr>)"
    "\<forall>j. 0 \<le> j \<and> j < k \<longrightarrow> m (block_at ?p j) = Some (block_at ?p (Suc j))"
    using link_blocks_chain [OF s small' k, of "\<lambda>_. None" 0 k] by (auto simp: block_at_def)
  let ?q = "?p\<lparr>mp_blocks := Some (m(block_at ?p k := None))\<rparr>"
  have bq: "block_at ?q = block_at ?p" by (simp add: fun_eq_iff block_at_def)
  have "poke (?p\<lparr>mp_blocks := Some m\<rparr>) (block_at ?p k) None = Some ?q"
    using block_start_bounds [OF block_at_mem [of k ?p] s] k by (simp add: poke_def region_size_def)
  then have create: "pool_create True nmemb sz = Some (Create_ok ?q)"
    using m(1) small by (simp add: pool_create_def Let_def)
  have "free_chain (m(block_at ?p k := None)) (Some (block_at ?p 0)) (map (block_at ?p) [0..<Suc k])"
    using m(2) block_at_inj [OF s] by (intro free_chain_blocks [where d = k]) auto
  then have "pool_rep ?q (map (block_at ?q) [0..<unat nmemb])"
    using k s small' block_at_inj [OF s] unfolding pool_rep_def bq
    by (auto simp: distinct_map inj_on_def region_size_def block_starts_def block_at_def simp del: upt_Suc)
  with create show ?thesis by auto
qed

section \<open>The allocator interface\<close>

text \<open>
  What the connection code relies on. The laws speak of the list of free blocks; a client speaks of
  the set of blocks it owns, which is what the locale's lemmas are about.
\<close>

locale block_allocator =
  fixes rep :: "'p \<Rightarrow> 'a list \<Rightarrow> bool" and blocks :: "'p \<Rightarrow> 'a set"
    and alloc :: "'p \<Rightarrow> ('a option \<times> 'p) option" and release :: "'p \<Rightarrow> 'a option \<Rightarrow> 'p option"
  assumes rep_free: "rep p fl \<Longrightarrow> set fl \<subseteq> blocks p \<and> distinct fl"
    and alloc_nil: "rep p [] \<Longrightarrow> alloc p = Some (None, p)"
    and alloc_cons: "rep p (a # fl) \<Longrightarrow>
      \<exists>p'. alloc p = Some (Some a, p') \<and> rep p' fl \<and> blocks p' = blocks p"
    and release_some: "rep p fl \<Longrightarrow> a \<in> blocks p \<Longrightarrow> a \<notin> set fl \<Longrightarrow>
      \<exists>p'. release p (Some a) = Some p' \<and> rep p' (a # fl) \<and> blocks p' = blocks p"
begin

definition owns :: "'p \<Rightarrow> 'a set \<Rightarrow> bool" where
  "owns p L \<longleftrightarrow> (\<exists>fl. rep p fl \<and> L = blocks p - set fl)"

lemma alloc_owns:
  assumes "owns p L"
  shows "\<exists>r p'. alloc p = Some (r, p') \<and> blocks p' = blocks p \<and>
    (case r of None \<Rightarrow> L = blocks p \<and> p' = p
     | Some a \<Rightarrow> a \<in> blocks p \<and> a \<notin> L \<and> owns p' (insert a L))"
proof -
  obtain fl where fl: "rep p fl" "L = blocks p - set fl" using assms by (auto simp: owns_def)
  show ?thesis
  proof (cases fl)
    case Nil
    with fl show ?thesis using alloc_nil by auto
  next
    case (Cons a r)
    with fl obtain p' where "alloc p = Some (Some a, p')" "rep p' r" "blocks p' = blocks p"
      using alloc_cons by blast
    moreover have "insert a L = blocks p - set r" "a \<in> blocks p" "a \<notin> L"
      using fl Cons rep_free [of p fl] by auto
    ultimately show ?thesis unfolding owns_def by (auto intro!: exI [of _ r])
  qed
qed

lemma release_owns:
  assumes "owns p L" and "a \<in> L"
  shows "\<exists>p'. release p (Some a) = Some p' \<and> blocks p' = blocks p \<and> owns p' (L - {a})"
proof -
  obtain fl where fl: "rep p fl" "L = blocks p - set fl" using assms by (auto simp: owns_def)
  with assms(2) obtain p' where "release p (Some a) = Some p'" "rep p' (a # fl)" "blocks p' = blocks p"
    using release_some by blast
  with fl show ?thesis unfolding owns_def by (auto intro!: exI [of _ "a # fl"])
qed

lemma release_alloc:
  assumes "owns p L" and "a \<in> L"
  shows "\<exists>p' p''. release p (Some a) = Some p' \<and> alloc p' = Some (Some a, p'')"
proof -
  obtain fl where fl: "rep p fl" "L = blocks p - set fl" using assms by (auto simp: owns_def)
  with assms(2) obtain p' where "release p (Some a) = Some p'" "rep p' (a # fl)"
    using release_some by blast
  then show ?thesis using alloc_cons by blast
qed

end

interpretation pool: block_allocator pool_rep block_starts pool_alloc pool_free
proof unfold_locales
  show "pool_rep p fl \<Longrightarrow> set fl \<subseteq> block_starts p \<and> distinct fl" for p fl
    by (simp add: pool_rep_def)
qed (fact pool_alloc_empty pool_alloc_cons pool_free_ok)+

section \<open>Runs of a client\<close>

text \<open>
  The states a client can bring the pool to, with the set of blocks it holds: it allocates, gives
  back blocks it holds, and writes whatever it likes into them.
\<close>

inductive pool_run :: "64 word \<Rightarrow> 64 word \<Rightarrow> mem_pool_t \<Rightarrow> int set \<Rightarrow> bool" for nmemb sz where
  create: "pool_create True nmemb sz = Some (Create_ok p) \<Longrightarrow> pool_run nmemb sz p {}"
| alloc: "pool_run nmemb sz p L \<Longrightarrow> pool_alloc p = Some (r, p') \<Longrightarrow>
    pool_run nmemb sz p' (L \<union> set_option r)"
| free: "pool_run nmemb sz p L \<Longrightarrow> a \<in> L \<Longrightarrow> pool_free p (Some a) = Some p' \<Longrightarrow>
    pool_run nmemb sz p' (L - {a})"
| client_write: "pool_run nmemb sz p L \<Longrightarrow> a \<in> L \<Longrightarrow> poke p a v = Some p' \<Longrightarrow> pool_run nmemb sz p' L"

text \<open>A pool that can be created: at least one block, and a region \<open>calloc\<close> can give.\<close>

definition pool_fits :: "64 word \<Rightarrow> 64 word \<Rightarrow> bool" where
  "pool_fits nmemb sz \<longleftrightarrow>
     0 < unat nmemb \<and> uint nmemb * uint (if sz > sizeof_ptr then sz else sizeof_ptr) < 2 ^ 63"

lemma owns_write:
  assumes "pool.owns p L" and "a \<in> L" and "poke p a v = Some p'"
  shows "pool.owns p' L \<and> block_starts p' = block_starts p \<and> mp_block_num p' = mp_block_num p"
proof -
  obtain fl where fl: "pool_rep p fl" "L = block_starts p - set fl"
    using assms by (auto simp: pool.owns_def)
  then have "a \<notin> set fl" using assms(2) by auto
  with fl assms(3) have "pool_rep p' fl" "block_starts p' = block_starts p" "mp_block_num p' = mp_block_num p"
    by (auto simp: pool_rep_def poke_def region_size_def block_starts_def split: option.splits if_splits)
  with fl show ?thesis by (auto simp: pool.owns_def)
qed

lemma pool_alloc_num: "pool_alloc p = Some (r, p') \<Longrightarrow> mp_block_num p' = mp_block_num p"
  by (auto simp: pool_alloc_def bind_eq_Some_conv split: if_splits option.splits)

lemma pool_free_num: "pool_free p r = Some p' \<Longrightarrow> mp_block_num p' = mp_block_num p"
  by (auto simp: pool_free_def poke_def bind_eq_Some_conv split: if_splits option.splits)

lemma pool_run_owns:
  assumes "pool_fits nmemb sz" and "pool_run nmemb sz p L"
  shows "pool.owns p L \<and> mp_block_num p = nmemb"
  using assms(2)
proof (induction rule: pool_run.induct)
  case (create p)
  obtain q where "pool_create True nmemb sz = Some (Create_ok q)" "mp_block_num q = nmemb"
    "pool_rep q (map (block_at q) [0..<unat nmemb])"
    using pool_create_ok [of nmemb sz] assms(1) by (auto simp: pool_fits_def)
  moreover have "set (map (block_at q) [0..<unat (mp_block_num q)]) = block_starts q"
    by (auto simp: block_starts_def block_at_def)
  ultimately show ?case using create by (auto simp: pool.owns_def)
next
  case (alloc p L r p')
  then have "mp_block_num p' = nmemb" using pool_alloc_num by metis
  moreover have "pool.owns p' (L \<union> set_option r)"
    using pool.alloc_owns [of p L] alloc by (cases r) auto
  ultimately show ?case by simp
next
  case (free p L a p')
  with pool.release_owns [of p L a] show ?case by (auto simp: pool_free_num)
next
  case (client_write p L a v p')
  with owns_write [of p L a v p'] show ?case by simp
qed

lemma owns_count:
  assumes "pool.owns p L"
  shows "L \<subseteq> block_starts p" "card L = unat (mp_block_allocated p)"
    "card (block_starts p) = unat (mp_block_num p)"
proof -
  obtain fl where fl: "pool_rep p fl" "L = block_starts p - set fl"
    using assms by (auto simp: pool.owns_def)
  then have c: "card (block_starts p) = unat (mp_block_num p)"
    by (intro card_block_starts) (auto simp: pool_rep_def)
  moreover have "card L = card (block_starts p) - length fl"
    using fl by (auto simp: pool_rep_def card_Diff_subset distinct_card)
  ultimately show "card L = unat (mp_block_allocated p)"
    using fl(1) unfolding pool_rep_def by linarith
  show "L \<subseteq> block_starts p" using fl by auto
  show "card (block_starts p) = unat (mp_block_num p)" by (rule c)
qed

section \<open>Properties\<close>

text \<open>
  C26. In every state a client can reach, \<open>pool_alloc\<close> is defined; it returns null exactly when all
  blocks are held, and otherwise a block of the region that nobody holds. The blocks held are
  counted by \<open>block_allocated\<close>, whatever the client wrote into its blocks.
\<close>
theorem pool_alloc_fresh:
  assumes "pool_fits nmemb sz" and "pool_run nmemb sz p L"
  shows "card L = unat (mp_block_allocated p) \<and> L \<subseteq> block_starts p \<and>
    (\<exists>r p'. pool_alloc p = Some (r, p') \<and>
       (r = None \<longleftrightarrow> card L = unat nmemb) \<and> (\<forall>a. r = Some a \<longrightarrow> a \<in> block_starts p - L))"
proof -
  have own: "pool.owns p L" and n: "mp_block_num p = nmemb" using pool_run_owns [OF assms] by auto
  obtain r p' where r: "pool_alloc p = Some (r, p')"
    "case r of None \<Rightarrow> L = block_starts p \<and> p' = p
     | Some a \<Rightarrow> a \<in> block_starts p \<and> a \<notin> L \<and> pool.owns p' (insert a L)"
    using pool.alloc_owns [OF own] by blast
  have "r = None \<longleftrightarrow> card L = unat nmemb"
  proof (cases r)
    case (Some a)
    with r owns_count(1) [OF own] have "L \<subset> block_starts p" by auto
    then have "card L < card (block_starts p)" by (rule psubset_card_mono [rotated]) simp
    with Some n owns_count(3) [OF own] show ?thesis by simp
  qed (use r n owns_count(3) [OF own] in simp)
  with r owns_count [OF own] show ?thesis by (auto split: option.splits)
qed

theorem pool_alloc_fresh_witness:
  "\<exists>p. pool_create True 4 20 = Some (Create_ok p) \<and>
     (\<exists>a p'. pool_alloc p = Some (Some a, p') \<and> a \<in> block_starts p)"
proof -
  have fits: "pool_fits 4 20" by (simp add: pool_fits_def)
  then obtain p where p: "pool_create True 4 20 = Some (Create_ok p)"
    using pool_create_ok [of 4 20] by (auto simp: pool_fits_def)
  from pool_alloc_fresh [OF fits pool_run.create [OF p]] p show ?thesis by auto
qed

text \<open>
  C27. A block a client holds can be given back: \<open>pool_free\<close> is defined, the client no longer holds
  it, and the next \<open>pool_alloc\<close> returns that same block.
\<close>
theorem pool_free_alloc:
  assumes "pool_fits nmemb sz" and "pool_run nmemb sz p L" and "a \<in> L"
  shows "\<exists>p' p''. pool_free p (Some a) = Some p' \<and> pool_run nmemb sz p' (L - {a}) \<and>
     pool_alloc p' = Some (Some a, p'')"
proof -
  have "pool.owns p L" using pool_run_owns [OF assms(1,2)] by simp
  from pool.release_alloc [OF this assms(3)] obtain p' p'' where
    "pool_free p (Some a) = Some p'" "pool_alloc p' = Some (Some a, p'')" by blast
  with assms show ?thesis by (auto intro: pool_run.free)
qed

theorem pool_free_alloc_witness:
  "\<exists>p q p' p''. pool_create True 4 20 = Some (Create_ok p) \<and> pool_alloc p = Some (Some 0, q) \<and>
     pool_free q (Some 0) = Some p' \<and> pool_alloc p' = Some (Some 0, p'')"
proof -
  have fits: "pool_fits 4 20" by (simp add: pool_fits_def)
  then obtain p where p: "pool_create True 4 20 = Some (Create_ok p)"
    "pool_rep p (map (block_at p) [0..<4])"
    using pool_create_ok [of 4 20] by (auto simp: pool_fits_def)
  have "map (block_at p) [0..<4] = 0 # map (block_at p) [1..<4]"
    by (simp add: upt_conv_Cons block_at_def)
  with p(2) obtain q where q: "pool_alloc p = Some (Some 0, q)"
    using pool_alloc_cons by metis
  have "pool_run 4 20 q {0}"
    using pool_run.alloc [OF pool_run.create [OF p(1)] q] by simp
  from pool_free_alloc [OF fits this, of 0] p(1) q show ?thesis by auto
qed

end
