(* ===== verification/Connection.thy ===== *)
theory Connection
  imports Frames Mem_Pool
begin

text \<open>
  The life of a connection, the second half of \<^verbatim>\<open>src/src/connection.c\<close>: it is taken from the
  pool, registered with the heap and with epoll, and closed when it has been idle for too long. The
  state of the server is the heap with the kernel, the pool and the configuration. A connection's
  address is the offset of its block in the pool. The options set on a socket
  (\<open>set_fd_nonblocking\<close>, \<open>connection_set_nodelay\<close>) have no part in the model, whose sockets never
  block, and \<open>fcntl\<close> does not fail on an open descriptor.
\<close>

unbundle bit_operations_syntax

section \<open>State\<close>

text \<open>\<open>config_t\<close>; its \<open>rootdir_fd\<close>, which the request handlers read, is the \<open>g_rootdir_fd\<close> of the world.\<close>

record config_t =
  cfg_port :: "16 word"
  cfg_debug :: bool
  cfg_timeout :: int
  cfg_worker :: "32 word"
  cfg_rootdir :: "string option"

text \<open>
  The variables of one worker process. A block of the pool that is handed out is not cleared: what
  is in it is an arbitrary connection, \<open>sv_block\<close>.
\<close>

record server = "conn heap_state" +
  sv_world :: world
  sv_pool :: mem_pool_t
  sv_config :: config_t
  sv_listen_fd :: int
  sv_block :: "nat \<Rightarrow> conn"

abbreviation timeout :: "server \<Rightarrow> int" where "timeout s \<equiv> cfg_timeout (sv_config s)"
abbreviation clock :: "server \<Rightarrow> int" where "clock s \<equiv> k_now (sv_world s)"

section \<open>Operations\<close>

text \<open>\<open>connection_init\<close>; the buffer of the new request is named by the connection's address.\<close>

definition connection_init :: "server \<Rightarrow> (nat option \<times> server) option" where
  "connection_init s = do {
     (b, pool) \<leftarrow> pool_alloc (sv_pool s);
     let s = s\<lparr>sv_pool := pool\<rparr>;
     case b of
       None \<Rightarrow> Some (None, s)
     | Some a \<Rightarrow> do {
         let c = nat a;
         let (r, w) = request_init c (sv_world s);
         let s = s\<lparr>sv_world := w\<rparr>;
         case r of
           None \<Rightarrow> do { pool \<leftarrow> pool_free (sv_pool s) (Some a); Some (None, s\<lparr>sv_pool := pool\<rparr>) }
         | Some req \<Rightarrow> Some (Some c, s\<lparr>hs_conns := (hs_conns s)(c \<mapsto> (sv_block s c)\<lparr>c_req := req\<rparr>)\<rparr>)
       }
   }"

text \<open>The two buffers are freed with the connection: nothing can reach them afterwards.\<close>

definition connection_free :: "nat option \<Rightarrow> server \<Rightarrow> server option" where
  "connection_free c s =
     (case c of
        None \<Rightarrow> Some s
      | Some p \<Rightarrow> do {
          pool \<leftarrow> pool_free (sv_pool s) (Some (int p));
          Some (s\<lparr>hs_conns := (hs_conns s)(p := None), sv_pool := pool\<rparr>)
        })"

definition connection_close :: "nat option \<Rightarrow> server \<Rightarrow> (int \<times> server) option" where
  "connection_close c s =
     (case c of
        None \<Rightarrow> Some (OK, s)
      | Some p \<Rightarrow> do {
          x \<leftarrow> hs_conns s p;
          let (_, w) = lotos_epoll_del x (sv_world s);
          let w = close_fd (c_fd x) w;
          s \<leftarrow> connection_unregister p (s\<lparr>sv_world := w\<rparr>);
          s \<leftarrow> connection_free c s;
          Some (OK, s)
        })"

definition connection_accept :: "int \<Rightarrow> server \<Rightarrow> (nat option \<times> server) option" where
  "connection_accept fd s = do {
     (c, s) \<leftarrow> connection_init s;
     case c of
       None \<Rightarrow> do { (_, s) \<leftarrow> connection_close None s; Some (None, s) }
     | Some p \<Rightarrow> do {
         s \<leftarrow> upd_conn (\<lambda>x. x\<lparr>c_fd := fd, c_active_time := clock s\<rparr>) (Some p) s;
         (st, s) \<leftarrow> connection_register p s;
         if st = ERROR then do { (_, s) \<leftarrow> connection_close (Some p) s; Some (None, s) }
         else do {
           x \<leftarrow> hs_conns s p;
           let (st, x, w) = lotos_epoll_add p (EPOLLIN OR EPOLLET) x (sv_world s);
           let s = s\<lparr>hs_conns := (hs_conns s)(p \<mapsto> x), sv_world := w\<rparr>;
           if st = ERROR then do { (_, s) \<leftarrow> connection_close (Some p) s; Some (None, s) }
           else Some (Some p, s)
         }
       }
   }"

partial_function (option) connection_prune :: "server \<Rightarrow> server option" where
  "connection_prune s =
     (if heap_size s > 0 then do {
        c \<leftarrow> rd_slot s 0;
        x \<leftarrow> deref s c;
        if clock s - c_active_time x \<ge> timeout s then do {
          (_, s) \<leftarrow> connection_close c s;
          connection_prune s
        }
        else Some s
      }
      else Some s)"

declare connection_prune.simps [code]

definition connecion_is_expired :: "conn \<Rightarrow> server \<Rightarrow> bool" where
  "connecion_is_expired c s \<longleftrightarrow> clock s - c_active_time c > timeout s"

section \<open>The heap inside the server\<close>

text \<open>The heap only depends on the array and on the index and time of the connections in it.\<close>

lemma heap_inv_cong:
  assumes inv: "heap_inv s" and arr: "lotos_connections s' = lotos_connections s" "heap_size s' = heap_size s"
    and same: "\<And>p c. p \<in> members s \<Longrightarrow> hs_conns s p = Some c \<Longrightarrow>
      \<exists>c'. hs_conns s' p = Some c' \<and> c_heap_idx c' = c_heap_idx c \<and> c_active_time c' = c_active_time c"
  shows "heap_inv s'" and "members s' = members s"
proof -
  have ptr: "slot_ptr s' = slot_ptr s" using arr by (simp add: slot_ptr_def fun_eq_iff)
  then show mem: "members s' = members s" using arr by (simp add: members_def)
  have wf: "heap_wf s" using inv by (simp add: heap_inv_def)
  have at: "\<exists>c'. lotos_connections s' i = Some (slot_ptr s i) \<and> hs_conns s' (slot_ptr s i) = Some c' \<and> c_heap_idx c' = i \<and>
      c_active_time c' = keys s i" if i: "0 \<le> i" "i < heap_size s" for i
  proof -
    obtain c where "hs_conns s (slot_ptr s i) = Some c" "c_heap_idx c = i" "c_active_time c = keys s i" "slot_ptr s i \<in> members s"
      using heap_wfD [OF wf i] i by (auto simp: members_def)
    then show ?thesis using same heap_wfD(1) [OF wf i] arr by fastforce
  qed
  have k: "keys s' i = keys s i" if "0 \<le> i" "i < heap_size s" for i
    using at [OF that] ptr by (auto simp: keys_def atime_def)
  have "keys s' (par i) \<le> keys s' i" if "0 < i" "i < heap_size s" for i
    using inv that k [of i] k [of "par i"] par_less [of i] by (auto simp: heap_inv_def ord_heap_def)
  then have "ord_heap (keys s') (heap_size s')" using arr by (simp add: ord_heap_def)
  moreover have "heap_wf s'" using wf at arr unfolding heap_wf_def by auto
  ultimately show "heap_inv s'" by (simp add: heap_inv_def)
qed

lemma heap_view_world [simp]:
  fixes s :: server
  shows "heap_inv (s\<lparr>sv_world := w\<rparr>) = heap_inv s" "members (s\<lparr>sv_world := w\<rparr>) = members s" "keys (s\<lparr>sv_world := w\<rparr>) = keys s"
    "strip_idx (s\<lparr>sv_world := w\<rparr>) = strip_idx s" "atime (s\<lparr>sv_world := w\<rparr>) = atime s"
    "heap_inv (s\<lparr>sv_pool := pl\<rparr>) = heap_inv s" "members (s\<lparr>sv_pool := pl\<rparr>) = members s" "keys (s\<lparr>sv_pool := pl\<rparr>) = keys s"
    "strip_idx (s\<lparr>sv_pool := pl\<rparr>) = strip_idx s" "atime (s\<lparr>sv_pool := pl\<rparr>) = atime s"
proof -
  have "slot_ptr (s\<lparr>sv_world := w\<rparr>) = slot_ptr s" "slot_ptr (s\<lparr>sv_pool := pl\<rparr>) = slot_ptr s"
    by (simp_all add: slot_ptr_def fun_eq_iff)
  moreover show at: "atime (s\<lparr>sv_world := w\<rparr>) = atime s" "atime (s\<lparr>sv_pool := pl\<rparr>) = atime s"
    by (simp_all add: atime_def fun_eq_iff)
  ultimately show k: "keys (s\<lparr>sv_world := w\<rparr>) = keys s" "keys (s\<lparr>sv_pool := pl\<rparr>) = keys s"
    "members (s\<lparr>sv_world := w\<rparr>) = members s" "members (s\<lparr>sv_pool := pl\<rparr>) = members s"
    by (simp_all add: keys_def members_def fun_eq_iff)
  show "heap_inv (s\<lparr>sv_world := w\<rparr>) = heap_inv s" "heap_inv (s\<lparr>sv_pool := pl\<rparr>) = heap_inv s"
    by (simp_all add: heap_inv_def k heap_wf_def)
  show "strip_idx (s\<lparr>sv_world := w\<rparr>) = strip_idx s" "strip_idx (s\<lparr>sv_pool := pl\<rparr>) = strip_idx s"
    by (simp_all add: strip_idx_def fun_eq_iff)
qed

section \<open>The invariant\<close>

text \<open>
  A live connection is registered with the kernel under its own address, for the events it has
  recorded, and its socket is open.
\<close>

definition conn_ok :: "nat \<Rightarrow> conn \<Rightarrow> world \<Rightarrow> bool" where
  "conn_ok p c w \<longleftrightarrow> c_data_ptr c = Some p \<and> 0 \<le> c_fd c \<and> sock_at (c_fd c) w \<noteq> None \<and> input_ok c w \<and>
     0 \<le> c_active_time c \<and> c_active_time c \<le> k_now w"

definition listening :: "int \<Rightarrow> world \<Rightarrow> bool" where
  "listening l w \<longleftrightarrow> 0 \<le> l \<and> fd_lookup w l = Some Fd_other \<and> k_epoll w l = Some (EPOLLIN, None) \<and>
     0 \<le> g_rootdir_fd w \<and> (\<exists>d off. fd_lookup w (g_rootdir_fd w) = Some (Fd_file d off))"

text \<open>No two connections share a socket, and everything in the epoll set is the listener or a live connection.\<close>

definition conns_ok :: "(nat \<rightharpoonup> conn) \<Rightarrow> world \<Rightarrow> int \<Rightarrow> bool" where
  "conns_ok C w l \<longleftrightarrow> (\<forall>p c. C p = Some c \<longrightarrow> conn_ok p c w) \<and>
     (\<forall>p q c d. C p = Some c \<and> C q = Some d \<and> c_fd c = c_fd d \<longrightarrow> p = q) \<and>
     (\<forall>f. k_epoll w f \<noteq> None \<longrightarrow> f = l \<or> (\<exists>p c. C p = Some c \<and> c_fd c = f)) \<and> listening l w"

text \<open>
  The connections of \<open>A\<close> hold their resource: it is an open file that is neither the document root
  nor the resource of another of them.
\<close>

definition held :: "nat set \<Rightarrow> (nat \<rightharpoonup> conn) \<Rightarrow> world \<Rightarrow> bool" where
  "held A C w \<longleftrightarrow> (\<forall>p c. p \<in> A \<and> C p = Some c \<longrightarrow> res_ok c w \<and> r_resource_fd (c_req c) \<noteq> g_rootdir_fd w) \<and>
     (\<forall>p q c d. p \<in> A \<and> q \<in> A \<and> C p = Some c \<and> C q = Some d \<and>
        r_resource_fd (c_req c) = r_resource_fd (c_req d) \<and> r_resource_fd (c_req c) \<noteq> - 1 \<longrightarrow> p = q)"

text \<open>
  The invariant of the server: the live connections are those in the heap, their blocks are those
  taken from the pool, and the pool has no more blocks than the heap has slots.
\<close>

definition server_ok :: "nat set \<Rightarrow> server \<Rightarrow> bool" where
  "server_ok A s \<longleftrightarrow> heap_inv s \<and> dom (strip_idx s) = members s \<and>
     pool.owns (sv_pool s) (int ` members s) \<and> unat (mp_block_num (sv_pool s)) \<le> 10240 \<and>
     conns_ok (strip_idx s) (sv_world s) (sv_listen_fd s) \<and> held A (strip_idx s) (sv_world s)"

text \<open>A connection that was set to expire is never looked at again before it is closed.\<close>

definition active :: "server \<Rightarrow> nat set" where
  "active s = {p \<in> members s. atime s p \<noteq> 0}"

definition server_inv :: "server \<Rightarrow> bool" where
  "server_inv s \<longleftrightarrow> server_ok (active s) s"

lemma held_mono: "held A C w \<Longrightarrow> B \<subseteq> A \<Longrightarrow> held B C w"
  unfolding held_def by blast

lemma server_ok_mono: "server_ok A s \<Longrightarrow> B \<subseteq> A \<Longrightarrow> server_ok B s"
  using held_mono by (auto simp: server_ok_def)

section \<open>Steps of the world\<close>

lemma conns_okD: "conns_ok C w l \<Longrightarrow> C p = Some c \<Longrightarrow> conn_ok p c w"
  by (simp add: conns_ok_def)

lemma conns_ok_inj: "conns_ok C w l \<Longrightarrow> C p = Some c \<Longrightarrow> C q = Some d \<Longrightarrow> c_fd c = c_fd d \<Longrightarrow> p = q"
  unfolding conns_ok_def by blast

lemma conns_ok_reg: "conns_ok C w l \<Longrightarrow> k_epoll w f = Some ev \<Longrightarrow> f \<noteq> l \<Longrightarrow> \<exists>p c. C p = Some c \<and> c_fd c = f"
  unfolding conns_ok_def by (metis option.distinct(1))

lemma conns_okI:
  assumes "\<And>p c. C p = Some c \<Longrightarrow> conn_ok p c w" and "\<And>p q c d. C p = Some c \<Longrightarrow> C q = Some d \<Longrightarrow> c_fd c = c_fd d \<Longrightarrow> p = q"
    and "\<And>f ev. k_epoll w f = Some ev \<Longrightarrow> f \<noteq> l \<Longrightarrow> \<exists>p c. C p = Some c \<and> c_fd c = f" and "listening l w"
  shows "conns_ok C w l"
  using assms unfolding conns_ok_def by (metis not_None_eq)

lemma conn_ok_sock: "conn_ok p c w \<Longrightarrow> \<exists>s. fd_lookup w (c_fd c) = Some (Fd_sock s)"
  by (auto simp: conn_ok_def sock_at_def split: option.splits fd_object.splits)

text \<open>What keeps a connection and its resource: its socket, its file and its registration stay.\<close>

lemma conn_ok_frame:
  assumes "conn_ok p c w" and "sock_at (c_fd c) w' \<noteq> None" and "k_epoll w' (c_fd c) = k_epoll w (c_fd c)" and "k_now w \<le> k_now w'"
  shows "conn_ok p c w'"
  using assms by (auto simp: conn_ok_def input_ok_def interest_ok_def)

lemma held_frame:
  assumes "held A C w" and "\<And>p. D p = C p \<or> D p = None" and "g_rootdir_fd w' = g_rootdir_fd w"
    and "\<And>p c i off. p \<in> A \<Longrightarrow> D p = Some c \<Longrightarrow> fd_lookup w (r_resource_fd (c_req c)) = Some (Fd_file i off) \<Longrightarrow>
      fd_lookup w' (r_resource_fd (c_req c)) = Some (Fd_file i off)"
  shows "held A D w'"
proof -
  have sub: "C p = Some c" if "D p = Some c" for p c using assms(2) [of p] that by auto
  have "res_ok c w' \<and> r_resource_fd (c_req c) \<noteq> g_rootdir_fd w'" if "p \<in> A" "D p = Some c" for p c
  proof -
    have "res_ok c w \<and> r_resource_fd (c_req c) \<noteq> g_rootdir_fd w" using assms(1) sub [OF that(2)] that(1) unfolding held_def by blast
    then show ?thesis using assms(3) assms(4) [OF that] unfolding res_ok_def by auto
  qed
  then show ?thesis using assms(1) sub unfolding held_def by blast
qed

text \<open>A connection is closed: out of the epoll set, then the socket.\<close>

lemma drop_conn:
  assumes ok: "conns_ok C w l" and c: "C p = Some c" and w': "lotos_epoll_del c w = (st, w1)" "w' = close_fd (c_fd c) w1"
  shows "conns_ok (C(p := None)) w' l" and "held A C w \<Longrightarrow> held A (C(p := None)) w'" and "world_frame w w'"
    and "fd_lookup w' = (fd_lookup w)(c_fd c := None)" and "k_epoll w' = (k_epoll w)(c_fd c := None)"
proof -
  note k = conns_okD [OF ok c]
  have "k_epoll w (c_fd c) = Some (event_of c)" using k by (simp add: conn_ok_def input_ok_def interest_ok_def)
  then have eq: "w' = w\<lparr>k_epoll := (k_epoll w)(c_fd c := None), k_fds := AList.delete (c_fd c) (k_fds w)\<rparr>"
    using w' by (auto simp: lotos_epoll_del_def epoll_ctl_def close_fd_def)
  show "k_epoll w' = (k_epoll w)(c_fd c := None)" by (simp add: eq)
  show fd: "fd_lookup w' = (fd_lookup w)(c_fd c := None)"
    unfolding eq by (simp add: fd_lookup_def fun_eq_iff delete_conv')
  obtain sk where sk: "fd_lookup w (c_fd c) = Some (Fd_sock sk)" using conn_ok_sock [OF k] by blast
  have other: "c_fd d \<noteq> c_fd c" if "C q = Some d" "q \<noteq> p" for q d
    using conns_ok_inj [OF ok c that(1)] that(2) by auto
  have "conn_ok q d w'" if "(C(p := None)) q = Some d" for q d
  proof -
    have q: "C q = Some d" "q \<noteq> p" using that by (auto split: if_splits)
    note k' = conns_okD [OF ok q(1)] and o = other [OF q]
    have "sock_at (c_fd d) w' = sock_at (c_fd d) w" using fd o by (simp add: sock_at_def)
    moreover have "k_epoll w' (c_fd d) = k_epoll w (c_fd d)" "k_now w' = k_now w" using o by (simp_all add: eq)
    ultimately show ?thesis using conn_ok_frame [OF k'] k' by (simp add: conn_ok_def)
  qed
  moreover have "listening l w'"
  proof -
    have l: "listening l w" using ok by (simp add: conns_ok_def)
    then have "l \<noteq> c_fd c" "g_rootdir_fd w \<noteq> c_fd c" using sk by (auto simp: listening_def)
    moreover have "g_rootdir_fd w' = g_rootdir_fd w" "k_epoll w' = (k_epoll w)(c_fd c := None)" by (simp_all add: eq)
    ultimately show ?thesis using l fd by (simp add: listening_def)
  qed
  moreover have "\<exists>q d. (C(p := None)) q = Some d \<and> c_fd d = f" if t: "k_epoll w' f = Some ev" "f \<noteq> l" for f ev
  proof -
    have f: "f \<noteq> c_fd c" "k_epoll w f = Some ev" using t(1) by (auto simp: eq split: if_splits)
    then obtain q d where "C q = Some d" "c_fd d = f" using conns_ok_reg [OF ok f(2) t(2)] by blast
    then show ?thesis using c f(1) by (intro exI [of _ q] exI [of _ d]) auto
  qed
  moreover have "q = r" if "(C(p := None)) q = Some d" "(C(p := None)) r = Some e" "c_fd d = c_fd e" for q r d e
    using conns_ok_inj [OF ok, of q d r e] that by (simp split: if_splits)
  ultimately show "conns_ok (C(p := None)) w' l" by (intro conns_okI) blast+
  show "held A C w \<Longrightarrow> held A (C(p := None)) w'"
    by (rule held_frame [of A C w]) (use fd sk in \<open>auto simp: eq\<close>)
  have "w' = w\<lparr>k_fds := k_fds w', k_epoll := k_epoll w', k_realloc := k_realloc w, g_err_page := g_err_page w\<rparr>"
    unfolding eq by simp
  then show "world_frame w w'" unfolding world_frame_def by blast
qed

section \<open>Closing\<close>

text \<open>What only the start of the server sets.\<close>

definition same_setup :: "server \<Rightarrow> server \<Rightarrow> bool" where
  "same_setup s s' \<longleftrightarrow> sv_config s' = sv_config s \<and> sv_listen_fd s' = sv_listen_fd s \<and> sv_block s' = sv_block s \<and>
     mp_block_num (sv_pool s') = mp_block_num (sv_pool s) \<and> clock s' = clock s \<and>
     g_rootdir_fd (sv_world s') = g_rootdir_fd (sv_world s) \<and> g_status_table (sv_world s') = g_status_table (sv_world s) \<and>
     g_mime_dict (sv_world s') = g_mime_dict (sv_world s) \<and> w_header_dict (sv_world s') = w_header_dict (sv_world s)"

lemma same_setup_refl [simp]: "same_setup s s"
  by (simp add: same_setup_def)

lemma same_setup_trans [trans]: "same_setup s s1 \<Longrightarrow> same_setup s1 s2 \<Longrightarrow> same_setup s s2"
  by (simp add: same_setup_def)

lemma more_sel:
  fixes s s' :: server
  assumes "heap_state.more s' = heap_state.more s"
  shows "sv_world s' = sv_world s" "sv_pool s' = sv_pool s" "sv_config s' = sv_config s" "sv_listen_fd s' = sv_listen_fd s"
    "sv_block s' = sv_block s"
  using assms by (cases s'; cases s; simp)+

lemma world_frame_sel:
  "world_frame w w' \<Longrightarrow> k_now w' = k_now w \<and> g_rootdir_fd w' = g_rootdir_fd w \<and> g_status_table w' = g_status_table w \<and>
    g_mime_dict w' = g_mime_dict w \<and> w_header_dict w' = w_header_dict w \<and> k_pending w' = k_pending w"
  by (auto simp: world_frame_def)

lemma strip_idx_Some: "hs_conns s p = Some c \<Longrightarrow> strip_idx s p = Some (c\<lparr>c_heap_idx := 0\<rparr>)"
  by (simp add: strip_idx_def)

lemma conn_ok_idx [simp]: "conn_ok p (c\<lparr>c_heap_idx := i\<rparr>) w = conn_ok p c w"
  by (simp add: conn_ok_def input_ok_def interest_ok_def event_of_def CONN_IS_IN_def)

lemma server_okD:
  assumes "server_ok A s"
  shows "heap_inv s" "dom (strip_idx s) = members s" "pool.owns (sv_pool s) (int ` members s)"
    "unat (mp_block_num (sv_pool s)) \<le> 10240" "conns_ok (strip_idx s) (sv_world s) (sv_listen_fd s)"
    "held A (strip_idx s) (sv_world s)" "hs_conns s p = Some c \<Longrightarrow> conn_ok p c (sv_world s) \<and> p \<in> members s"
proof -
  show "heap_inv s" "dom (strip_idx s) = members s" "pool.owns (sv_pool s) (int ` members s)"
    "unat (mp_block_num (sv_pool s)) \<le> 10240" "held A (strip_idx s) (sv_world s)"
    and ok: "conns_ok (strip_idx s) (sv_world s) (sv_listen_fd s)"
    using assms by (simp_all add: server_ok_def)
  show "conn_ok p c (sv_world s) \<and> p \<in> members s" if "hs_conns s p = Some c"
    using conns_okD [OF ok strip_idx_Some [OF that]] strip_idx_Some [OF that] \<open>dom (strip_idx s) = members s\<close> by auto
qed

text \<open>Closing, as the heap and the pool see it.\<close>

lemma close_heap:
  assumes inv: "heap_inv s" and p: "p \<in> members s" "hs_conns s p = Some x" and own: "pool.owns (sv_pool s) (int ` members s)"
    and last: "c_heap_idx x = 0 \<or> keys s (par (c_heap_idx x)) \<le> keys s (heap_size s - 1)"
  shows "\<exists>s'. connection_close (Some p) s = Some (OK, s') \<and> heap_inv s' \<and> strip_idx s' = (strip_idx s)(p := None) \<and>
    members s' = members s - {p} \<and> pool.owns (sv_pool s') (int ` members s') \<and> mp_block_num (sv_pool s') = mp_block_num (sv_pool s) \<and>
    sv_world s' = close_fd (c_fd x) (snd (lotos_epoll_del x (sv_world s))) \<and>
    sv_config s' = sv_config s \<and> sv_listen_fd s' = sv_listen_fd s \<and> sv_block s' = sv_block s"
proof -
  let ?w = "close_fd (c_fd x) (snd (lotos_epoll_del x (sv_world s)))" let ?s = "s\<lparr>sv_world := ?w\<rparr>"
  have hp: "heap_inv ?s" "p \<in> members ?s" "hs_conns ?s p = Some x" using inv p by simp_all
  obtain s1 where s1: "connection_unregister p ?s = Some s1" "heap_inv s1" "members s1 = members s - {p}"
    "strip_idx s1 = strip_idx s" "heap_state.more s1 = heap_state.more ?s"
    using unregister_ok [OF hp] last by auto
  note m = more_sel [OF s1(5)]
  obtain pl where pl: "pool_free (sv_pool s) (Some (int p)) = Some pl" "block_starts pl = block_starts (sv_pool s)"
    "pool.owns pl (int ` members s - {int p})"
    using pool.release_owns [OF own, of "int p"] p by blast
  let ?t = "s1\<lparr>hs_conns := (hs_conns s1)(p := None), sv_pool := pl\<rparr>"
  have "connection_close (Some p) s = Some (OK, ?t)"
    using p(2) s1(1) pl(1) m by (simp add: connection_close_def connection_free_def split_beta)
  moreover have t: "heap_inv ?t" "members ?t = members s1" by (rule heap_inv_cong [OF s1(2)]; use s1(3) in auto)+
  moreover have "strip_idx ?t = (strip_idx s)(p := None)" using s1(4) by (auto simp: strip_idx_def fun_eq_iff)
  moreover have "int ` (members s - {p}) = int ` members s - {int p}" by auto
  ultimately show ?thesis using m pl(3) s1(3) pool_free_num [OF pl(1)] by (intro exI [of _ ?t]) simp
qed

lemma connection_close_ok:
  assumes ok: "server_ok A s" and x: "hs_conns s p = Some x"
    and last: "c_heap_idx x = 0 \<or> keys s (par (c_heap_idx x)) \<le> keys s (heap_size s - 1)"
  shows "\<exists>s'. connection_close (Some p) s = Some (OK, s') \<and> server_ok A s' \<and> strip_idx s' = (strip_idx s)(p := None) \<and>
    members s' = members s - {p} \<and> same_setup s s' \<and>
    fd_lookup (sv_world s') = (fd_lookup (sv_world s))(c_fd x := None) \<and> k_epoll (sv_world s') = (k_epoll (sv_world s))(c_fd x := None)"
proof -
  note D = server_okD [OF ok]
  have p: "p \<in> members s" using D(7) [OF x] by simp
  obtain s' where s': "connection_close (Some p) s = Some (OK, s')" "heap_inv s'" "strip_idx s' = (strip_idx s)(p := None)"
    "members s' = members s - {p}" "pool.owns (sv_pool s') (int ` members s')" "mp_block_num (sv_pool s') = mp_block_num (sv_pool s)"
    "sv_world s' = close_fd (c_fd x) (snd (lotos_epoll_del x (sv_world s)))"
    "sv_config s' = sv_config s" "sv_listen_fd s' = sv_listen_fd s" "sv_block s' = sv_block s"
    using close_heap [OF D(1) p x D(3) last] by blast
  obtain st w1 where "lotos_epoll_del (x\<lparr>c_heap_idx := 0\<rparr>) (sv_world s) = (st, w1)" "sv_world s' = close_fd (c_fd (x\<lparr>c_heap_idx := 0\<rparr>)) w1"
    using s'(7) by (cases "lotos_epoll_del x (sv_world s)") (simp add: lotos_epoll_del_def)
  note drop = drop_conn [OF D(5) strip_idx_Some [OF x] this]
  have "server_ok A s'" unfolding server_ok_def s'(3,9) using s' drop(1) drop(2) [OF D(6)] D(2,4) by auto
  moreover have "same_setup s s'" using s' world_frame_sel [OF drop(3)] by (simp add: same_setup_def)
  ultimately show ?thesis using s' drop(4,5) by auto
qed

section \<open>Pruning\<close>

text \<open>
  The state while the loop runs: a subset of the connections there were, the others closed. The loop
  is the client of the heap's interface, with \<open>connection_close\<close> as the operation that drops the
  first connection.
\<close>

definition pruning :: "nat set \<Rightarrow> server \<Rightarrow> server \<Rightarrow> bool" where
  "pruning A s0 s \<longleftrightarrow> server_ok A s \<and> same_setup s0 s \<and> strip_idx s \<subseteq>\<^sub>m strip_idx s0 \<and>
     fd_lookup (sv_world s) \<subseteq>\<^sub>m fd_lookup (sv_world s0) \<and>
     (\<forall>q c. strip_idx s0 q = Some c \<and> q \<notin> members s \<longrightarrow>
        fd_lookup (sv_world s) (c_fd c) = None \<and> k_epoll (sv_world s) (c_fd c) = None)"

definition close_first :: "nat \<Rightarrow> server \<Rightarrow> server option" where
  "close_first p s = map_option snd (connection_close (Some p) s)"

lemma atime_strip: "p \<in> dom (strip_idx s) \<Longrightarrow> atime s p = c_active_time (the (strip_idx s p))"
  by (auto simp: atime_def strip_idx_def)

lemma close_first_ok:
  assumes pr: "pruning A s0 s" and first: "first_conn s = Some p"
  shows "\<exists>s'. close_first p s = Some s' \<and> pruning A s0 s' \<and> members s' = members s - {p} \<and>
    (\<forall>q \<in> members s'. atime s' q = atime s q)"
proof -
  have ok: "server_ok A s" and su: "same_setup s0 s" and sub: "strip_idx s \<subseteq>\<^sub>m strip_idx s0"
    and fds: "fd_lookup (sv_world s) \<subseteq>\<^sub>m fd_lookup (sv_world s0)"
    and gone: "\<And>q c. strip_idx s0 q = Some c \<Longrightarrow> q \<notin> members s \<Longrightarrow>
      fd_lookup (sv_world s) (c_fd c) = None \<and> k_epoll (sv_world s) (c_fd c) = None"
    using pr by (auto simp: pruning_def)
  obtain x where x: "hs_conns s p = Some x" "c_heap_idx x = 0" using first_conn_root [OF server_okD(1) [OF ok] first] by blast
  obtain s' where s': "connection_close (Some p) s = Some (OK, s')" "server_ok A s'" "strip_idx s' = (strip_idx s)(p := None)"
    "members s' = members s - {p}" "same_setup s s'"
    "fd_lookup (sv_world s') = (fd_lookup (sv_world s))(c_fd x := None)" "k_epoll (sv_world s') = (k_epoll (sv_world s))(c_fd x := None)"
    using connection_close_ok [OF ok x(1)] x(2) by blast
  have p0: "strip_idx s0 p = Some (x\<lparr>c_heap_idx := 0\<rparr>)" using strip_idx_Some [OF x(1)] sub by (auto simp: map_le_def dom_def)
  have "fd_lookup (sv_world s') (c_fd c) = None \<and> k_epoll (sv_world s') (c_fd c) = None"
    if t: "strip_idx s0 q = Some c" "q \<notin> members s'" for q c
  proof (cases "q = p")
    case True
    then have "c_fd c = c_fd x" using t p0 by auto
    then show ?thesis by (simp add: s'(6,7))
  next
    case False
    then have "q \<notin> members s" using t s'(4) by simp
    from gone [OF t(1) this] show ?thesis by (simp add: s'(6,7))
  qed
  moreover have "strip_idx s' \<subseteq>\<^sub>m strip_idx s0" using sub s'(3) by (auto simp: map_le_def)
  moreover have "fd_lookup (sv_world s') \<subseteq>\<^sub>m fd_lookup (sv_world s0)" using fds s'(6) by (auto simp: map_le_def)
  ultimately have "pruning A s0 s'" using s' same_setup_trans [OF su] unfolding pruning_def by blast
  moreover have "atime s' q = atime s q" if "q \<in> members s'" for q
  proof -
    have "q \<in> dom (strip_idx s')" "q \<in> dom (strip_idx s)" "q \<noteq> p" using server_okD(2) [OF ok] server_okD(2) [OF s'(2)] that s'(4) by auto
    then show ?thesis using s'(3) by (simp add: atime_strip)
  qed
  ultimately show ?thesis using s' by (auto simp: close_first_def)
qed

interpretation prune_q: expiry_queue "pruning A s0" members atime first_conn close_first for A s0
proof unfold_locales
  fix s p assume pr: "pruning A s0 s"
  then have inv: "heap_inv s" by (auto simp: pruning_def server_ok_def)
  show "finite (members s)" by (rule heap_q.finite_mem [OF inv])
  show "first_conn s = None \<longleftrightarrow> members s = {}" by (rule heap_q.first_none [OF inv])
  assume first: "first_conn s = Some p"
  show "p \<in> members s \<and> (\<forall>q \<in> members s. atime s p \<le> atime s q)" by (rule heap_q.first_least [OF inv first])
  show "\<exists>s'. close_first p s = Some s' \<and> pruning A s0 s' \<and> members s' = members s - {p} \<and>
    (\<forall>q \<in> members s'. atime s' q = atime s q)" by (rule close_first_ok [OF pr first])
qed

lemma prune_step:
  assumes "pruning A s0 s"
  shows "connection_prune s = (case first_conn s of None \<Rightarrow> Some s
    | Some p \<Rightarrow> if clock s0 - atime s p \<ge> timeout s0 then close_first p s \<bind> connection_prune else Some s)"
proof -
  have inv: "heap_inv s" and c: "clock s = clock s0" "timeout s = timeout s0"
    using assms by (auto simp: pruning_def server_ok_def same_setup_def)
  show ?thesis
  proof (cases "heap_size s > 0")
    case False
    then show ?thesis by (subst connection_prune.simps) (simp add: first_conn_def)
  next
    case True
    have wf: "heap_wf s" using inv by (simp add: heap_inv_def)
    obtain x where x: "lotos_connections s 0 = Some (slot_ptr s 0)" "hs_conns s (slot_ptr s 0) = Some x"
      using heap_wfD [OF wf, of 0] True by auto
    then have "first_conn s = Some (slot_ptr s 0)" "rd_slot s 0 = Some (Some (slot_ptr s 0))"
      "deref s (Some (slot_ptr s 0)) = Some x" "atime s (slot_ptr s 0) = c_active_time x"
      using True by (simp_all add: first_conn_def rd_slot_def deref_def atime_def)
    then show ?thesis using True c
      by (subst connection_prune.simps) (cases "connection_close (Some (slot_ptr s 0)) s"; auto simp: close_first_def)
  qed
qed

lemma prune_ok:
  assumes ok: "server_ok A s"
  shows "\<exists>s'. connection_prune s = Some s' \<and> pruning A s s' \<and> members s' = {q \<in> members s. clock s - atime s q < timeout s} \<and>
    (\<forall>q \<in> members s'. atime s' q = atime s q)"
proof -
  have pr: "pruning A s s" using ok server_okD(2) [OF ok] by (auto simp: pruning_def dom_def)
  have "\<exists>s'. connection_prune s = Some s' \<and> pruning A s s' \<and>
      members s' = {q \<in> members s. \<not> clock s - atime s q \<ge> timeout s} \<and> (\<forall>q \<in> members s'. atime s' q = atime s q)"
    by (rule prune_q.prune_exact [where old = "\<lambda>t. clock s - t \<ge> timeout s", OF prune_step _ pr]) auto
  then show ?thesis by (simp add: not_le)
qed

section \<open>Accepting\<close>

text \<open>A step in which everything that is open stays open, as what it was.\<close>

definition fds_kept :: "world \<Rightarrow> world \<Rightarrow> bool" where
  "fds_kept w w' \<longleftrightarrow> (\<forall>f ob. fd_lookup w f = Some ob \<longrightarrow>
     (case ob of Fd_sock _ \<Rightarrow> \<exists>s. fd_lookup w' f = Some (Fd_sock s) | _ \<Rightarrow> fd_lookup w' f = Some ob))"

lemma fds_keptD:
  assumes "fds_kept w w'"
  shows "sock_at f w \<noteq> None \<Longrightarrow> sock_at f w' \<noteq> None" and "fd_lookup w f = Some Fd_other \<Longrightarrow> fd_lookup w' f = Some Fd_other"
    and "fd_lookup w f = Some (Fd_file i off) \<Longrightarrow> fd_lookup w' f = Some (Fd_file i off)"
proof -
  show "sock_at f w' \<noteq> None" if so: "sock_at f w \<noteq> None"
  proof -
    obtain s where "fd_lookup w f = Some (Fd_sock s)" using so by (auto simp: sock_at_def split: option.splits fd_object.splits)
    then obtain s' where "fd_lookup w' f = Some (Fd_sock s')" using assms unfolding fds_kept_def by fastforce
    then show ?thesis by (simp add: sock_at_def)
  qed
qed (use assms in \<open>fastforce simp: fds_kept_def\<close>)+

lemma conns_ok_frame:
  assumes "fds_kept w w'" and "k_epoll w' = k_epoll w" and "k_now w \<le> k_now w'" and "g_rootdir_fd w' = g_rootdir_fd w"
  shows "conns_ok C w l \<Longrightarrow> conns_ok C w' l" and "held A C w \<Longrightarrow> held A C w'"
proof -
  note k = fds_keptD [OF assms(1)]
  show "conns_ok C w' l" if ok: "conns_ok C w l"
  proof (rule conns_okI)
    fix p c assume "C p = Some c"
    then have c: "conn_ok p c w" by (rule conns_okD [OF ok])
    show "conn_ok p c w'" by (rule conn_ok_frame [OF c]) (use c k assms in \<open>auto simp: conn_ok_def\<close>)
  next
    have "listening l w" using ok by (simp add: conns_ok_def)
    then show "listening l w'" using k assms by (auto simp: listening_def)
  qed (use conns_ok_inj [OF ok] conns_ok_reg [OF ok] assms(2) in auto)
  show "held A C w \<Longrightarrow> held A C w'" by (rule held_frame [of A C w]) (use k assms in auto)
qed

lemma fds_kept_same: "fd_lookup w' = fd_lookup w \<Longrightarrow> fds_kept w w'"
  by (auto simp: fds_kept_def split: fd_object.splits)

lemma request_init_frame:
  fixes w :: world
  assumes "request_init a w = (r, w')"
  shows "\<exists>ms. w' = w\<lparr>k_malloc := ms\<rparr>" and "r = Some q \<Longrightarrow> r_resource_fd q = - 1 \<and> r_req_handler q \<noteq> None"
proof -
  have n: "\<exists>ms. snd (next_malloc v) = v\<lparr>k_malloc := ms\<rparr>" for v :: world
  proof (cases "k_malloc v")
    case Nil
    then have "snd (next_malloc v) = v\<lparr>k_malloc := k_malloc v\<rparr>" by (simp add: next_malloc_def)
    then show ?thesis ..
  qed (auto simp: next_malloc_def)
  have "w' = snd (next_malloc (snd (next_malloc w)))" using assms by (auto simp: request_init_def Let_def split: prod.splits)
  moreover obtain ms where "snd (next_malloc w) = w\<lparr>k_malloc := ms\<rparr>" using n by blast
  ultimately show "\<exists>ms. w' = w\<lparr>k_malloc := ms\<rparr>" using n [of "w\<lparr>k_malloc := ms\<rparr>"] by auto
  show "r_resource_fd q = - 1 \<and> r_req_handler q \<noteq> None" if "r = Some q"
    using assms that by (auto simp: request_init_def Let_def fresh_request_def split: prod.splits option.splits)
qed

text \<open>A new connection is added for a socket nobody has.\<close>

lemma add_conn:
  assumes ok: "conns_ok C w l" and p: "C p = None" and fd: "c_fd c = fd" "0 \<le> fd" "sock_at fd w \<noteq> None" "\<And>q d. C q = Some d \<Longrightarrow> c_fd d \<noteq> fd"
    and c: "c_data_ptr c = Some p" "c_active_time c = k_now w" "0 \<le> k_now w" "r_req_handler (c_req c) \<noteq> None" "r_resource_fd (c_req c) = - 1"
    and w': "w' = w\<lparr>k_epoll := (k_epoll w)(fd \<mapsto> event_of c)\<rparr>"
  shows "conns_ok (C(p \<mapsto> c)) w' l" and "held A C w \<Longrightarrow> held A (C(p \<mapsto> c)) w'"
proof -
  have lk: "fd_lookup w' = fd_lookup w" "sock_at f w' = sock_at f w" "k_now w' = k_now w" for f
    unfolding w' by (simp_all add: fd_lookup_def sock_at_def fun_eq_iff)
  have new: "conn_ok p c w'" using fd c w' lk by (auto simp: conn_ok_def input_ok_def interest_ok_def)
  have l: "listening l w" using ok by (simp add: conns_ok_def)
  then have "l \<noteq> fd" using fd(3) by (auto simp: listening_def sock_at_def)
  then have l': "listening l w'" using l lk w' by (simp add: listening_def)
  have old: "conn_ok q d w'" if "C q = Some d" for q d
    by (rule conn_ok_frame [OF conns_okD [OF ok that]])
      (use fd(4) [OF that] lk conns_okD [OF ok that] w' in \<open>auto simp: conn_ok_def\<close>)
  show "conns_ok (C(p \<mapsto> c)) w' l"
  proof (rule conns_okI [OF _ _ _ l'])
    fix q d assume "(C(p \<mapsto> c)) q = Some d" then show "conn_ok q d w'" using new old by (auto split: if_splits)
  next
    fix q r d e assume "(C(p \<mapsto> c)) q = Some d" "(C(p \<mapsto> c)) r = Some e" "c_fd d = c_fd e"
    then show "q = r" using conns_ok_inj [OF ok, of q d r e] fd(1,4) by (auto split: if_splits)
  next
    fix f ev assume f: "k_epoll w' f = Some ev" "f \<noteq> l"
    show "\<exists>q d. (C(p \<mapsto> c)) q = Some d \<and> c_fd d = f"
    proof (cases "f = fd")
      case False
      then have "k_epoll w f = Some ev" using f(1) w' by simp
      then obtain q d where "C q = Some d" "c_fd d = f" using conns_ok_reg [OF ok _ f(2)] by blast
      then show ?thesis using p by (intro exI [of _ q] exI [of _ d]) auto
    qed (use fd(1) in auto)
  qed
  show "held A (C(p \<mapsto> c)) w'" if h: "held A C w"
  proof -
    have "0 \<le> g_rootdir_fd w" using l by (simp add: listening_def)
    then have "res_ok d w' \<and> r_resource_fd (c_req d) \<noteq> g_rootdir_fd w'" if "q \<in> A" "(C(p \<mapsto> c)) q = Some d" for q d
      using h that c(5) lk w' unfolding held_def by (cases "q = p") (auto simp: res_ok_def)
    moreover have "q = r" if "q \<in> A" "r \<in> A" "(C(p \<mapsto> c)) q = Some d" "(C(p \<mapsto> c)) r = Some e"
        "r_resource_fd (c_req d) = r_resource_fd (c_req e)" "r_resource_fd (c_req d) \<noteq> - 1" for q r d e
    proof -
      have "C q = Some d" "C r = Some e" using that c(5) by (auto split: if_splits)
      then show ?thesis using h that unfolding held_def by blast
    qed
    ultimately show ?thesis unfolding held_def by blast
  qed
qed

lemma heap_size_card: "heap_inv s \<Longrightarrow> heap_size s = int (card (members s))"
proof -
  assume "heap_inv s"
  then have wf: "heap_wf s" and "0 \<le> heap_size s" by (auto simp: heap_inv_def heap_wf_def)
  moreover have "inj_on (slot_ptr s) {0..<heap_size s}" using slot_ptr_inj [OF wf] by (auto simp: inj_on_def)
  ultimately show ?thesis by (simp add: members_def card_image)
qed

lemma request_init_null: "fst (request_init a w) = None \<longleftrightarrow> fst (request_init b w) = None" for w :: world
  by (auto simp: request_init_def Let_def split: prod.splits option.splits)

text \<open>When no connection can be made: every block of the pool is taken, or there is no memory for the buffers.\<close>

definition no_memory :: "server \<Rightarrow> bool" where
  "no_memory s \<longleftrightarrow> card (members s) = unat (mp_block_num (sv_pool s)) \<or> fst (request_init 0 (sv_world s)) = None"

lemma connection_init_ok:
  assumes ok: "server_ok A s"
  shows "\<exists>r s'. connection_init s = Some (r, s') \<and> (r = None \<longleftrightarrow> no_memory s) \<and> (\<exists>ms. sv_world s' = (sv_world s)\<lparr>k_malloc := ms\<rparr>) \<and>
    lotos_connections s' = lotos_connections s \<and> heap_size s' = heap_size s \<and> sv_config s' = sv_config s \<and>
    sv_listen_fd s' = sv_listen_fd s \<and> sv_block s' = sv_block s \<and> mp_block_num (sv_pool s') = mp_block_num (sv_pool s) \<and>
    (case r of None \<Rightarrow> hs_conns s' = hs_conns s \<and> pool.owns (sv_pool s') (int ` members s)
     | Some p \<Rightarrow> p \<notin> members s \<and> pool.owns (sv_pool s') (int ` insert p (members s)) \<and> heap_size s < MAX_CONNECTION \<and>
        (\<exists>q. hs_conns s' = (hs_conns s)(p \<mapsto> (sv_block s p)\<lparr>c_req := q\<rparr>) \<and> r_resource_fd q = - 1 \<and> r_req_handler q \<noteq> None))"
proof -
  note D = server_okD [OF ok]
  obtain b pl where b: "pool_alloc (sv_pool s) = Some (b, pl)" "block_starts pl = block_starts (sv_pool s)"
    "case b of None \<Rightarrow> int ` members s = block_starts (sv_pool s) \<and> pl = sv_pool s
     | Some a \<Rightarrow> a \<in> block_starts (sv_pool s) \<and> a \<notin> int ` members s \<and> pool.owns pl (insert a (int ` members s))"
    using pool.alloc_owns [OF D(3)] by blast
  show ?thesis
  proof (cases b)
    case None
    have "sv_world s = (sv_world s)\<lparr>k_malloc := k_malloc (sv_world s)\<rparr>" by simp
    then have "\<exists>ms. sv_world s = (sv_world s)\<lparr>k_malloc := ms\<rparr>" ..
    moreover have "no_memory s"
      using None b(3) owns_count(3) [OF D(3)] card_image [of int "members s"] by (simp add: no_memory_def inj_on_def)
    ultimately show ?thesis using None b D(3) by (intro exI [of _ None] exI [of _ s]) (simp add: connection_init_def)
  next
    case (Some a)
    then have a: "a \<in> block_starts (sv_pool s)" "a \<notin> int ` members s" "pool.owns pl (insert a (int ` members s))" using b(3) by auto
    obtain p where p: "a = int p" using a(1) by (auto simp: block_starts_def intro: that [of "nat a"])
    then have pm: "p \<notin> members s" and own: "pool.owns pl (int ` insert p (members s))" using a by auto
    have num: "mp_block_num pl = mp_block_num (sv_pool s)" by (rule pool_alloc_num [OF b(1)])
    have "card (insert p (members s)) \<le> unat (mp_block_num pl)"
      using owns_count [OF own] card_mono [OF finite_block_starts owns_count(1) [OF own]] card_image [of int "insert p (members s)"]
      by (simp add: inj_on_def)
    moreover have "finite (members s)" by (simp add: members_def)
    ultimately have room: "card (members s) < unat (mp_block_num (sv_pool s))" using pm num by simp
    then have "card (members s) < 10240" using D(4) by simp
    then have small: "heap_size s < MAX_CONNECTION" unfolding heap_size_card [OF D(1)] by simp
    obtain r w where r: "request_init p (sv_world s) = (r, w)" by fastforce
    note rf = request_init_frame [OF r]
    have nm: "no_memory s \<longleftrightarrow> r = None" using room r request_init_null [of 0 "sv_world s" p] by (simp add: no_memory_def)
    show ?thesis
    proof (cases r)
      case (Some q)
      let ?t = "s\<lparr>sv_pool := pl, sv_world := w, hs_conns := (hs_conns s)(p \<mapsto> (sv_block s p)\<lparr>c_req := q\<rparr>)\<rparr>"
      have "connection_init s = Some (Some p, ?t)" using b(1) \<open>b = Some a\<close> p r Some by (simp add: connection_init_def)
      then show ?thesis using rf(1) rf(2) [OF Some] pm own small num nm Some by (intro exI [of _ "Some p"] exI [of _ ?t]) auto
    next
      case None
      obtain pl' where pl': "pool_free pl (Some a) = Some pl'" "pool.owns pl' (int ` members s)"
        using pool.release_owns [OF a(3), of a] a(2) by auto
      have "connection_init s = Some (None, s\<lparr>sv_pool := pl', sv_world := w\<rparr>)"
        using b(1) \<open>b = Some a\<close> p r None pl'(1) by (simp add: connection_init_def)
      then show ?thesis using rf(1) pl'(2) num pool_free_num [OF pl'(1)] nm None by (intro exI [of _ None]) auto
    qed
  qed
qed

text \<open>
  The rest of \<open>connection_accept\<close>: the new connection goes into the heap, where it is the last, then into the
  epoll set; when that fails it is closed, which leaves the heap as it was.
\<close>

lemma register_new:
  fixes s :: server
  assumes inv: "heap_inv s" and p: "p \<notin> members s" "hs_conns s p = Some x" and room: "heap_size s < MAX_CONNECTION"
    and new: "\<forall>q \<in> members s. atime s q \<le> c_active_time x"
  shows "\<exists>s'. connection_register p s = Some (OK, s') \<and> heap_inv s' \<and> members s' = insert p (members s) \<and>
    strip_idx s' = strip_idx s \<and> heap_state.more s' = heap_state.more s \<and> heap_size s' = heap_size s + 1 \<and>
    hs_conns s' p = Some (x\<lparr>c_heap_idx := heap_size s\<rparr>)"
proof -
  obtain s' where s': "heap_insert p s = Some (0, s')" "heap_inv s'" "members s' = insert p (members s)" "strip_idx s' = strip_idx s"
    "heap_state.more s' = heap_state.more s" "heap_size s' = heap_size s + 1"
    using heap_insert_ok [OF inv room p(2,1)] by blast
  with heap_insert_last [OF inv s'(1) p(2,1) room new] room show ?thesis by (simp add: register_eq)
qed

lemma last_slot_order:
  assumes "heap_inv s" and "0 < heap_size s"
  shows "heap_size s - 1 = 0 \<or> keys s (par (heap_size s - 1)) \<le> keys s (heap_size s - 1)"
  using assms by (cases "heap_size s = 1") (auto simp: heap_inv_def ord_heap_def)

lemma close_stray:
  assumes ok: "conns_ok C w l" and fd: "sock_at fd w \<noteq> None" "\<And>q d. C q = Some d \<Longrightarrow> c_fd d \<noteq> fd"
  shows "conns_ok C (close_fd fd w) l" and "held A C w \<Longrightarrow> held A C (close_fd fd w)"
proof -
  obtain sk where sk: "fd_lookup w fd = Some (Fd_sock sk)" using fd(1) by (auto simp: sock_at_def split: option.splits fd_object.splits)
  have g: "g_rootdir_fd (close_fd fd w) = g_rootdir_fd w" by (simp add: close_fd_def)
  show "conns_ok C (close_fd fd w) l"
  proof (rule conns_okI)
    fix p c assume c: "C p = Some c"
    have k: "conn_ok p c w" by (rule conns_okD [OF ok c])
    show "conn_ok p c (close_fd fd w)" by (rule conn_ok_frame [OF k]) (use k fd(2) [OF c] in \<open>auto simp: conn_ok_def sock_at_def\<close>)
  next
    have "listening l w" using ok by (simp add: conns_ok_def)
    then show "listening l (close_fd fd w)" using sk g by (auto simp: listening_def)
  qed (use conns_ok_inj [OF ok] conns_ok_reg [OF ok] in auto)
  show "held A C w \<Longrightarrow> held A C (close_fd fd w)" by (rule held_frame [of A C w]) (use sk g in auto)
qed

text \<open>The state when the connection has been put into the heap and its event filled in.\<close>

definition filled :: "nat \<Rightarrow> int \<Rightarrow> request_t \<Rightarrow> server \<Rightarrow> conn" where
  "filled p fd q s = FILL_EPOLL_EVENT p (EPOLLIN OR EPOLLET)
     ((sv_block s p)\<lparr>c_req := q, c_fd := fd, c_active_time := clock s, c_heap_idx := heap_size s\<rparr>)"

lemma filled_sel [simp]:
  "c_fd (filled p fd q s) = fd" "c_active_time (filled p fd q s) = clock s" "c_heap_idx (filled p fd q s) = heap_size s"
  "c_req (filled p fd q s) = q" "c_data_ptr (filled p fd q s) = Some p"
  by (simp_all add: filled_def FILL_EPOLL_EVENT_def)

lemma epoll_add_eq:
  "lotos_epoll_add p ev c w = (let c = FILL_EPOLL_EVENT p ev c in
     if k_epoll w (c_fd c) = None \<and> k_epoll_room w then (OK, c, w\<lparr>k_epoll := (k_epoll w)(c_fd c \<mapsto> event_of c)\<rparr>) else (ERROR, c, w))"
  by (simp add: lotos_epoll_add_def epoll_ctl_def Let_def)

lemma accept_filled:
  assumes ok: "server_ok A s" and init: "connection_init s = Some (Some p, s0)" and w0: "sv_world s0 = (sv_world s)\<lparr>k_malloc := ms\<rparr>"
    and s0: "lotos_connections s0 = lotos_connections s" "heap_size s0 = heap_size s"
    and p: "p \<notin> members s" "heap_size s < MAX_CONNECTION" "hs_conns s0 = (hs_conns s)(p \<mapsto> (sv_block s p)\<lparr>c_req := q\<rparr>)"
    and fd: "k_epoll (sv_world s) fd = None"
  shows "\<exists>t. heap_state.more t = heap_state.more s0 \<and> heap_inv t \<and> members t = insert p (members s) \<and> heap_size t = heap_size s + 1 \<and>
    strip_idx t = (strip_idx s)(p \<mapsto> (filled p fd q s)\<lparr>c_heap_idx := 0\<rparr>) \<and> hs_conns t p = Some (filled p fd q s) \<and>
    connection_accept fd s = (if k_epoll_room (sv_world s)
      then Some (Some p, t\<lparr>sv_world := (sv_world s0)\<lparr>k_epoll := (k_epoll (sv_world s0))(fd \<mapsto> event_of (filled p fd q s))\<rparr>\<rparr>)
      else do { (_, s) \<leftarrow> connection_close (Some p) t; Some (None, s) })"
proof -
  note D = server_okD [OF ok]
  let ?x = "(sv_block s p)\<lparr>c_req := q, c_fd := fd, c_active_time := clock s\<rparr>" let ?y = "filled p fd q s"
  let ?s2 = "s0\<lparr>hs_conns := (hs_conns s)(p \<mapsto> ?x)\<rparr>"
  have upd: "upd_conn (\<lambda>x. x\<lparr>c_fd := fd, c_active_time := clock s0\<rparr>) (Some p) s0 = Some ?s2"
    using p(3) w0 by (simp add: upd_conn_def)
  have h2: "heap_inv ?s2" "members ?s2 = members s" by (rule heap_inv_cong [OF D(1)]; use s0 p in auto)+
  have "\<forall>r \<in> members s. atime ?s2 r \<le> clock s"
  proof
    fix r assume "r \<in> members s"
    moreover obtain c where "hs_conns s r = Some c" using members_live [of s r] D(1) \<open>r \<in> members s\<close> by (auto simp: heap_inv_def)
    ultimately show "atime ?s2 r \<le> clock s" using D(7) [of r c] p(1) by (auto simp: atime_def conn_ok_def)
  qed
  then obtain s3 where s3: "connection_register p ?s2 = Some (OK, s3)" "heap_inv s3" "members s3 = insert p (members s)"
    "strip_idx s3 = strip_idx ?s2" "heap_state.more s3 = heap_state.more ?s2" "heap_size s3 = heap_size s + 1"
    "hs_conns s3 p = Some (?x\<lparr>c_heap_idx := heap_size s\<rparr>)"
    using register_new [OF h2(1), of p ?x] h2(2) p s0 by auto
  let ?t = "s3\<lparr>hs_conns := (hs_conns s3)(p \<mapsto> ?y)\<rparr>"
  have t: "heap_inv ?t" "members ?t = members s3" by (rule heap_inv_cong [OF s3(2)]; use s3(7) in auto)+
  have "strip_idx ?t = (strip_idx s3)(p \<mapsto> ?y\<lparr>c_heap_idx := 0\<rparr>)" "strip_idx ?s2 = (strip_idx s)(p \<mapsto> ?x\<lparr>c_heap_idx := 0\<rparr>)"
    by (auto simp: strip_idx_def fun_eq_iff)
  then have strip: "strip_idx ?t = (strip_idx s)(p \<mapsto> ?y\<lparr>c_heap_idx := 0\<rparr>)" using s3(4) by (simp add: fun_eq_iff)
  have w3: "sv_world s3 = sv_world s0" using more_sel(1) [OF s3(5)] by simp
  have fill: "FILL_EPOLL_EVENT p (EPOLLIN OR EPOLLET) (?x\<lparr>c_heap_idx := heap_size s\<rparr>) = ?y" by (simp add: filled_def)
  have "lotos_epoll_add p (EPOLLIN OR EPOLLET) (?x\<lparr>c_heap_idx := heap_size s\<rparr>) (sv_world s3) =
      (if k_epoll_room (sv_world s) then (OK, ?y, (sv_world s0)\<lparr>k_epoll := (k_epoll (sv_world s0))(fd \<mapsto> event_of ?y)\<rparr>) else (ERROR, ?y, sv_world s0))"
    unfolding epoll_add_eq fill Let_def using fd w0 w3 by simp
  then have "connection_accept fd s = (if k_epoll_room (sv_world s)
      then Some (Some p, ?t\<lparr>sv_world := (sv_world s0)\<lparr>k_epoll := (k_epoll (sv_world s0))(fd \<mapsto> event_of ?y)\<rparr>\<rparr>)
      else do { (_, s) \<leftarrow> connection_close (Some p) (?t\<lparr>sv_world := sv_world s0\<rparr>); Some (None, s) })"
    unfolding connection_accept_def using init upd s3(1,7) by (cases "k_epoll_room (sv_world s)") simp_all
  moreover have "?t\<lparr>sv_world := sv_world s0\<rparr> = ?t" using w3 by simp
  ultimately show ?thesis using t s3 strip by (intro exI [of _ ?t]) simp
qed

definition accepted :: "nat set \<Rightarrow> int \<Rightarrow> server \<Rightarrow> nat option \<Rightarrow> server \<Rightarrow> bool" where
  "accepted A fd s r s' \<longleftrightarrow> server_ok A s' \<and> same_setup s s' \<and> k_pending (sv_world s') = k_pending (sv_world s) \<and>
    (case r of None \<Rightarrow> strip_idx s' = strip_idx s
     | Some p \<Rightarrow> p \<notin> members s \<and> (\<exists>c. strip_idx s' = (strip_idx s)(p \<mapsto> c) \<and> c_fd c = fd \<and> c_active_time c = clock s))"

lemma malloc_frame:
  fixes w :: world
  assumes "w' = w\<lparr>k_malloc := ms\<rparr>"
  shows "conns_ok C w l \<Longrightarrow> conns_ok C w' l" and "held A C w \<Longrightarrow> held A C w'" and "fd_lookup w' = fd_lookup w" and "sock_at f w' = sock_at f w"
proof -
  show fd: "fd_lookup w' = fd_lookup w" by (rule fd_lookup_cong) (simp add: assms)
  then show "sock_at f w' = sock_at f w" by (simp add: sock_at_def)
  show "conns_ok C w l \<Longrightarrow> conns_ok C w' l" "held A C w \<Longrightarrow> held A C w'"
    using conns_ok_frame [OF fds_kept_same [OF fd]] assms by auto
qed

text \<open>
  The three ends of \<open>connection_accept\<close>, from a state \<open>s0\<close> that differs from \<open>s\<close> by the allocation: nothing was
  allocated, the connection is in the epoll set, or it is closed again.
\<close>

definition allocated :: "nat set \<Rightarrow> int \<Rightarrow> server \<Rightarrow> server \<Rightarrow> bool" where
  "allocated A fd s s0 \<longleftrightarrow> (\<exists>ms. sv_world s0 = (sv_world s)\<lparr>k_malloc := ms\<rparr>) \<and> sv_config s0 = sv_config s \<and>
     sv_listen_fd s0 = sv_listen_fd s \<and> sv_block s0 = sv_block s \<and> mp_block_num (sv_pool s0) = mp_block_num (sv_pool s) \<and>
     conns_ok (strip_idx s) (sv_world s0) (sv_listen_fd s) \<and> held A (strip_idx s) (sv_world s0) \<and> sock_at fd (sv_world s0) \<noteq> None"

lemma accept_failed:
  assumes ok: "server_ok A s" and s0: "allocated A fd s s0" and arr: "lotos_connections s0 = lotos_connections s" "heap_size s0 = heap_size s"
    and r0: "hs_conns s0 = hs_conns s" "pool.owns (sv_pool s0) (int ` members s)"
  shows "accepted A fd s None s0"
proof -
  note D = server_okD [OF ok]
  have "heap_inv s0" "members s0 = members s" by (rule heap_inv_cong [OF D(1) arr]; use r0 in auto)+
  moreover have "strip_idx s0 = strip_idx s" using r0 by (simp add: strip_idx_def fun_eq_iff)
  ultimately show ?thesis using r0 D(2,4) s0 by (auto simp: accepted_def allocated_def server_ok_def same_setup_def)
qed

lemma accept_added:
  assumes ok: "server_ok A s" and s0: "allocated A fd s s0" and fd: "0 \<le> fd" "\<And>q d. strip_idx s q = Some d \<Longrightarrow> c_fd d \<noteq> fd"
    and now: "0 \<le> clock s" and p: "p \<notin> members s" "pool.owns (sv_pool s0) (int ` insert p (members s))" "r_resource_fd q = - 1" "r_req_handler q \<noteq> None"
    and t: "heap_state.more t = heap_state.more s0" "heap_inv t" "members t = insert p (members s)"
      "strip_idx t = (strip_idx s)(p \<mapsto> (filled p fd q s)\<lparr>c_heap_idx := 0\<rparr>)"
  shows "accepted A fd s (Some p) (t\<lparr>sv_world := (sv_world s0)\<lparr>k_epoll := (k_epoll (sv_world s0))(fd \<mapsto> event_of (filled p fd q s))\<rparr>\<rparr>)"
    (is "accepted A fd s _ (t\<lparr>sv_world := ?w\<rparr>)")
proof -
  note D = server_okD [OF ok] and m = more_sel [OF t(1)]
  let ?y = "(filled p fd q s)\<lparr>c_heap_idx := 0\<rparr>"
  obtain ms where w0: "sv_world s0 = (sv_world s)\<lparr>k_malloc := ms\<rparr>" using s0 by (auto simp: allocated_def)
  have ok0: "conns_ok (strip_idx s) (sv_world s0) (sv_listen_fd s)" "held A (strip_idx s) (sv_world s0)" "sock_at fd (sv_world s0) \<noteq> None"
    and same: "sv_config s0 = sv_config s" "sv_listen_fd s0 = sv_listen_fd s" "sv_block s0 = sv_block s"
      "mp_block_num (sv_pool s0) = mp_block_num (sv_pool s)" using s0 by (auto simp: allocated_def)
  have new: "strip_idx s p = None" using D(2) p(1) by (auto simp: domIff)
  have w': "?w = (sv_world s0)\<lparr>k_epoll := (k_epoll (sv_world s0))(fd \<mapsto> event_of ?y)\<rparr>" by (simp add: event_of_def)
  note add = add_conn [OF ok0(1) new _ fd(1) ok0(3) fd(2) _ _ _ _ _ w']
  have "server_ok A (t\<lparr>sv_world := ?w\<rparr>)"
    unfolding server_ok_def using t(2,3) m same D(2,4) p add ok0(2) w0 now by (simp add: t(4))
  moreover have "same_setup s (t\<lparr>sv_world := ?w\<rparr>)" using m same w0 by (simp add: same_setup_def)
  moreover have "c_fd ?y = fd" "c_active_time ?y = clock s" by simp_all
  then have "\<exists>c. strip_idx t = (strip_idx s)(p \<mapsto> c) \<and> c_fd c = fd \<and> c_active_time c = clock s" using t(4) by blast
  ultimately show ?thesis using p(1) w0 by (simp add: accepted_def)
qed

lemma accept_undone:
  assumes ok: "server_ok A s" and s0: "allocated A fd s s0" and fd: "\<And>q d. strip_idx s q = Some d \<Longrightarrow> c_fd d \<noteq> fd"
    and ep: "k_epoll (sv_world s) fd = None" and p: "p \<notin> members s" "pool.owns (sv_pool s0) (int ` insert p (members s))"
    and t: "heap_state.more t = heap_state.more s0" "heap_inv t" "members t = insert p (members s)" "heap_size t = heap_size s + 1"
      "strip_idx t = (strip_idx s)(p \<mapsto> (filled p fd q s)\<lparr>c_heap_idx := 0\<rparr>)" "hs_conns t p = Some (filled p fd q s)"
  shows "\<exists>u. connection_close (Some p) t = Some (OK, u) \<and> accepted A fd s None u"
proof -
  note D = server_okD [OF ok] and m = more_sel [OF t(1)]
  let ?y = "filled p fd q s"
  obtain ms where w0: "sv_world s0 = (sv_world s)\<lparr>k_malloc := ms\<rparr>" using s0 by (auto simp: allocated_def)
  have ok0: "conns_ok (strip_idx s) (sv_world s0) (sv_listen_fd s)" "held A (strip_idx s) (sv_world s0)" "sock_at fd (sv_world s0) \<noteq> None"
    and same: "sv_config s0 = sv_config s" "sv_listen_fd s0 = sv_listen_fd s" "sv_block s0 = sv_block s"
      "mp_block_num (sv_pool s0) = mp_block_num (sv_pool s)" using s0 by (auto simp: allocated_def)
  have new: "strip_idx s p = None" using D(2) p(1) by (auto simp: domIff)
  have "0 \<le> heap_size s" using D(1) by (simp add: heap_inv_def heap_wf_def)
  then have last: "c_heap_idx ?y = 0 \<or> keys t (par (c_heap_idx ?y)) \<le> keys t (heap_size t - 1)"
    using last_slot_order [OF t(2)] t(4) by simp
  obtain u where u: "connection_close (Some p) t = Some (OK, u)" "heap_inv u" "strip_idx u = (strip_idx t)(p := None)"
    "members u = members t - {p}" "pool.owns (sv_pool u) (int ` members u)" "mp_block_num (sv_pool u) = mp_block_num (sv_pool t)"
    "sv_world u = close_fd (c_fd ?y) (snd (lotos_epoll_del ?y (sv_world t)))"
    "sv_config u = sv_config t" "sv_listen_fd u = sv_listen_fd t" "sv_block u = sv_block t"
    using close_heap [OF t(2) _ t(6) _ last] t(3) m(2) p(2) by auto
  have strip: "strip_idx u = strip_idx s" "members u = members s" using u(3,4) t(3,5) new p(1) by (auto simp: fun_upd_idem)
  have w: "sv_world u = close_fd fd (sv_world s0)" using u(7) m(1) ep w0 by (simp add: lotos_epoll_del_def epoll_ctl_def)
  have "server_ok A u" unfolding server_ok_def strip
    using u(2,5,6,9) strip(2) D(2,4) m same close_stray [OF ok0(1,3) fd] ok0(2) w by simp
  moreover have "same_setup s u" using u(6,8-10) m same w w0 by (simp add: same_setup_def close_fd_def)
  ultimately show ?thesis using u(1) strip w w0 by (intro exI [of _ u]) (simp add: accepted_def close_fd_def)
qed

lemma connection_accept_ok:
  assumes ok: "server_ok A s" and fd: "0 \<le> fd" "sock_at fd (sv_world s) \<noteq> None" "\<And>q d. strip_idx s q = Some d \<Longrightarrow> c_fd d \<noteq> fd"
    and now: "0 \<le> clock s"
  shows "\<exists>r s'. connection_accept fd s = Some (r, s') \<and> accepted A fd s r s' \<and>
    (r = None \<longleftrightarrow> no_memory s \<or> \<not> k_epoll_room (sv_world s))"
proof -
  note D = server_okD [OF ok]
  obtain r0 s0 ms where init: "connection_init s = Some (r0, s0)" "r0 = None \<longleftrightarrow> no_memory s" and w0: "sv_world s0 = (sv_world s)\<lparr>k_malloc := ms\<rparr>"
    and arr: "lotos_connections s0 = lotos_connections s" "heap_size s0 = heap_size s"
    and same: "sv_config s0 = sv_config s" "sv_listen_fd s0 = sv_listen_fd s" "sv_block s0 = sv_block s"
      "mp_block_num (sv_pool s0) = mp_block_num (sv_pool s)"
    and r0: "case r0 of None \<Rightarrow> hs_conns s0 = hs_conns s \<and> pool.owns (sv_pool s0) (int ` members s)
     | Some p \<Rightarrow> p \<notin> members s \<and> pool.owns (sv_pool s0) (int ` insert p (members s)) \<and> heap_size s < MAX_CONNECTION \<and>
        (\<exists>q. hs_conns s0 = (hs_conns s)(p \<mapsto> (sv_block s p)\<lparr>c_req := q\<rparr>) \<and> r_resource_fd q = - 1 \<and> r_req_handler q \<noteq> None)"
    using connection_init_ok [OF ok] by blast
  have s0: "allocated A fd s s0" using malloc_frame [OF w0] D(5,6) fd(2) w0 same by (auto simp: allocated_def)
  have "fd \<noteq> sv_listen_fd s" using fd(2) D(5) by (auto simp: conns_ok_def listening_def sock_at_def)
  then have ep: "k_epoll (sv_world s) fd = None" using conns_ok_reg [OF D(5), of fd] fd(3) by (cases "k_epoll (sv_world s) fd") auto
  show ?thesis
  proof (cases r0)
    case None
    then have "accepted A fd s None s0" using r0 by (intro accept_failed [OF ok s0 arr]) auto
    then show ?thesis using init None by (auto simp: connection_accept_def connection_close_def)
  next
    case (Some p)
    then obtain q where p: "p \<notin> members s" "pool.owns (sv_pool s0) (int ` insert p (members s))" "heap_size s < MAX_CONNECTION"
      "hs_conns s0 = (hs_conns s)(p \<mapsto> (sv_block s p)\<lparr>c_req := q\<rparr>)" "r_resource_fd q = - 1" "r_req_handler q \<noteq> None"
      using r0 by auto
    obtain t where t: "heap_state.more t = heap_state.more s0" "heap_inv t" "members t = insert p (members s)" "heap_size t = heap_size s + 1"
      "strip_idx t = (strip_idx s)(p \<mapsto> (filled p fd q s)\<lparr>c_heap_idx := 0\<rparr>)" "hs_conns t p = Some (filled p fd q s)"
      "connection_accept fd s = (if k_epoll_room (sv_world s)
        then Some (Some p, t\<lparr>sv_world := (sv_world s0)\<lparr>k_epoll := (k_epoll (sv_world s0))(fd \<mapsto> event_of (filled p fd q s))\<rparr>\<rparr>)
        else do { (_, s) \<leftarrow> connection_close (Some p) t; Some (None, s) })"
      using accept_filled [OF ok init(1) [unfolded Some] w0 arr p(1,3,4) ep] by blast
    show ?thesis
    proof (cases "k_epoll_room (sv_world s)")
      case True
      then show ?thesis using t(7) accept_added [OF ok s0 fd(1) _ now p(1,2,5,6) t(1-3,5)] fd(3) init(2) Some by auto
    next
      case False
      obtain u where "connection_close (Some p) t = Some (OK, u)" "accepted A fd s None u"
        using accept_undone [OF ok s0 _ ep p(1,2) t(1-6)] fd(3) by blast
      then show ?thesis using t(7) False by (intro exI [of _ None] exI [of _ u]) simp
    qed
  qed
qed

end
