(* ===== verification/Incremental.thy ===== *)
theory Incremental
  imports Http_Parser
begin

text \<open>
  Parsing that stops at the end of the received bytes and goes on when more have arrived. The locale
  \<open>resumable_parser\<close> is the contract the request handler relies on when it calls a parser again on a
  longer buffer; \<open>incremental_scanner\<close> is how the two parsers of \<^verbatim>\<open>src/src/http_parser.c\<close> keep it.
\<close>

section \<open>Parsing in instalments\<close>

text \<open>
  The server calls a parser again each time bytes were appended to the buffer, as long as it
  returns \<open>AGAIN\<close>; \<open>bs\<close> are the successive contents of the buffer.
\<close>

fun feed :: "('b \<Rightarrow> 'r \<Rightarrow> (int \<times> 'r) option) \<Rightarrow> 'b list \<Rightarrow> 'r \<Rightarrow> (int \<times> 'r) option" where
  "feed parse [] ar = Some (AGAIN, ar)"
| "feed parse (b # bs) ar = do {
     (st, ar1) \<leftarrow> parse b ar;
     if st = AGAIN \<and> bs \<noteq> [] then feed parse bs ar1 else Some (st, ar1)
   }"

text \<open>
  A parser that can be resumed: what it did on the shorter buffer is what it would have done first on
  the longer one. Results are compared through \<open>obs\<close>.
\<close>

locale resumable_parser =
  fixes parse :: "'b \<Rightarrow> 'r \<Rightarrow> (int \<times> 'r) option"
    and ready :: "'b \<Rightarrow> 'r \<Rightarrow> bool"
    and grows :: "'b \<Rightarrow> 'b \<Rightarrow> bool"
    and obs :: "int \<times> 'r \<Rightarrow> 'o"
  assumes total: "ready b ar \<Longrightarrow> \<exists>st ar1. parse b ar = Some (st, ar1)"
    and again: "ready b ar \<Longrightarrow> grows b b' \<Longrightarrow> parse b ar = Some (AGAIN, ar1) \<Longrightarrow>
      ready b' ar1 \<and> map_option obs (parse b' ar1) = map_option obs (parse b' ar)"
    and stable: "ready b ar \<Longrightarrow> grows b b' \<Longrightarrow> parse b ar = Some (st, ar1) \<Longrightarrow> st \<noteq> AGAIN \<Longrightarrow>
      map_option obs (parse b' ar) = Some (obs (st, ar1))"
    and grows_ready: "ready b ar \<Longrightarrow> grows b b' \<Longrightarrow> ready b' ar"
begin

lemma feed_last:
  "ready b ar \<Longrightarrow> sorted_wrt grows (b # bs) \<Longrightarrow>
   map_option obs (feed parse (b # bs) ar) = map_option obs (parse (last (b # bs)) ar)"
proof (induction bs arbitrary: b ar)
  case Nil
  then show ?case using total [of b ar] by auto
next
  case (Cons b' bs)
  obtain st ar1 where p: "parse b ar = Some (st, ar1)" using total [OF Cons.prems(1)] by blast
  have g: "grows b b'" "grows b (last (b' # bs))" using Cons.prems(2) by auto
  show ?case
  proof (cases "st = AGAIN")
    case True
    note a = again [OF Cons.prems(1) _ p [unfolded True]]
    have "feed parse (b # b' # bs) ar = feed parse (b' # bs) ar1" using p True by simp
    then have "map_option obs (feed parse (b # b' # bs) ar) = map_option obs (parse (last (b' # bs)) ar1)"
      using Cons.IH [of b' ar1] a [OF g(1)] Cons.prems(2) by simp
    also have "\<dots> = map_option obs (parse (last (b' # bs)) ar)" using a [OF g(2)] by simp
    finally show ?thesis by simp
  next
    case False
    then have "feed parse (b # b' # bs) ar = Some (st, ar1)" using p by simp
    then show ?thesis using stable [OF Cons.prems(1) g(2) p False] by (simp only: last.simps list.distinct if_False option.map)
  qed
qed

end

text \<open>
  The two scanners: a loop body that reads no byte after the current character, whose result does
  not depend on the saved position, and a conclusion at \<open>done\<close>. \<open>ready x ar\<close> says that the
  archive's pointers and state fit the string \<open>x\<close> scanned so far.
\<close>

primrec upd_pass :: "(parse_archive \<Rightarrow> parse_archive) \<Rightarrow> pass \<Rightarrow> pass" where
  "upd_pass f (Next ar) = Next (f ar)"
| "upd_pass f (Return st ar) = Return st (f ar)"
| "upd_pass f (Goto_done ar) = Goto_done (f ar)"

primrec upd_end :: "(parse_archive \<Rightarrow> parse_archive) \<Rightarrow> scan_end \<Rightarrow> scan_end" where
  "upd_end f (At_end ar) = At_end (f ar)"
| "upd_end f (Returned st ar) = Returned st (f ar)"
| "upd_end f (Done_at p ar) = Done_at p (f ar)"

definition set_pos :: "cptr \<Rightarrow> parse_archive \<Rightarrow> parse_archive" where
  "set_pos q ar = ar\<lparr>ar_next_parse_pos := q\<rparr>"

definition extends :: "buffer_t \<Rightarrow> buffer_t \<Rightarrow> bool" where
  "extends b b' \<longleftrightarrow> buffer_inv b' \<and> (\<exists>e. buffer_data b' = buffer_data b @ e)"

text \<open>A result without the saved position of a rejected request, which nothing uses.\<close>

fun parse_obs :: "int \<times> parse_archive \<Rightarrow> int \<times> parse_archive" where
  "parse_obs (st, ar) = (st, if st = INVALID_REQUEST then set_pos PNull ar else ar)"

text \<open>The archive fits the scanned part of the buffer.\<close>

definition fits :: "(string \<Rightarrow> parse_archive \<Rightarrow> bool) \<Rightarrow> nat \<Rightarrow> buffer_t \<Rightarrow> parse_archive \<Rightarrow> bool" where
  "fits ready a b ar \<longleftrightarrow> buffer_inv b \<and> (\<exists>x cs. buffer_data b = x @ cs \<and> ready x ar \<and>
     ar_next_parse_pos ar = PBlk a (int (length x)))"

locale incremental_scanner =
  fixes body :: "memory \<Rightarrow> cptr \<Rightarrow> char \<Rightarrow> parse_archive \<Rightarrow> pass option"
    and finish :: "cptr \<Rightarrow> parse_archive \<Rightarrow> (int \<times> parse_archive) option"
    and ready :: "string \<Rightarrow> parse_archive \<Rightarrow> bool"
    and a :: nat
    and parse :: "buffer_t \<Rightarrow> parse_archive \<Rightarrow> (int \<times> parse_archive) option"
  assumes step: "ready x ar \<Longrightarrow> holds m a (x @ [c]) \<Longrightarrow> holds m' a (x @ [c]) \<Longrightarrow> length x < 2 ^ 31 \<Longrightarrow>
      \<exists>r. body m (PBlk a (int (length x))) c ar = Some r \<and> body m' (PBlk a (int (length x))) c ar = Some r \<and>
        (\<forall>ar'. r = Next ar' \<longrightarrow> ready (x @ [c]) ar') \<and> (\<forall>st ar'. r = Return st ar' \<longrightarrow> st = INVALID_REQUEST) \<and>
        (\<forall>ar' p. r = Goto_done ar' \<longrightarrow> (\<exists>st ar''. finish p ar' = Some (st, ar'') \<and> st \<noteq> AGAIN))"
    and body_pos: "body m p c (set_pos q ar) = map_option (upd_pass (set_pos q)) (body m p c ar)"
    and finish_pos: "finish p (set_pos q ar) = finish p ar"
    and ready_pos: "ready x (set_pos q ar) = ready x ar"
    and parse_eq: "parse b ar = do { r \<leftarrow> scan body a b ar;
       case r of At_end ar \<Rightarrow> Some (AGAIN, ar\<lparr>ar_next_parse_pos := buffer_end a b\<rparr>)
       | Returned st ar \<Rightarrow> Some (st, ar) | Done_at p ar \<Rightarrow> finish p ar }"
begin

lemma run_pos: "run body m a e cs (set_pos q ar) = map_option (upd_end (set_pos q)) (run body m a e cs ar)"
proof (induction cs arbitrary: ar)
  case (Cons c cs)
  show ?case
  proof (cases "body m (PBlk a (e - int (length cs) - 1)) c ar")
    case (Some r)
    then show ?thesis using Cons by (cases r) (simp_all add: body_pos)
  qed (simp add: body_pos)
qed simp

lemma run_same:
  "ready x ar \<Longrightarrow> holds m a (x @ cs) \<Longrightarrow> holds m' a (x @ cs) \<Longrightarrow> length (x @ cs) < 2 ^ 31 \<Longrightarrow>
   \<exists>r. run body m a (int (length (x @ cs))) cs ar = Some r \<and> run body m' a (int (length (x @ cs))) cs ar = Some r \<and>
     (\<forall>ar'. r = At_end ar' \<longrightarrow> ready (x @ cs) ar') \<and> (\<forall>st ar'. r = Returned st ar' \<longrightarrow> st = INVALID_REQUEST) \<and>
     (\<forall>p ar'. r = Done_at p ar' \<longrightarrow> (\<exists>st ar''. finish p ar' = Some (st, ar'') \<and> st \<noteq> AGAIN))"
proof (induction cs arbitrary: x ar)
  case (Cons c cs)
  have pos: "int (length (x @ c # cs)) - int (length cs) - 1 = int (length x)" by simp
  have h: "holds m a (x @ [c])" "holds m' a (x @ [c])" using Cons.prems(2,3) holds_prefix [of _ a "x @ [c]" cs] by auto
  obtain r where r: "body m (PBlk a (int (length x))) c ar = Some r" "body m' (PBlk a (int (length x))) c ar = Some r"
    "\<forall>ar'. r = Next ar' \<longrightarrow> ready (x @ [c]) ar'" "\<forall>st ar'. r = Return st ar' \<longrightarrow> st = INVALID_REQUEST"
    "\<forall>ar' p. r = Goto_done ar' \<longrightarrow> (\<exists>st ar''. finish p ar' = Some (st, ar'') \<and> st \<noteq> AGAIN)"
    using step [OF Cons.prems(1) h] Cons.prems(4) by auto
  show ?case
  proof (cases r)
    case (Next ar')
    with r Cons.IH [of "x @ [c]" ar'] Cons.prems pos show ?thesis by simp
  qed (use r pos in simp_all)
qed simp

lemma parse_run:
  assumes "buffer_inv b" and "buffer_data b = x @ cs" and "ar_next_parse_pos ar = PBlk a (int (length x))"
  shows "parse b ar = do { r \<leftarrow> run body [a \<mapsto> b_buf b] a (int (length (x @ cs))) cs ar;
       case r of At_end ar \<Rightarrow> Some (AGAIN, set_pos (PBlk a (int (length (x @ cs)))) ar)
       | Returned st ar \<Rightarrow> Some (st, ar) | Done_at p ar \<Rightarrow> finish p ar }"
proof -
  have len: "b_len b = int (length (x @ cs))" using length_buffer_data [OF assms(1)] assms(2) by simp
  have scan: "scan body a b ar = run body [a \<mapsto> b_buf b] a (int (length (x @ cs))) cs ar"
    using scan_run [OF assms(1,3), of body] assms(2) len by simp
  show ?thesis unfolding parse_eq scan buffer_end_def len set_pos_def by (rule refl)
qed

lemma fits_run:
  assumes "fits ready a b ar"
  obtains x cs where "buffer_data b = x @ cs" "ready x ar" "ar_next_parse_pos ar = PBlk a (int (length x))"
    "holds [a \<mapsto> b_buf b] a (x @ cs)" "length (x @ cs) < 2 ^ 31" "buffer_inv b"
proof -
  from assms obtain x cs where x: "buffer_inv b" "buffer_data b = x @ cs" "ready x ar"
    "ar_next_parse_pos ar = PBlk a (int (length x))" by (auto simp: fits_def)
  moreover have "length (x @ cs) < 2 ^ 31"
    using length_buffer_data [OF x(1)] x(1,2) by (auto simp: buffer_inv_def)
  ultimately show thesis using that holds_buffer [OF x(1), of a] by metis
qed

end

sublocale incremental_scanner \<subseteq> resumable_parser parse "fits ready a" extends parse_obs
proof unfold_locales
  fix b ar assume "fits ready a b ar"
  then obtain x cs where x: "buffer_data b = x @ cs" "ready x ar" "ar_next_parse_pos ar = PBlk a (int (length x))"
    "holds [a \<mapsto> b_buf b] a (x @ cs)" "length (x @ cs) < 2 ^ 31" "buffer_inv b" by (rule fits_run)
  obtain r where r: "run body [a \<mapsto> b_buf b] a (int (length (x @ cs))) cs ar = Some r"
    "\<forall>ar'. r = At_end ar' \<longrightarrow> ready (x @ cs) ar'" "\<forall>st ar'. r = Returned st ar' \<longrightarrow> st = INVALID_REQUEST"
    "\<forall>p ar'. r = Done_at p ar' \<longrightarrow> (\<exists>st ar''. finish p ar' = Some (st, ar'') \<and> st \<noteq> AGAIN)"
    using run_same [OF x(2,4,4,5)] by blast
  note pb = parse_run [OF x(6,1,3)]
  show "\<exists>st ar1. parse b ar = Some (st, ar1)" using pb r by (cases r) auto
  fix b' assume "extends b b'"
  then obtain e where b': "buffer_inv b'" "buffer_data b' = x @ cs @ e" using x(1) by (auto simp: extends_def)
  have h': "holds [a \<mapsto> b_buf b'] a (x @ cs @ e)" using holds_buffer [OF b'(1), of a] b'(2) by simp
  show "fits ready a b' ar" using b' x unfolding fits_def by auto
  have r': "run body [a \<mapsto> b_buf b'] a (int (length (x @ cs))) cs ar = Some r"
    using run_same [OF x(2,4) _ x(5)] holds_prefix [of _ a "x @ cs" e] h' r(1) by fastforce
  then have app: "run body [a \<mapsto> b_buf b'] a (int (length (x @ cs @ e))) (cs @ e) ar =
      (case r of At_end ar' \<Rightarrow> run body [a \<mapsto> b_buf b'] a (int (length (x @ cs @ e))) e ar' | _ \<Rightarrow> Some r)"
    unfolding run_append by (cases r) simp_all
  note pb' = parse_run [OF b' x(3)]
  {
    fix ar1 assume p: "parse b ar = Some (AGAIN, ar1)"
    then obtain ar' where ar': "r = At_end ar'" "ar1 = set_pos (PBlk a (int (length (x @ cs)))) ar'"
      using pb r by (cases r) auto
    have "ready (x @ cs) ar1" using ar' r(2) ready_pos by simp
    then have f: "fits ready a b' ar1" using b' ar'(2) unfolding fits_def
      by (intro conjI exI [of _ "x @ cs"] exI [of _ e]) (simp_all add: set_pos_def)
    have "buffer_data b' = (x @ cs) @ e" "ar_next_parse_pos ar1 = PBlk a (int (length (x @ cs)))"
      using b'(2) ar'(2) by (simp_all add: set_pos_def)
    note pb1 = parse_run [OF b'(1) this, unfolded append_assoc]
    have "holds [a \<mapsto> b_buf b'] a ((x @ cs) @ e)" "length ((x @ cs) @ e) < 2 ^ 31"
      using h' b' length_buffer_data [OF b'(1)] by (auto simp: buffer_inv_def)
    with run_same [of "x @ cs" ar' "[a \<mapsto> b_buf b']" e "[a \<mapsto> b_buf b']"] ar'(1) r(2)
    obtain r2 where r2: "run body [a \<mapsto> b_buf b'] a (int (length (x @ cs @ e))) e ar' = Some r2"
      "\<forall>st ar'. r2 = Returned st ar' \<longrightarrow> st = INVALID_REQUEST" by auto
    have "map_option parse_obs (parse b' ar1) = map_option parse_obs (parse b' ar)"
      unfolding pb1 pb' app using ar' r2 run_pos [of "[a \<mapsto> b_buf b']" _ e]
      by (cases r2) (auto simp: set_pos_def finish_pos [unfolded set_pos_def])
    with f show "fits ready a b' ar1 \<and> map_option parse_obs (parse b' ar1) = map_option parse_obs (parse b' ar)"
      by blast
  }
  fix st ar1 assume "parse b ar = Some (st, ar1)" "st \<noteq> AGAIN"
  then have "parse b' ar = Some (st, ar1)" using pb pb' app r by (cases r) auto
  then show "map_option parse_obs (parse b' ar) = Some (parse_obs (st, ar1))" by simp
qed

end
