(* ===== verification/Request_Line.thy ===== *)
theory Request_Line
  imports Incremental
begin

text \<open>
  Correctness of \<open>parse_request_line\<close>: the character-driven machine is compared with a reference
  parser that takes maximal runs of characters, and the reference parser with the grammar of request
  lines.
\<close>

section \<open>A reference parser\<close>

text \<open>
  The request line in terms of maximal runs of characters, without positions: more input is needed,
  the line is bad, or a value and the remaining input.
\<close>

datatype 'a ref = Ref_more | Ref_bad | Ref_good 'a

primrec ref_bind :: "'a ref \<Rightarrow> ('a \<Rightarrow> 'b ref) \<Rightarrow> 'b ref" where
  "ref_bind Ref_more f = Ref_more"
| "ref_bind Ref_bad f = Ref_bad"
| "ref_bind (Ref_good x) f = f x"

definition ref_method :: "string \<Rightarrow> (http_method \<times> string) ref" where
  "ref_method cs =
     (let w = takeWhile is_alpha_char cs in
      case dropWhile is_alpha_char cs of
        [] \<Rightarrow> Ref_more
      | c # r \<Rightarrow> if c = SP \<and> method_of w \<noteq> HTTP_INVALID then Ref_good (method_of w, r) else Ref_bad)"

definition ref_url :: "string \<Rightarrow> (string \<times> char \<times> string) ref" where
  "ref_url cs =
     (let v = dropWhile blank cs; u = takeWhile url_char v in
      if v \<noteq> [] \<and> u = [] then Ref_bad
      else case dropWhile url_char v of
        [] \<Rightarrow> Ref_more
      | t # r \<Rightarrow> if blank t \<and> hd u = CHR ''/'' then Ref_good (u, t, r) else Ref_bad)"

fun ref_tag :: "string list \<Rightarrow> string \<Rightarrow> string ref" where
  "ref_tag [] cs = Ref_good cs"
| "ref_tag (s # ss) [] = Ref_more"
| "ref_tag (s # ss) (c # cs) = (if c \<in> set s then ref_tag ss cs else Ref_bad)"

definition http_tag :: "string list" where
  "http_tag = [''Hh'', ''Tt'', ''Tt'', ''Pp'', ''/'']"

definition digits_val :: "string \<Rightarrow> int" where
  "digits_val ds = foldl (\<lambda>n c. n * 10 + (ord_char c - 48)) 0 ds"

text \<open>One digit of any value; with more digits the number must be at most 1.\<close>

definition short_num :: "string \<Rightarrow> bool" where
  "short_num ds \<longleftrightarrow> ds \<noteq> [] \<and> (\<forall>c \<in> set ds. is_digit_char c) \<and> (length ds = 1 \<or> digits_val ds \<le> 1)"

definition ref_number :: "char \<Rightarrow> string \<Rightarrow> (string \<times> string) ref" where
  "ref_number sep cs =
     (let ds = takeWhile is_digit_char cs in
      if cs \<noteq> [] \<and> \<not> short_num ds then Ref_bad
      else case dropWhile is_digit_char cs of
        [] \<Rightarrow> Ref_more
      | c # r \<Rightarrow> if c = sep then Ref_good (ds, r) else Ref_bad)"

definition ref_end :: "string \<Rightarrow> string ref" where
  "ref_end cs = (case cs of [] \<Rightarrow> Ref_more | c # r \<Rightarrow> if c = LF then Ref_good r else Ref_bad)"

definition ref_version :: "string \<Rightarrow> (string \<times> string \<times> string) ref" where
  "ref_version cs =
     ref_bind (ref_tag http_tag (dropWhile blank cs)) (\<lambda>r.
     ref_bind (ref_number (CHR ''.'') r) (\<lambda>(maj, r).
     ref_bind (ref_number CR r) (\<lambda>(mn, r).
     ref_bind (ref_end r) (\<lambda>r. Ref_good (maj, mn, r)))))"

definition ref_request_line :: "string \<Rightarrow> (http_method \<times> string \<times> char \<times> string \<times> string \<times> string) ref" where
  "ref_request_line cs =
     ref_bind (ref_method cs) (\<lambda>(me, r).
     ref_bind (ref_url r) (\<lambda>(u, t, r).
     ref_bind (ref_version r) (\<lambda>(maj, mn, r). Ref_good (me, u, t, maj, mn, r))))"

text \<open>How a scan result follows a reference result.\<close>

primrec run_as :: "'a ref \<Rightarrow> ('a \<Rightarrow> scan_end option \<Rightarrow> bool) \<Rightarrow> scan_end option \<Rightarrow> bool" where
  "run_as Ref_more Q r \<longleftrightarrow> (\<exists>ar. r = Some (At_end ar))"
| "run_as Ref_bad Q r \<longleftrightarrow> (\<exists>ar. r = Some (Returned INVALID_REQUEST ar))"
| "run_as (Ref_good x) Q r \<longleftrightarrow> Q x r"

lemma run_as_bind: "run_as (ref_bind x f) Q r \<longleftrightarrow> run_as x (\<lambda>y r. run_as (f y) Q r) r"
  by (cases x) auto

lemma run_as_mono: "run_as x Q r \<Longrightarrow> (\<And>y r. x = Ref_good y \<Longrightarrow> Q y r \<Longrightarrow> Q' y r) \<Longrightarrow> run_as x Q' r"
  by (cases x) auto

section \<open>The request-line machine follows the reference parser\<close>

text \<open>
  In these lemmas the string \<open>x @ cs\<close> is in block \<open>a\<close>, \<open>cs\<close> is what is left to scan and \<open>e\<close> is
  the offset of its end.
\<close>

lemma blank_not_url [simp]: "blank c \<Longrightarrow> \<not> url_char c"
  by (simp add: url_char_def)

lemma run_method:
  assumes h: "holds m a (x @ cs)" and e: "e = int (length (x @ cs))" "e < 2 ^ 31" and st: "ar_state ar = S_RL_BEGIN"
  shows "run_as (ref_method cs) (\<lambda>(me, r) res. res = run rl_body m a e r
      (ar\<lparr>ar_method_begin := PBlk a (int (length x)), ar_method := me, ar_state := S_RL_SP_BEFORE_URL\<rparr>))
    (run rl_body m a e cs ar)"
proof (cases cs)
  case Nil
  then show ?thesis by (simp add: ref_method_def)
next
  case (Cons c cs')
  let ?w = "takeWhile is_alpha_char cs" and ?r = "dropWhile is_alpha_char cs"
  show ?thesis
  proof (cases "is_alpha_char c")
    case False
    then show ?thesis
      using Cons st by (simp add: ref_method_def rl_body_def method_of_def)
  next
    case True
    let ?ar = "ar\<lparr>ar_method_begin := PBlk a (int (length x)), ar_state := S_RL_METHOD\<rparr>"
    have "run rl_body m a e cs ar = run rl_body m a e cs' ?ar"
      using Cons True st e by (simp add: rl_body_def rl_method_def)
    also have "\<dots> = run rl_body m a e (dropWhile is_alpha_char cs') ?ar"
      by (rule run_skip [symmetric]) (simp add: rl_body_def rl_method_def)
    also have "dropWhile is_alpha_char cs' = ?r" using Cons True by simp
    finally have run: "run rl_body m a e cs ar = run rl_body m a e ?r ?ar" .
    show ?thesis
    proof (cases ?r)
      case Nil
      show ?thesis using run by (simp add: ref_method_def Nil)
    next
      case r: (Cons d r')
      have nd: "\<not> is_alpha_char d" using hd_dropWhile [of is_alpha_char cs] r by simp
      have split: "cs = ?w @ d # r'" using takeWhile_dropWhile_id [of is_alpha_char cs] r by metis
      have pos: "e - int (length r') - 1 = int (length x) + int (length ?w)"
        using arg_cong [OF split, of length] e(1) by simp
      have "holds m a (x @ ?w @ d # r')" using h split by metis
      then have "parse_method m (PBlk a (int (length x))) (PBlk a (e - int (length r') - 1)) = Some (method_of ?w)"
        unfolding pos using parse_method_holds [of m a x ?w "d # r'"] e pos by simp
      then show ?thesis using run r nd by (auto simp: ref_method_def rl_body_def rl_method_def Let_def)
    qed
  qed
qed

lemma run_url:
  assumes h: "holds m a (x @ cs)" and e: "e = int (length (x @ cs))" "e < 2 ^ 31"
    and st: "ar_state ar = S_RL_SP_BEFORE_URL" and z: "ar_url ar = zero_url"
  shows "run_as (ref_url cs) (\<lambda>(u, t, r) res. let i = e - int (length r) - 1 - int (length u) in
      res = run rl_body m a e r (ar\<lparr>ar_url_begin := PBlk a i, ar_state := S_RL_SP_BEFORE_VERSION,
        ar_request_url_string := span_at a i (int (length u)), ar_url := url_parts a i u t\<rparr>))
    (run rl_body m a e cs ar)"
proof -
  let ?v = "dropWhile blank cs"
  have skip: "run rl_body m a e cs ar = run rl_body m a e ?v ar"
    by (rule run_skip [symmetric]) (auto simp: rl_body_def st blank_def)
  obtain y where y: "cs = y @ ?v" using takeWhile_dropWhile_id [of blank cs] by metis
  show ?thesis
  proof (cases ?v)
    case Nil
    show ?thesis using skip by (simp add: ref_url_def Nil)
  next
    case (Cons c v)
    have nb: "\<not> blank c" using hd_dropWhile [of blank cs] Cons by simp
    let ?u = "takeWhile url_char ?v" and ?r = "dropWhile url_char ?v"
    show ?thesis
    proof (cases "url_char c")
      case False
      then show ?thesis using nb Cons skip
        by (auto simp: ref_url_def rl_body_def st url_char_def blank_def)
    next
      case True
      let ?i = "int (length (x @ y))"
      let ?ar = "ar\<lparr>ar_state := S_RL_URL, ar_url_begin := PBlk a ?i\<rparr>"
      have i: "e - int (length v) - 1 = ?i" using arg_cong [OF y, of length] e(1) Cons by simp
      have "run rl_body m a e ?v ar = run rl_body m a e v ?ar"
        using Cons nb True i by (simp add: rl_body_def st url_char_def blank_def)
      also have "\<dots> = run rl_body m a e (dropWhile url_char v) ?ar"
        by (rule run_skip [symmetric]) (simp add: rl_body_def url_char_def blank_def)
      also have "dropWhile url_char v = ?r" using Cons True by simp
      finally have run: "run rl_body m a e cs ar = run rl_body m a e ?r ?ar" using skip by simp
      have une: "?u \<noteq> []" using Cons True by simp
      show ?thesis
      proof (cases ?r)
        case Nil
        show ?thesis using run une by (simp add: ref_url_def Let_def Nil)
      next
        case r: (Cons t r')
        have nt: "\<not> url_char t" using hd_dropWhile [of url_char ?v] r by simp
        have split: "?v = ?u @ t # r'" using takeWhile_dropWhile_id [of url_char ?v] r by metis
        have pos: "e - int (length r') - 1 = ?i + int (length ?u)"
          using arg_cong [OF split, of length] arg_cong [OF y, of length] e(1) by simp
        have "holds m a ((x @ y) @ ?u @ t # r')" using h split y by (metis append_assoc)
        then have pu: "parse_url m (PBlk a ?i) (PBlk a (?i + int (length ?u))) ar' =
          (let ar'' = ar'\<lparr>ar_request_url_string := span_at a ?i (int (length ?u))\<rparr> in
           if hd ?u = CHR ''/'' then Some (OK, ar''\<lparr>ar_url := url_parts a ?i ?u t\<rparr>) else Some (ERROR, ar''))"
          if "blank t" "ar_url ar' = zero_url" for ar'
          using parse_url_holds [of m a "x @ y" ?u t r' ar'] that une set_takeWhileD e pos by (fastforce simp: Let_def)
        show ?thesis
        proof (cases "blank t")
          case False
          then show ?thesis using run r nt Cons une by (auto simp: ref_url_def rl_body_def url_char_def blank_def Let_def)
        next
          case b: True
          with pu z have "run rl_body m a e ?r ?ar = (if hd ?u = CHR ''/'' then run rl_body m a e r'
              (ar\<lparr>ar_url_begin := PBlk a ?i, ar_state := S_RL_SP_BEFORE_VERSION,
                ar_request_url_string := span_at a ?i (int (length ?u)), ar_url := url_parts a ?i ?u t\<rparr>)
              else Some (Returned ERROR (ar\<lparr>ar_url_begin := PBlk a ?i, ar_state := S_RL_SP_BEFORE_VERSION,
                ar_request_url_string := span_at a ?i (int (length ?u))\<rparr>)))"
            by (simp add: r pos rl_body_def blank_def Let_def)
          moreover have "e - int (length r') - 1 - int (length ?u) = ?i" using pos by simp
          ultimately show ?thesis using run b r une Cons by (simp add: ref_url_def Let_def)
        qed
      qed
    qed
  qed
qed

lemma digits_val_snoc: "digits_val (ds @ [c]) = digits_val ds * 10 + (ord_char c - 48)"
  by (simp add: digits_val_def)

lemma digits_val_nonneg: "\<forall>c \<in> set ds. is_digit_char c \<Longrightarrow> 0 \<le> digits_val ds"
  by (induction ds rule: rev_induct) (auto simp: digits_val_snoc is_digit_char_def, simp add: digits_val_def)

lemma digits_val_append_ge:
  "\<forall>c \<in> set (ds @ es). is_digit_char c \<Longrightarrow> digits_val ds \<le> digits_val (ds @ es)"
proof (induction es rule: rev_induct)
  case (snoc c es)
  then have "0 \<le> digits_val (ds @ es)" "digits_val ds \<le> digits_val (ds @ es)"
    using digits_val_nonneg [of "ds @ es"] by auto
  moreover have "0 \<le> ord_char c - 48" using snoc.prems by (simp add: is_digit_char_def)
  ultimately show ?case using digits_val_snoc [of "ds @ es" c] by simp
qed simp

lemma short_num_bounds: "short_num ds \<Longrightarrow> 0 \<le> digits_val ds \<and> digits_val ds \<le> 9"
  using digits_val_nonneg [of ds]
  by (cases ds) (auto simp: short_num_def, auto simp: digits_val_def is_digit_char_def)

lemma word_gt_1: "0 \<le> k \<Longrightarrow> k < 65536 \<Longrightarrow> (1 :: 16 word) < word_of_int k \<longleftrightarrow> 1 < k"
  by (simp add: word_less_def uint_word_of_int_eq take_bit_int_eq_self)

definition ref_rest :: "char \<Rightarrow> string \<Rightarrow> string \<Rightarrow> (string \<times> string) ref" where
  "ref_rest sep ds cs =
     (let es = ds @ takeWhile is_digit_char cs in
      if \<not> short_num es then Ref_bad
      else case dropWhile is_digit_char cs of
        [] \<Rightarrow> Ref_more
      | c # r \<Rightarrow> if c = sep then Ref_good (es, r) else Ref_bad)"

lemma ref_number_Cons: "ref_number sep (c # cs) = (if is_digit_char c then ref_rest sep [c] cs else Ref_bad)"
  by (cases "is_digit_char c") (simp_all add: ref_number_def ref_rest_def Let_def, simp_all add: short_num_def)

text \<open>
  A number being read, \<open>A w\<close> the archive in which it is \<open>w\<close> so far; used for the major and for
  the minor version.
\<close>

lemma run_number_rest:
  fixes A :: "16 word \<Rightarrow> parse_archive"
  assumes body: "\<And>w p c. rl_body m p c (A w) =
      (if is_digit_char c then
         (let w' = w * 10 + of_int (ord_char c - 48) in
          Some (if w' > 1 then Return INVALID_REQUEST (A w') else Next (A w')))
       else rl_expect (c = sep) st (A w))"
    and sep: "\<not> is_digit_char sep"
  shows "short_num ds \<Longrightarrow> run_as (ref_rest sep ds cs)
    (\<lambda>(es, r) res. res = run rl_body m a e r ((A (word_of_int (digits_val es)))\<lparr>ar_state := st\<rparr>))
    (run rl_body m a e cs (A (word_of_int (digits_val ds))))"
proof (induction cs arbitrary: ds)
  case Nil
  then show ?case by (simp add: ref_rest_def)
next
  case (Cons c cs)
  show ?case
  proof (cases "is_digit_char c")
    case False
    then show ?thesis using Cons.prems by (auto simp: ref_rest_def body rl_expect_def)
  next
    case True
    let ?v = "digits_val (ds @ [c])"
    have v: "word_of_int (digits_val ds) * 10 + of_int (ord_char c - 48) = (word_of_int ?v :: 16 word)"
      by (simp add: digits_val_snoc)
    have dig: "\<forall>x \<in> set (ds @ [c]). is_digit_char x" using Cons.prems True by (auto simp: short_num_def)
    have b: "0 \<le> ?v" "?v < 65536"
      using short_num_bounds [OF Cons.prems] True by (auto simp: digits_val_snoc is_digit_char_def)
    have bd: "rl_body m p c (A (word_of_int (digits_val ds))) = Some
        (if ?v > 1 then Return INVALID_REQUEST (A (word_of_int ?v)) else Next (A (word_of_int ?v)))" for p
      unfolding body using True by (simp only: Let_def v word_gt_1 [OF b] if_True)
    have step: "ref_rest sep ds (c # cs) = ref_rest sep (ds @ [c]) cs" using True by (simp add: ref_rest_def Let_def)
    have sn: "short_num (ds @ [c]) \<longleftrightarrow> ?v \<le> 1" using dig Cons.prems by (auto simp: short_num_def)
    show ?thesis
    proof (cases "?v \<le> 1")
      case le: True
      then have "run rl_body m a e (c # cs) (A (word_of_int (digits_val ds))) =
          run rl_body m a e cs (A (word_of_int ?v))"
        by (simp add: bd)
      then show ?thesis using Cons.IH [of "ds @ [c]"] sn le step by simp
    next
      case gt: False
      have "?v \<le> digits_val ((ds @ [c]) @ takeWhile is_digit_char cs)"
        using dig by (intro digits_val_append_ge) (auto dest: set_takeWhileD)
      then have "\<not> short_num ((ds @ [c]) @ takeWhile is_digit_char cs)"
        using gt Cons.prems by (auto simp: short_num_def)
      then have "ref_rest sep (ds @ [c]) cs = Ref_bad" by (simp add: ref_rest_def)
      then show ?thesis using gt step by (simp add: bd)
    qed
  qed
qed

definition set_version :: "16 word \<Rightarrow> 16 word \<Rightarrow> parser_state \<Rightarrow> parse_archive \<Rightarrow> parse_archive" where
  "set_version ma mi st ar = ar\<lparr>ar_version := \<lparr>http_major = ma, http_minor = mi\<rparr>, ar_state := st\<rparr>"

lemma set_version_sel [simp]:
  "ar_state (set_version ma mi st ar) = st"
  "(set_version ma mi st ar)\<lparr>ar_state := st'\<rparr> = set_version ma mi st' ar"
  "push_major c (set_version ma mi st ar) = set_version (ma * 10 + of_int (ord_char c - 48)) mi st ar"
  "push_minor c (set_version ma mi st ar) = set_version ma (mi * 10 + of_int (ord_char c - 48)) st ar"
  "http_major (ar_version (set_version ma mi st ar)) = ma"
  "http_minor (ar_version (set_version ma mi st ar)) = mi"
  by (simp_all add: set_version_def push_major_def push_minor_def)

lemma run_major:
  "run_as (ref_number (CHR ''.'') cs)
    (\<lambda>(ds, r) res. res = run rl_body m a e r (set_version (word_of_int (digits_val ds)) 0 S_RL_VERSION_DOT ar))
    (run rl_body m a e cs (set_version 0 0 S_RL_VERSION_HTTP_SLASH ar))"
proof (cases cs)
  case (Cons c cs')
  have "short_num [c]" if "is_digit_char c" using that by (simp add: short_num_def)
  moreover have "run_as (ref_rest (CHR ''.'') [c] cs')
    (\<lambda>(ds, r) res. res = run rl_body m a e r ((set_version (word_of_int (digits_val ds)) 0 S_RL_VERSION_MAJOR ar)\<lparr>ar_state := S_RL_VERSION_DOT\<rparr>))
    (run rl_body m a e cs' (set_version (word_of_int (digits_val [c])) 0 S_RL_VERSION_MAJOR ar))"
    if "short_num [c]"
    by (rule run_number_rest [OF _ _ that, of m "\<lambda>w. set_version w 0 S_RL_VERSION_MAJOR ar" "CHR ''.''"])
      (auto simp: rl_body_def is_digit_char_def ord_char_def Let_def)
  ultimately show ?thesis
    using Cons by (auto simp: ref_number_Cons rl_body_def digits_val_def)
qed (simp add: ref_number_def)

lemma run_minor:
  "run_as (ref_number CR cs)
    (\<lambda>(ds, r) res. res = run rl_body m a e r (set_version ma (word_of_int (digits_val ds)) S_RL_CR_AFTER_VERSION ar))
    (run rl_body m a e cs (set_version ma 0 S_RL_VERSION_DOT ar))"
proof (cases cs)
  case (Cons c cs')
  have "short_num [c]" if "is_digit_char c" using that by (simp add: short_num_def)
  moreover have "run_as (ref_rest CR [c] cs')
    (\<lambda>(ds, r) res. res = run rl_body m a e r ((set_version ma (word_of_int (digits_val ds)) S_RL_VERSION_MINOR ar)\<lparr>ar_state := S_RL_CR_AFTER_VERSION\<rparr>))
    (run rl_body m a e cs' (set_version ma (word_of_int (digits_val [c])) S_RL_VERSION_MINOR ar))"
    if "short_num [c]"
    by (rule run_number_rest [OF _ _ that, of m "\<lambda>w. set_version ma w S_RL_VERSION_MINOR ar" CR])
      (auto simp: rl_body_def is_digit_char_def ord_char_def Let_def)
  ultimately show ?thesis
    using Cons by (auto simp: ref_number_Cons rl_body_def digits_val_def)
qed (simp add: ref_number_def)

lemma run_tag_step:
  assumes "\<And>p c. rl_body m p c ar = rl_expect (c \<in> set s) st ar"
    and "\<And>cs'. run_as (ref_tag ss cs') Q (run rl_body m a e cs' (ar\<lparr>ar_state := st\<rparr>))"
  shows "run_as (ref_tag (s # ss) cs) Q (run rl_body m a e cs ar)"
  using assms by (cases cs) (auto simp: rl_expect_def)

lemma run_tag:
  assumes "ar_state ar = S_RL_SP_BEFORE_VERSION"
  shows "run_as (ref_tag http_tag (dropWhile blank cs))
    (\<lambda>r res. res = run rl_body m a e r (ar\<lparr>ar_state := S_RL_VERSION_HTTP_SLASH\<rparr>)) (run rl_body m a e cs ar)"
    (is "run_as _ ?Q _")
proof -
  have tail: "run_as (ref_tag [''Tt'', ''Tt'', ''Pp'', ''/''] cs') ?Q
      (run rl_body m a e cs' (ar\<lparr>ar_state := S_RL_VERSION_H\<rparr>))" for cs'
    by (rule run_tag_step [where st = S_RL_VERSION_HT], simp add: rl_body_def,
        rule run_tag_step [where st = S_RL_VERSION_HTT], simp add: rl_body_def,
        rule run_tag_step [where st = S_RL_VERSION_HTTP], simp add: rl_body_def,
        rule run_tag_step [where st = S_RL_VERSION_HTTP_SLASH], simp add: rl_body_def, simp)
  have skip: "run rl_body m a e cs ar = run rl_body m a e (dropWhile blank cs) ar"
    by (rule run_skip [symmetric]) (auto simp: rl_body_def assms blank_def)
  show ?thesis
  proof (cases "dropWhile blank cs")
    case Nil
    show ?thesis using skip by (simp add: Nil http_tag_def)
  next
    case (Cons c cs')
    have "\<not> blank c" using hd_dropWhile [of blank cs] Cons by simp
    then show ?thesis using skip tail [of cs'] Cons assms
      by (auto simp: http_tag_def rl_body_def rl_expect_def blank_def)
  qed
qed

lemma run_end:
  "run_as (ref_end cs) (\<lambda>r res. res = Some (Done_at (PBlk a (e - int (length r) - 1))
      (set_version ma mi S_RL_LF_AFTER_VERSION ar)))
    (run rl_body m a e cs (set_version ma mi S_RL_CR_AFTER_VERSION ar))"
  by (cases cs) (auto simp: ref_end_def rl_body_def)

lemma zero_version: "ar_version ar = \<lparr>http_major = 0, http_minor = 0\<rparr> \<Longrightarrow> ar\<lparr>ar_state := s\<rparr> = set_version 0 0 s ar"
  by (cases ar) (simp add: set_version_def)

lemma run_version:
  assumes "ar_state ar = S_RL_SP_BEFORE_VERSION" and "ar_version ar = \<lparr>http_major = 0, http_minor = 0\<rparr>"
  shows "run_as (ref_version cs) (\<lambda>(maj, mn, r) res. res = Some (Done_at (PBlk a (e - int (length r) - 1))
      (set_version (word_of_int (digits_val maj)) (word_of_int (digits_val mn)) S_RL_LF_AFTER_VERSION ar)))
    (run rl_body m a e cs ar)"
  unfolding ref_version_def run_as_bind [of "ref_tag http_tag (dropWhile blank cs)"]
proof (rule run_as_mono [OF run_tag [OF assms(1), of cs m a e]])
  fix r res assume "res = run rl_body m a e r (ar\<lparr>ar_state := S_RL_VERSION_HTTP_SLASH\<rparr>)"
  then have res: "res = run rl_body m a e r (set_version 0 0 S_RL_VERSION_HTTP_SLASH ar)"
    using zero_version [OF assms(2)] by simp
  let ?Q = "\<lambda>(maj, mn, r) res. res = Some (Done_at (PBlk a (e - int (length r) - 1))
      (set_version (word_of_int (digits_val maj)) (word_of_int (digits_val mn)) S_RL_LF_AFTER_VERSION ar))"
  have fin: "run_as (ref_bind (ref_end r) (\<lambda>r. Ref_good (maj, mn, r))) ?Q
      (run rl_body m a e r (set_version (word_of_int (digits_val maj)) (word_of_int (digits_val mn)) S_RL_CR_AFTER_VERSION ar))"
    for maj mn r
    unfolding run_as_bind by (rule run_as_mono [OF run_end]) simp
  have minor: "run_as (ref_bind (ref_number CR r) (\<lambda>(mn, r). ref_bind (ref_end r) (\<lambda>r. Ref_good (maj, mn, r)))) ?Q
      (run rl_body m a e r (set_version (word_of_int (digits_val maj)) 0 S_RL_VERSION_DOT ar))" for maj r
    unfolding run_as_bind [of "ref_number CR r"]
    by (rule run_as_mono [OF run_minor]) (use fin in auto)
  show "run_as (ref_bind (ref_number (CHR ''.'') r) (\<lambda>(maj, r). ref_bind (ref_number CR r)
      (\<lambda>(mn, r). ref_bind (ref_end r) (\<lambda>r. Ref_good (maj, mn, r))))) ?Q res"
    unfolding res run_as_bind [of "ref_number (CHR ''.'') r"]
    by (rule run_as_mono [OF run_major]) (use minor in auto)
qed

section \<open>The grammar of request lines\<close>

definition request_line :: "http_method \<Rightarrow> string \<Rightarrow> char \<Rightarrow> string \<Rightarrow> string \<Rightarrow> string \<Rightarrow> bool" where
  "request_line me u t maj mn line \<longleftrightarrow> (\<exists>w bl bl' tag.
     line = w @ [SP] @ bl @ u @ [t] @ bl' @ tag @ maj @ ''.'' @ mn @ [CR, LF] \<and>
     method_of w = me \<and> me \<noteq> HTTP_INVALID \<and>
     (\<forall>c \<in> set bl. blank c) \<and> u \<noteq> [] \<and> hd u = CHR ''/'' \<and> (\<forall>c \<in> set u. url_char c) \<and>
     blank t \<and> (\<forall>c \<in> set bl'. blank c) \<and> list_all2 (\<lambda>c s. c \<in> set s) tag http_tag \<and>
     short_num maj \<and> short_num mn)"

lemma method_of_alpha: "method_of w \<noteq> HTTP_INVALID \<Longrightarrow> \<forall>c \<in> set w. is_alpha_char c"
  by (auto simp: method_of_def is_alpha_char_def is_upper_char_def ord_char_def split: if_splits)

lemma takeWhile_split: "\<forall>c \<in> set w. P c \<Longrightarrow> \<not> P d \<Longrightarrow>
    takeWhile P (w @ d # r) = w \<and> dropWhile P (w @ d # r) = d # r"
  by (simp add: takeWhile_append dropWhile_append)

lemma dropWhile_Cons_split: "dropWhile P cs = d # r \<Longrightarrow> cs = takeWhile P cs @ d # r \<and> \<not> P d"
  by (metis dropWhile_eq_Cons_conv takeWhile_dropWhile_id)

lemma ref_method_good: "ref_method cs = Ref_good (me, r) \<longleftrightarrow>
    (\<exists>w. cs = w @ SP # r \<and> method_of w = me \<and> me \<noteq> HTTP_INVALID)"
proof
  assume "ref_method cs = Ref_good (me, r)"
  then show "\<exists>w. cs = w @ SP # r \<and> method_of w = me \<and> me \<noteq> HTTP_INVALID"
    by (auto simp: ref_method_def Let_def split: list.splits if_splits dest!: dropWhile_Cons_split)
next
  assume "\<exists>w. cs = w @ SP # r \<and> method_of w = me \<and> me \<noteq> HTTP_INVALID"
  then obtain w where w: "cs = w @ SP # r" "method_of w = me" "me \<noteq> HTTP_INVALID" by blast
  have "\<not> is_alpha_char SP" by (simp add: is_alpha_char_def is_upper_char_def is_lower_char_def ord_char_def)
  then show "ref_method cs = Ref_good (me, r)"
    using takeWhile_split [OF method_of_alpha [of w], of SP r] w by (simp add: ref_method_def)
qed

lemma ref_url_good: "ref_url cs = Ref_good (u, t, r) \<longleftrightarrow>
    (\<exists>bl. cs = bl @ u @ t # r \<and> (\<forall>c \<in> set bl. blank c) \<and> u \<noteq> [] \<and> hd u = CHR ''/'' \<and>
       (\<forall>c \<in> set u. url_char c) \<and> blank t)"
proof
  assume "ref_url cs = Ref_good (u, t, r)"
  then have u: "dropWhile blank cs = u @ t # r" "u = takeWhile url_char (dropWhile blank cs)"
    "u \<noteq> []" "hd u = CHR ''/''" "blank t"
    by (auto simp: ref_url_def Let_def split: list.splits if_splits dest!: dropWhile_Cons_split)
  have "cs = takeWhile blank cs @ u @ t # r" using u(1) takeWhile_dropWhile_id [of blank cs] by metis
  moreover have "\<forall>c \<in> set u. url_char c" using u(2) set_takeWhileD by metis
  ultimately show "\<exists>bl. cs = bl @ u @ t # r \<and> (\<forall>c \<in> set bl. blank c) \<and> u \<noteq> [] \<and> hd u = CHR ''/'' \<and>
       (\<forall>c \<in> set u. url_char c) \<and> blank t"
    using u by (metis set_takeWhileD)
next
  assume "\<exists>bl. cs = bl @ u @ t # r \<and> (\<forall>c \<in> set bl. blank c) \<and> u \<noteq> [] \<and> hd u = CHR ''/'' \<and>
       (\<forall>c \<in> set u. url_char c) \<and> blank t"
  then obtain bl where bl: "cs = bl @ u @ t # r" "\<forall>c \<in> set bl. blank c" "u \<noteq> []" "hd u = CHR ''/''"
    "\<forall>c \<in> set u. url_char c" "blank t" by blast
  obtain c u' where u: "u = c # u'" using bl(3) by (cases u) auto
  have "\<not> blank c" using bl(5) u by (auto simp: url_char_def)
  then have "dropWhile blank cs = u @ t # r"
    using takeWhile_split [of bl blank c "u' @ t # r"] bl(1,2) u by simp
  moreover have "\<not> url_char t" using bl(6) by simp
  ultimately show "ref_url cs = Ref_good (u, t, r)"
    using takeWhile_split [of u url_char t r] bl by (simp add: ref_url_def)
qed

lemma ref_tag_good: "ref_tag ss cs = Ref_good r \<longleftrightarrow> (\<exists>v. cs = v @ r \<and> list_all2 (\<lambda>c s. c \<in> set s) v ss)"
proof (induction ss cs rule: ref_tag.induct)
  case (3 s ss c cs)
  then show ?case by (auto simp: list_all2_Cons2 Cons_eq_append_conv)
qed (auto simp: list_all2_Cons2)

lemma ref_number_good: "\<not> is_digit_char sep \<Longrightarrow>
    ref_number sep cs = Ref_good (ds, r) \<longleftrightarrow> cs = ds @ sep # r \<and> short_num ds"
proof
  assume "ref_number sep cs = Ref_good (ds, r)"
  then show "cs = ds @ sep # r \<and> short_num ds"
    by (auto simp: ref_number_def Let_def split: list.splits if_splits dest!: dropWhile_Cons_split)
next
  assume s: "\<not> is_digit_char sep" and c: "cs = ds @ sep # r \<and> short_num ds"
  then have "\<forall>c \<in> set ds. is_digit_char c" by (simp add: short_num_def)
  from takeWhile_split [OF this s] c show "ref_number sep cs = Ref_good (ds, r)"
    by (simp add: ref_number_def)
qed

lemma ref_bind_good: "ref_bind x f = Ref_good y \<longleftrightarrow> (\<exists>z. x = Ref_good z \<and> f z = Ref_good y)"
  by (cases x) auto

lemma ref_end_good: "ref_end cs = Ref_good r \<longleftrightarrow> cs = LF # r"
  by (cases cs) (auto simp: ref_end_def)

lemma ref_version_good: "ref_version cs = Ref_good (maj, mn, r) \<longleftrightarrow>
    (\<exists>bl tag. cs = bl @ tag @ maj @ ''.'' @ mn @ [CR, LF] @ r \<and> (\<forall>c \<in> set bl. blank c) \<and>
       list_all2 (\<lambda>c s. c \<in> set s) tag http_tag \<and> short_num maj \<and> short_num mn)"
proof -
  have nd: "\<not> is_digit_char (CHR ''.'')" "\<not> is_digit_char CR"
    by (simp_all add: is_digit_char_def ord_char_def)
  have "ref_version cs = Ref_good (maj, mn, r) \<longleftrightarrow> (\<exists>r1 r2 r3.
      ref_tag http_tag (dropWhile blank cs) = Ref_good r1 \<and> ref_number (CHR ''.'') r1 = Ref_good (maj, r2) \<and>
      ref_number CR r2 = Ref_good (mn, r3) \<and> ref_end r3 = Ref_good r)"
    unfolding ref_version_def by (auto simp: ref_bind_good)
  also have "\<dots> \<longleftrightarrow> (\<exists>tag. dropWhile blank cs = tag @ maj @ ''.'' @ mn @ [CR, LF] @ r \<and>
      list_all2 (\<lambda>c s. c \<in> set s) tag http_tag \<and> short_num maj \<and> short_num mn)"
    unfolding ref_tag_good ref_number_good [OF nd(1)] ref_number_good [OF nd(2)] ref_end_good by simp blast
  also have "\<dots> \<longleftrightarrow> (\<exists>bl tag. cs = bl @ tag @ maj @ ''.'' @ mn @ [CR, LF] @ r \<and> (\<forall>c \<in> set bl. blank c) \<and>
       list_all2 (\<lambda>c s. c \<in> set s) tag http_tag \<and> short_num maj \<and> short_num mn)" (is "?L \<longleftrightarrow> ?R")
  proof
    assume ?L
    then obtain tag where t: "dropWhile blank cs = tag @ maj @ ''.'' @ mn @ [CR, LF] @ r"
      "list_all2 (\<lambda>c s. c \<in> set s) tag http_tag" "short_num maj" "short_num mn" by blast
    have "cs = takeWhile blank cs @ tag @ maj @ ''.'' @ mn @ [CR, LF] @ r"
      using takeWhile_dropWhile_id [of blank cs] t(1) by metis
    with t set_takeWhileD [of _ blank cs] show ?R by blast
  next
    assume ?R
    then obtain bl tag where b: "cs = bl @ tag @ maj @ ''.'' @ mn @ [CR, LF] @ r" "\<forall>c \<in> set bl. blank c"
       "list_all2 (\<lambda>c s. c \<in> set s) tag http_tag" "short_num maj" "short_num mn" by blast
    obtain c tag' where c: "tag = c # tag'" "\<not> blank c"
      using b(3) by (auto simp: http_tag_def list_all2_Cons2 blank_def)
    then have "dropWhile blank cs = tag @ maj @ ''.'' @ mn @ [CR, LF] @ r"
      using takeWhile_split [OF b(2) c(2), of "tag' @ maj @ ''.'' @ mn @ [CR, LF] @ r"] b(1) by simp
    with b show ?L by blast
  qed
  finally show ?thesis .
qed

lemma ref_request_line_good: "ref_request_line cs = Ref_good (me, u, t, maj, mn, r) \<longleftrightarrow>
    (\<exists>line. cs = line @ r \<and> request_line me u t maj mn line)"
proof -
  have "ref_request_line cs = Ref_good (me, u, t, maj, mn, r) \<longleftrightarrow> (\<exists>r1 r2.
      ref_method cs = Ref_good (me, r1) \<and> ref_url r1 = Ref_good (u, t, r2) \<and> ref_version r2 = Ref_good (maj, mn, r))"
    unfolding ref_request_line_def by (auto simp: ref_bind_good)
  also have "\<dots> \<longleftrightarrow> (\<exists>line. cs = line @ r \<and> request_line me u t maj mn line)" (is "?L \<longleftrightarrow> ?R")
  proof
    assume ?L
    then obtain w bl bl' tag where "cs = w @ SP # bl @ u @ t # bl' @ tag @ maj @ ''.'' @ mn @ [CR, LF] @ r"
      "method_of w = me" "me \<noteq> HTTP_INVALID" "\<forall>c \<in> set bl. blank c" "u \<noteq> []" "hd u = CHR ''/''"
      "\<forall>c \<in> set u. url_char c" "blank t" "\<forall>c \<in> set bl'. blank c"
      "list_all2 (\<lambda>c s. c \<in> set s) tag http_tag" "short_num maj" "short_num mn"
      unfolding ref_method_good ref_url_good ref_version_good by metis
    then have "cs = (w @ [SP] @ bl @ u @ [t] @ bl' @ tag @ maj @ ''.'' @ mn @ [CR, LF]) @ r \<and>
        request_line me u t maj mn (w @ [SP] @ bl @ u @ [t] @ bl' @ tag @ maj @ ''.'' @ mn @ [CR, LF])"
      unfolding request_line_def by auto
    then show ?R by blast
  next
    assume ?R
    then obtain w bl bl' tag where
      "cs = (w @ [SP] @ bl @ u @ [t] @ bl' @ tag @ maj @ ''.'' @ mn @ [CR, LF]) @ r"
      "method_of w = me" "me \<noteq> HTTP_INVALID" "\<forall>c \<in> set bl. blank c" "u \<noteq> []" "hd u = CHR ''/''"
      "\<forall>c \<in> set u. url_char c" "blank t" "\<forall>c \<in> set bl'. blank c"
      "list_all2 (\<lambda>c s. c \<in> set s) tag http_tag" "short_num maj" "short_num mn"
      unfolding request_line_def by blast
    then have "cs = w @ SP # (bl @ u @ t # (bl' @ tag @ maj @ ''.'' @ mn @ [CR, LF] @ r)) \<and>
        method_of w = me \<and> me \<noteq> HTTP_INVALID"
      "\<exists>bl0. bl @ u @ t # (bl' @ tag @ maj @ ''.'' @ mn @ [CR, LF] @ r) = bl0 @ u @ t # (bl' @ tag @ maj @ ''.'' @ mn @ [CR, LF] @ r) \<and>
        (\<forall>c \<in> set bl0. blank c) \<and> u \<noteq> [] \<and> hd u = CHR ''/'' \<and> (\<forall>c \<in> set u. url_char c) \<and> blank t"
      "\<exists>bl0 tag0. bl' @ tag @ maj @ ''.'' @ mn @ [CR, LF] @ r = bl0 @ tag0 @ maj @ ''.'' @ mn @ [CR, LF] @ r \<and>
        (\<forall>c \<in> set bl0. blank c) \<and> list_all2 (\<lambda>c s. c \<in> set s) tag0 http_tag \<and> short_num maj \<and> short_num mn"
      by (simp_all, blast+)
    then show ?L unfolding ref_method_good ref_url_good ref_version_good by blast
  qed
  finally show ?thesis .
qed

section \<open>The machine as a whole\<close>

definition rl_fresh :: "nat \<Rightarrow> nat \<Rightarrow> parse_archive \<Rightarrow> bool" where
  "rl_fresh a k ar \<longleftrightarrow> ar_next_parse_pos ar = PBlk a (int k) \<and> ar_state ar = S_RL_BEGIN \<and>
     ar_url ar = zero_url \<and> ar_version ar = \<lparr>http_major = 0, http_minor = 0\<rparr>"

text \<open>The archive after the line: what was found, and where the URL is.\<close>

definition rl_result :: "nat \<Rightarrow> nat \<Rightarrow> nat \<Rightarrow> http_method \<Rightarrow> string \<Rightarrow> char \<Rightarrow> string \<Rightarrow> string \<Rightarrow>
    parse_archive \<Rightarrow> parse_archive" where
  "rl_result a k i me u t maj mn ar =
     set_version (word_of_int (digits_val maj)) (word_of_int (digits_val mn)) S_RL_LF_AFTER_VERSION
       (ar\<lparr>ar_method_begin := PBlk a (int k), ar_method := me,
           ar_url_begin := PBlk a (int i), ar_state := S_RL_SP_BEFORE_VERSION,
           ar_request_url_string := span_at a (int i) (int (length u)),
           ar_url := url_parts a (int i) u t\<rparr>)"

text \<open>The URL \<open>u\<close> with the blank \<open>t\<close> behind it is at offset \<open>i\<close> of \<open>d\<close>, before the last bytes \<open>r\<close>.\<close>

definition url_at :: "string \<Rightarrow> nat \<Rightarrow> string \<Rightarrow> char \<Rightarrow> string \<Rightarrow> bool" where
  "url_at d i u t r \<longleftrightarrow> take (length u) (drop i d) = u \<and> i + length u + length r < length d \<and> d ! (i + length u) = t"

lemma url_at_bounds: "url_at d i u t r \<Longrightarrow> take (length u) (drop i d) = u \<and> i + length u < length d"
  by (simp add: url_at_def)

lemma run_request_line:
  assumes h: "holds m a (x @ cs)" and e: "e = int (length (x @ cs))" "e < 2 ^ 31"
    and ar: "rl_fresh a (length x) ar"
  shows "run_as (ref_request_line cs) (\<lambda>(me, u, t, maj, mn, r) res. \<exists>i.
      url_at (x @ cs) i u t r \<and>
      res = Some (Done_at (PBlk a (e - int (length r) - 1)) (rl_result a (length x) i me u t maj mn ar)))
    (run rl_body m a e cs ar)" (is "run_as _ ?Q _")
proof -
  note fresh = ar [unfolded rl_fresh_def]
  have version: "run_as (ref_bind (ref_version r2) (\<lambda>(maj, mn, r). Ref_good (me, u, t, maj, mn, r))) ?Q res"
    if g: "ref_method cs = Ref_good (me, r1)" "ref_url r1 = Ref_good (u, t, r2)"
      and res: "let i = e - int (length r2) - 1 - int (length u) in res = run rl_body m a e r2
        (ar\<lparr>ar_method_begin := PBlk a (int (length x)), ar_method := me, ar_state := S_RL_SP_BEFORE_URL,
            ar_url_begin := PBlk a i, ar_state := S_RL_SP_BEFORE_VERSION,
            ar_request_url_string := span_at a i (int (length u)), ar_url := url_parts a i u t\<rparr>)"
    for me r1 u t r2 res
  proof -
    obtain w bl where cs: "cs = w @ SP # bl @ u @ t # r2"
      using g by (auto simp: ref_method_good ref_url_good)
    define i where "i = length (x @ w @ [SP] @ bl)"
    have i: "e - int (length r2) - 1 - int (length u) = int i" using cs e(1) by (simp add: i_def)
    have u: "url_at (x @ cs) i u t r" if "length r \<le> length r2" for r
      using that by (auto simp: i_def cs url_at_def nth_append)
    let ?ar = "ar\<lparr>ar_method_begin := PBlk a (int (length x)), ar_method := me,
        ar_url_begin := PBlk a (int i), ar_state := S_RL_SP_BEFORE_VERSION,
        ar_request_url_string := span_at a (int i) (int (length u)), ar_url := url_parts a (int i) u t\<rparr>"
    have r: "res = run rl_body m a e r2 ?ar" using res unfolding i Let_def by simp
    show ?thesis
      unfolding run_as_bind r
      by (rule run_as_mono [OF run_version [of ?ar r2 a e m]]) (use fresh u in \<open>auto simp: rl_result_def ref_version_good intro!: exI [of _ i]\<close>)
  qed
  have url: "run_as (ref_bind (ref_url r1) (\<lambda>(u, t, r). ref_bind (ref_version r)
      (\<lambda>(maj, mn, r). Ref_good (me, u, t, maj, mn, r)))) ?Q res"
    if g: "ref_method cs = Ref_good (me, r1)"
      and res: "res = run rl_body m a e r1 (ar\<lparr>ar_method_begin := PBlk a (int (length x)), ar_method := me,
          ar_state := S_RL_SP_BEFORE_URL\<rparr>)" for me r1 res
  proof -
    obtain w where cs: "cs = w @ SP # r1" using g by (auto simp: ref_method_good)
    have "holds m a ((x @ w @ [SP]) @ r1)" "e = int (length ((x @ w @ [SP]) @ r1))" using h e cs by auto
    note run_url [OF this e(2), of "ar\<lparr>ar_method_begin := PBlk a (int (length x)), ar_method := me,
          ar_state := S_RL_SP_BEFORE_URL\<rparr>"]
    then show ?thesis
      unfolding run_as_bind [of "ref_url r1"] res
      by (rule run_as_mono) (use fresh version [OF g] in auto)
  qed
  show ?thesis
    unfolding ref_request_line_def run_as_bind [of "ref_method cs"]
    by (rule run_as_mono [OF run_method [OF h e]]) (use fresh url in auto)
qed

lemma buffer_small: "buffer_inv b \<Longrightarrow> b_len b < 2 ^ 31"
  by (simp add: buffer_inv_def)

text \<open>The result of the whole function for each outcome of the reference parser.\<close>

lemma parse_request_line_ref:
  assumes b: "buffer_inv b" and k: "k \<le> length (buffer_data b)" and ar: "rl_fresh a k ar"
  shows "case ref_request_line (drop k (buffer_data b)) of
      Ref_more \<Rightarrow> \<exists>ar'. parse_request_line a b ar = Some (AGAIN, ar'\<lparr>ar_next_parse_pos := buffer_end a b\<rparr>)
    | Ref_bad \<Rightarrow> \<exists>ar'. parse_request_line a b ar = Some (INVALID_REQUEST, ar')
    | Ref_good (me, u, t, maj, mn, r) \<Rightarrow> \<exists>i. url_at (buffer_data b) i u t r \<and>
        parse_request_line a b ar = Some (OK, (rl_result a k i me u t maj mn ar)
          \<lparr>ar_next_parse_pos := PBlk a (b_len b - int (length r)), ar_state := S_HD_BEGIN\<rparr>)"
proof -
  let ?d = "buffer_data b"
  let ?x = "take k ?d" and ?cs = "drop k ?d"
  have len: "int (length ?d) = b_len b" using length_buffer_data [OF b] .
  have kx: "length ?x = k" using k by simp
  have p: "parse_request_line a b ar = do {
      r \<leftarrow> run rl_body [a \<mapsto> b_buf b] a (b_len b) ?cs ar;
      Some (case r of At_end ar \<Rightarrow> (AGAIN, ar\<lparr>ar_next_parse_pos := buffer_end a b\<rparr>)
        | Returned st ar \<Rightarrow> (st, ar)
        | Done_at p ar \<Rightarrow> (OK, ar\<lparr>ar_next_parse_pos := ptr_add p 1, ar_state := S_HD_BEGIN\<rparr>)) }"
    using scan_run [OF b, of ar a k rl_body] ar len k by (simp add: parse_request_line_def rl_fresh_def)
  have "run_as (ref_request_line ?cs) (\<lambda>(me, u, t, maj, mn, r) res. \<exists>i.
      url_at ?d i u t r \<and>
      res = Some (Done_at (PBlk a (b_len b - int (length r) - 1)) (rl_result a k i me u t maj mn ar)))
    (run rl_body [a \<mapsto> b_buf b] a (b_len b) ?cs ar)"
    using run_request_line [of "[a \<mapsto> b_buf b]" a ?x ?cs "b_len b" ar] holds_buffer [OF b] len ar kx
      buffer_small [OF b] by simp
  then show ?thesis
    unfolding p by (auto split: ref.splits) blast+
qed

text \<open>The strings the recorded spans denote.\<close>

lemma url_path_prefix: "take (length (url_path u)) u = url_path u"
  unfolding url_path_def by (metis append_eq_conv_conj takeWhile_dropWhile_id)

lemma url_ext_suffix: "url_ext ap = Some x \<Longrightarrow> \<exists>y. ap = y @ CHR ''.'' # x \<and> CHR ''/'' \<notin> set x \<and> CHR ''.'' \<notin> set x"
proof -
  let ?P = "\<lambda>c. c \<noteq> CHR ''.'' \<and> c \<noteq> CHR ''/''"
  assume "url_ext ap = Some x"
  then obtain q where q: "dropWhile ?P (rev ap) = CHR ''.'' # q" "x = rev (takeWhile ?P (rev ap))"
    by (auto simp: url_ext_def Let_def neq_Nil_conv split: if_splits)
  define r where "r = takeWhile ?P (rev ap)"
  have "rev ap = r @ CHR ''.'' # q" unfolding r_def using takeWhile_dropWhile_id [of ?P "rev ap"] q(1) by metis
  then have "rev (rev ap) = rev (r @ CHR ''.'' # q)" by (rule arg_cong)
  moreover have "x = rev r" unfolding r_def by (rule q(2))
  ultimately have "ap = rev q @ CHR ''.'' # x" by simp
  moreover have "\<forall>c \<in> set x. ?P c" unfolding q(2) by (auto dest: set_takeWhileD)
  ultimately show ?thesis by blast
qed

lemma span_view:
  assumes "holds m a d" and "take n (drop i d) = u" and "i + n \<le> length d" and "j + l \<le> n"
  shows "ss_view m (span_at a (int i + int j) (int l)) = Some (take l (drop j u))"
proof -
  have "take l (drop j u) = take l (drop (i + j) d)"
    using assms(2,4) by (auto simp: drop_take add.commute min_def)
  then show ?thesis using holds_view [OF assms(1), of "i + j" l] assms(3,4) by (simp add: span_at_def)
qed

lemma url_views:
  assumes "holds m a d" and "take (length u) (drop i d) = u" and "i + length u < length d"
  shows "ss_view m (span_at a (int i) (int (length u))) = Some u"
    and "ss_view m (span_at a (int i) (int (length (url_path u)))) = Some (url_path u)"
    and "ss_view m (url_query_string (url_parts a (int i) u SP)) = Some (drop (Suc (length (url_path u))) u)"
    and "url_ext (url_path u) = Some x \<Longrightarrow> ss_view m (ext_at a (int i) (url_path u) e) = Some x"
proof -
  note span = span_view [OF assms(1,2)]
  have le: "length (url_path u) \<le> length u" by (simp add: url_path_def length_takeWhile_le)
  show "ss_view m (span_at a (int i) (int (length u))) = Some u" using span [of 0 "length u"] assms(3) by simp
  show "ss_view m (span_at a (int i) (int (length (url_path u)))) = Some (url_path u)"
    using span [of 0 "length (url_path u)"] assms(3) le url_path_prefix by simp
  show "ss_view m (url_query_string (url_parts a (int i) u SP)) = Some (drop (Suc (length (url_path u))) u)"
  proof (cases "CHR ''?'' \<in> set u")
    case True
    then obtain q where q: "u = url_path u @ CHR ''?'' # q" using url_path_split by blast
    then have n: "length u = length (url_path u) + 1 + length q" by (metis add.assoc add.commute length_Cons length_append plus_1_eq_Suc)
    have "take (length q) (drop (length (url_path u) + 1) u) = drop (Suc (length (url_path u))) u" using n by simp
    with span [of "length (url_path u) + 1" "length q"] n assms(3) True show ?thesis
      by (simp add: url_parts_def Let_def algebra_simps)
  next
    case False
    with span [of "length u" 0] assms(3) show ?thesis by (simp add: url_parts_def url_path_id Let_def)
  qed
  assume x: "url_ext (url_path u) = Some x"
  then obtain y where y: "url_path u = y @ CHR ''.'' # x" using url_ext_suffix by blast
  obtain w where "u = y @ CHR ''.'' # x @ w"
    using url_path_prefix [of u] append_take_drop_id [of "length (url_path u)" u] y
    by (metis append.assoc append_Cons)
  then have "take (length x) (drop (length y + 1) u) = x" by simp
  with span [of "length y + 1" "length x"] assms(3) le y x show
    "ss_view m (ext_at a (int i) (url_path u) e) = Some x"
    by (simp add: ext_at_def)
qed

section \<open>Properties\<close>

lemma request_line_rest: "request_line me u t maj mn line \<Longrightarrow> drop k d = line @ r \<Longrightarrow>
    ref_request_line (drop k d) = Ref_good (me, u, t, maj, mn, r)"
  using ref_request_line_good by blast

lemma init_fresh: "rl_fresh a 0 (parse_archive_init a)"
  by (simp add: rl_fresh_def parse_archive_init_def zero_url_def)

text \<open>
  What the archive \<open>ar\<close> says of a request line: method, version numbers and, as views of the memory,
  the URL and its parts.
\<close>

definition rl_records :: "memory \<Rightarrow> http_method \<Rightarrow> string \<Rightarrow> char \<Rightarrow> string \<Rightarrow> string \<Rightarrow> parse_archive \<Rightarrow> bool" where
  "rl_records m me u t maj mn ar \<longleftrightarrow> ar_method ar = me \<and>
     http_major (ar_version ar) = word_of_int (digits_val maj) \<and>
     http_minor (ar_version ar) = word_of_int (digits_val mn) \<and>
     ss_view m (ar_request_url_string ar) = Some u \<and>
     (t = SP \<longrightarrow> ss_view m (url_abs_path (ar_url ar)) = Some (url_path u) \<and>
       ss_view m (url_query_string (ar_url ar)) = Some (drop (Suc (length (url_path u))) u) \<and>
       (case url_ext (url_path u) of
          None \<Rightarrow> url_mime_extension (ar_url ar) = null_str
        | Some x \<Rightarrow> ss_view m (url_mime_extension (ar_url ar)) = Some x)) \<and>
     (t \<noteq> SP \<and> CHR ''?'' \<notin> set u \<longrightarrow> ar_url ar = zero_url)"

lemma rl_result_records:
  assumes "holds m a d" and "take (length u) (drop i d) = u" and "i + length u < length d"
  shows "rl_records m me u t maj mn ((rl_result a k i me u t maj mn ar)\<lparr>ar_next_parse_pos := p, ar_state := s\<rparr>)"
  using url_views [OF assms] unfolding rl_records_def
  by (auto simp: rl_result_def set_version_def url_parts_def ext_at_def Let_def split: option.splits)

text \<open>
  C4. From a fresh archive, on whatever bytes the buffer holds, \<open>parse_request_line\<close> returns
  without undefined behaviour, and it returns \<open>OK\<close> exactly when the unparsed bytes start with a
  request line of the grammar. The archive then has the method, both version numbers, the URL, and
  (for a URL that ends with a space) its path, its query string and the extension of its last
  path segment, and parsing goes on right after the line.
\<close>

theorem parse_request_line_correct:
  assumes "buffer_inv b" and "k \<le> length (buffer_data b)" and "rl_fresh a k ar"
  shows "\<exists>st ar'. parse_request_line a b ar = Some (st, ar') \<and> st \<in> {OK, AGAIN, INVALID_REQUEST} \<and>
    (st = OK \<longleftrightarrow> (\<exists>me u t maj mn line rest. drop k (buffer_data b) = line @ rest \<and> request_line me u t maj mn line)) \<and>
    (\<forall>me u t maj mn line rest. drop k (buffer_data b) = line @ rest \<and> request_line me u t maj mn line \<longrightarrow>
       ar_next_parse_pos ar' = PBlk a (int (k + length line)) \<and> ar_state ar' = S_HD_BEGIN \<and>
       rl_records [a \<mapsto> b_buf b] me u t maj mn ar')"
proof -
  let ?d = "buffer_data b"
  note ref = parse_request_line_ref [OF assms]
  show ?thesis
  proof (cases "ref_request_line (drop k ?d)")
    case (Ref_good x)
    obtain me u t maj mn r where x: "x = (me, u, t, maj, mn, r)" by (cases x) auto
    with Ref_good ref obtain i where "url_at ?d i u t r"
      and p: "parse_request_line a b ar = Some (OK, (rl_result a k i me u t maj mn ar)
          \<lparr>ar_next_parse_pos := PBlk a (b_len b - int (length r)), ar_state := S_HD_BEGIN\<rparr>)" by auto
    then have i: "take (length u) (drop i ?d) = u" "i + length u < length ?d" using url_at_bounds by blast+
    obtain line where line: "drop k ?d = line @ r" "request_line me u t maj mn line"
      using Ref_good x ref_request_line_good by blast
    have pos: "b_len b - int (length r) = int (k + length line)"
      using arg_cong [OF line(1), of length] length_buffer_data [OF assms(1)] assms(2) by simp
    have uniq: "me' = me \<and> u' = u \<and> t' = t \<and> maj' = maj \<and> mn' = mn \<and> line' = line"
      if "drop k ?d = line' @ rest'" "request_line me' u' t' maj' mn' line'" for me' u' t' maj' mn' line' rest'
      using request_line_rest [OF that(2,1)] Ref_good x that(1) line(1) by simp
    let ?ar = "(rl_result a k i me u t maj mn ar)
        \<lparr>ar_next_parse_pos := PBlk a (b_len b - int (length r)), ar_state := S_HD_BEGIN\<rparr>"
    have rec: "rl_records [a \<mapsto> b_buf b] me u t maj mn ?ar"
      by (rule rl_result_records [OF holds_buffer [OF assms(1)] i])
    show ?thesis
    proof (intro exI conjI allI impI)
      show "parse_request_line a b ar = Some (OK, ?ar)" by (rule p)
      show "(OK = OK) = (\<exists>me u t maj mn line rest. drop k ?d = line @ rest \<and> request_line me u t maj mn line)"
        using line by blast
    qed (use uniq rec pos in auto)
  qed (use ref request_line_rest in \<open>fastforce+\<close>)
qed

section \<open>Request lines in instalments\<close>

text \<open>
  The archive fits the string \<open>x\<close> scanned so far: nothing of the URL is recorded before its end, and
  the saved starts of method and URL are inside \<open>x\<close>.
\<close>

definition url_tail :: "nat \<Rightarrow> string \<Rightarrow> cptr \<Rightarrow> bool" where
  "url_tail a x p \<longleftrightarrow> (\<exists>y u. x = y @ u \<and> u \<noteq> [] \<and> (\<forall>c \<in> set u. url_char c) \<and> p = PBlk a (int (length y)))"

lemma url_tail_start: "url_char c \<Longrightarrow> url_tail a (x @ [c]) (PBlk a (int (length x)))"
  unfolding url_tail_def by (intro exI [of _ x] exI [of _ "[c]"]) simp

lemma url_tail_snoc: "url_tail a x p \<Longrightarrow> url_char c \<Longrightarrow> url_tail a (x @ [c]) p"
proof -
  assume "url_tail a x p" and c: "url_char c"
  then obtain y u where "x = y @ u" "u \<noteq> []" "\<forall>c \<in> set u. url_char c" "p = PBlk a (int (length y))"
    by (auto simp: url_tail_def)
  then show ?thesis unfolding url_tail_def using c by (intro exI [of _ y] exI [of _ "u @ [c]"]) auto
qed

definition rl_ready :: "nat \<Rightarrow> string \<Rightarrow> parse_archive \<Rightarrow> bool" where
  "rl_ready a x ar \<longleftrightarrow>
     (ar_state ar \<in> {S_RL_BEGIN, S_RL_METHOD, S_RL_SP_BEFORE_URL, S_RL_URL} \<longrightarrow> ar_url ar = zero_url) \<and>
     (ar_state ar = S_RL_METHOD \<longrightarrow> (\<exists>y w. x = y @ w \<and> ar_method_begin ar = PBlk a (int (length y)))) \<and>
     (ar_state ar = S_RL_URL \<longrightarrow> url_tail a x (ar_url_begin ar))"

definition rl_finish :: "cptr \<Rightarrow> parse_archive \<Rightarrow> (int \<times> parse_archive) option" where
  "rl_finish p ar = Some (OK, ar\<lparr>ar_next_parse_pos := ptr_add p 1, ar_state := S_HD_BEGIN\<rparr>)"

lemma rl_step_method:
  assumes r: "rl_ready a x ar" and st: "ar_state ar = S_RL_METHOD" and len: "length x < 2 ^ 31"
  shows "\<exists>r. (\<forall>m. holds m a (x @ [c]) \<longrightarrow> rl_body m (PBlk a (int (length x))) c ar = Some r) \<and>
    (\<forall>ar'. r = Next ar' \<longrightarrow> rl_ready a (x @ [c]) ar') \<and> (\<forall>st ar'. r = Return st ar' \<longrightarrow> st = INVALID_REQUEST) \<and>
    (\<forall>ar'. r \<noteq> Goto_done ar')"
proof -
  obtain y w where x: "x = y @ w" and mb: "ar_method_begin ar = PBlk a (int (length y))" and z: "ar_url ar = zero_url"
    using r st by (auto simp: rl_ready_def)
  have pm: "parse_method m (PBlk a (int (length y))) (PBlk a (int (length x))) = Some (method_of w)"
    if "holds m a (x @ [c])" for m
    using parse_method_holds [of m a y w "[c]"] that x len by simp
  consider "is_alpha_char c" | "\<not> is_alpha_char c" "c = SP" | "\<not> is_alpha_char c" "c \<noteq> SP" by blast
  then show ?thesis
  proof cases
    case 1
    have "rl_ready a (x @ [c]) ar" using st x mb z by (auto simp: rl_ready_def)
    with 1 st show ?thesis by (intro exI [of _ "Next ar"]) (simp add: rl_body_def rl_method_def)
  next
    case 2
    let ?ar = "ar\<lparr>ar_method := method_of w\<rparr>"
    let ?r = "if method_of w = HTTP_INVALID then Return INVALID_REQUEST ?ar else Next (?ar\<lparr>ar_state := S_RL_SP_BEFORE_URL\<rparr>)"
    have "rl_body m (PBlk a (int (length x))) c ar = Some ?r" if "holds m a (x @ [c])" for m
      using 2 st pm [OF that] mb by (simp add: rl_body_def rl_method_def)
    then show ?thesis using z by (intro exI [of _ ?r]) (auto simp: rl_ready_def)
  next
    case 3
    with st show ?thesis by (intro exI [of _ "Return INVALID_REQUEST ar"]) (simp add: rl_body_def rl_method_def)
  qed
qed

lemma rl_step_url:
  assumes r: "rl_ready a x ar" and st: "ar_state ar = S_RL_URL" and len: "length x < 2 ^ 31"
  shows "\<exists>r. (\<forall>m. holds m a (x @ [c]) \<longrightarrow> rl_body m (PBlk a (int (length x))) c ar = Some r) \<and>
    (\<forall>ar'. r = Next ar' \<longrightarrow> rl_ready a (x @ [c]) ar') \<and> (\<forall>st ar'. r = Return st ar' \<longrightarrow> st = INVALID_REQUEST) \<and>
    (\<forall>ar'. r \<noteq> Goto_done ar')"
proof -
  obtain y u where x: "x = y @ u" "u \<noteq> []" "\<forall>c \<in> set u. url_char c"
    and ub: "ar_url_begin ar = PBlk a (int (length y))" and z: "ar_url ar = zero_url"
    and tl: "url_tail a x (ar_url_begin ar)"
    using r st by (auto simp: rl_ready_def url_tail_def)
  consider "blank c" | "\<not> blank c" "\<not> url_char c" | "url_char c" by blast
  then show ?thesis
  proof cases
    case 1
    let ?ar = "ar\<lparr>ar_state := S_RL_SP_BEFORE_VERSION, ar_request_url_string := span_at a (int (length y)) (int (length u))\<rparr>"
    let ?r = "if hd u = CHR ''/'' then Next (?ar\<lparr>ar_url := url_parts a (int (length y)) u c\<rparr>) else Return ERROR ?ar"
    have "rl_body m (PBlk a (int (length x))) c ar = Some ?r" if "holds m a (x @ [c])" for m
      using 1 st ub z parse_url_holds [of m a y u c "[]" "ar\<lparr>ar_state := S_RL_SP_BEFORE_VERSION\<rparr>"] that x len
      by (auto simp: rl_body_def blank_def Let_def)
    then show ?thesis by (intro exI [of _ ?r]) (auto simp: rl_ready_def)
  next
    case 2
    with st show ?thesis
      by (intro exI [of _ "Return INVALID_REQUEST ar"]) (auto simp: rl_body_def url_char_def blank_def)
  next
    case 3
    have "rl_ready a (x @ [c]) ar" using st z url_tail_snoc [OF tl 3] by (simp add: rl_ready_def)
    with 3 st show ?thesis
      by (intro exI [of _ "Next ar"]) (auto simp: rl_body_def url_char_def blank_def)
  qed
qed

lemma rl_step:
  assumes r: "rl_ready a x ar" and h: "holds m a (x @ [c])" "holds m' a (x @ [c])" and len: "length x < 2 ^ 31"
  shows "\<exists>r. rl_body m (PBlk a (int (length x))) c ar = Some r \<and> rl_body m' (PBlk a (int (length x))) c ar = Some r \<and>
    (\<forall>ar'. r = Next ar' \<longrightarrow> rl_ready a (x @ [c]) ar') \<and> (\<forall>st ar'. r = Return st ar' \<longrightarrow> st = INVALID_REQUEST) \<and>
    (\<forall>ar' p. r = Goto_done ar' \<longrightarrow> (\<exists>st ar''. rl_finish p ar' = Some (st, ar'') \<and> st \<noteq> AGAIN))"
proof (cases "ar_state ar = S_RL_METHOD \<or> ar_state ar = S_RL_URL")
  case True
  then obtain r' where "\<forall>m. holds m a (x @ [c]) \<longrightarrow> rl_body m (PBlk a (int (length x))) c ar = Some r'"
    "\<forall>ar'. r' = Next ar' \<longrightarrow> rl_ready a (x @ [c]) ar'" "\<forall>st ar'. r' = Return st ar' \<longrightarrow> st = INVALID_REQUEST"
    "\<forall>ar'. r' \<noteq> Goto_done ar'"
    using rl_step_method [OF r _ len, of c] rl_step_url [OF r _ len, of c] by (elim disjE) blast+
  with h show ?thesis by (intro exI [of _ r']) simp
next
  case False
  let ?r = "rl_body m (PBlk a (int (length x))) c ar"
  have same: "rl_body m' (PBlk a (int (length x))) c ar = ?r"
    using False by (auto simp: rl_body_def rl_method_def split: parser_state.split)
  have "?r \<noteq> None" using False by (auto simp: rl_body_def rl_method_def rl_expect_def Let_def split: parser_state.split)
  moreover have "rl_ready a (x @ [c]) ar'" if "?r = Some (Next ar')" for ar'
    using False that r url_tail_start [of c a x]
    by (auto simp: rl_body_def rl_method_def rl_expect_def Let_def rl_ready_def push_major_def push_minor_def
        url_char_def blank_def split: parser_state.splits if_splits)
  moreover have "st = INVALID_REQUEST" if "?r = Some (Return st ar')" for st ar'
    using False that by (auto simp: rl_body_def rl_method_def rl_expect_def Let_def split: parser_state.splits if_splits)
  ultimately show ?thesis using same by (auto simp: rl_finish_def)
qed

lemma parse_method_pos: "rl_method m p c (set_pos q ar) = map_option (upd_pass (set_pos q)) (rl_method m p c ar)"
  by (cases "parse_method m (ar_method_begin ar) p") (auto simp: rl_method_def set_pos_def Let_def)

lemma parse_url_pos:
  "parse_url m b e (set_pos q ar) = map_option (map_prod id (set_pos q)) (parse_url m b e ar)"
  by (cases ar) (auto simp: parse_url_def set_pos_def Let_def split: sum.splits Option.bind_splits)

lemma set_pos_sel [simp]:
  "ar_state (set_pos q ar) = ar_state ar" "ar_url (set_pos q ar) = ar_url ar"
  "ar_method_begin (set_pos q ar) = ar_method_begin ar" "ar_url_begin (set_pos q ar) = ar_url_begin ar"
  "ar_version (set_pos q ar) = ar_version ar"
  "ar_next_parse_pos (set_pos q ar) = q"
  by (simp_all add: set_pos_def)

lemma set_pos_upd:
  "(set_pos q ar)\<lparr>ar_state := s\<rparr> = set_pos q (ar\<lparr>ar_state := s\<rparr>)"
  "(set_pos q ar)\<lparr>ar_method_begin := p\<rparr> = set_pos q (ar\<lparr>ar_method_begin := p\<rparr>)"
  "(set_pos q ar)\<lparr>ar_url_begin := p\<rparr> = set_pos q (ar\<lparr>ar_url_begin := p\<rparr>)"
  "push_major c (set_pos q ar) = set_pos q (push_major c ar)"
  "push_minor c (set_pos q ar) = set_pos q (push_minor c ar)"
  by (simp_all add: set_pos_def push_major_def push_minor_def)

lemma rl_body_pos: "rl_body m p c (set_pos q ar) = map_option (upd_pass (set_pos q)) (rl_body m p c ar)"
proof (cases "ar_state ar = S_RL_URL")
  case True
  then show ?thesis
    by (cases "parse_url m (ar_url_begin ar) p (ar\<lparr>ar_state := S_RL_SP_BEFORE_VERSION\<rparr>)")
      (simp_all add: rl_body_def set_pos_upd parse_url_pos if_distrib [of "upd_pass (set_pos q)"] split: prod.split)
next
  case False
  then show ?thesis
    by (cases "ar_state ar") (simp_all add: rl_body_def rl_expect_def set_pos_upd parse_method_pos Let_def if_distrib [of "upd_pass (set_pos q)"])
qed

interpretation rl: incremental_scanner rl_body rl_finish "rl_ready a" a "parse_request_line a" for a
proof unfold_locales
  show "rl_finish p (set_pos q ar) = rl_finish p ar" for p q ar by (simp add: rl_finish_def set_pos_def)
  show "rl_ready a x (set_pos q ar) = rl_ready a x ar" for x q ar by (simp add: rl_ready_def)
  show "parse_request_line a b ar = do { r \<leftarrow> scan rl_body a b ar;
       case r of At_end ar \<Rightarrow> Some (AGAIN, ar\<lparr>ar_next_parse_pos := buffer_end a b\<rparr>)
       | Returned st ar \<Rightarrow> Some (st, ar) | Done_at p ar \<Rightarrow> rl_finish p ar }" for b ar
    unfolding parse_request_line_def rl_finish_def
    by (cases "scan rl_body a b ar") (auto split: scan_end.split)
qed (use rl_step rl_body_pos in blast)+

lemma rl_fresh_fits: "buffer_inv b \<Longrightarrow> k \<le> length (buffer_data b) \<Longrightarrow> rl_fresh a k ar \<Longrightarrow> fits (rl_ready a) a b ar"
  unfolding fits_def
  by (intro conjI exI [of _ "take k (buffer_data b)"] exI [of _ "drop k (buffer_data b)"])
    (auto simp: rl_fresh_def rl_ready_def)

text \<open>
  C9. It does not matter in which pieces a request line arrives: calling \<open>parse_request_line\<close> after
  each of any number of appends, as long as it returns \<open>AGAIN\<close>, ends with the same status and the
  same archive as one call on all the bytes (up to the saved position of a rejected request, which
  is never used again). In particular a line that was rejected early is rejected whatever follows.
\<close>

theorem request_line_in_pieces:
  assumes "buffer_inv b" and "k \<le> length (buffer_data b)" and "rl_fresh a k ar"
    and "sorted_wrt extends (b # bs)"
  shows "map_option parse_obs (feed (parse_request_line a) (b # bs) ar) =
    map_option parse_obs (parse_request_line a (last (b # bs)) ar)"
  by (rule rl.feed_last [OF rl_fresh_fits [OF assms(1-3)] assms(4)])

lemma request_line_in_pieces_witness:
  "map_option parse_obs (feed (parse_request_line 7) [buf_of ''GE'', buf_of (''GET /s HTTP/1.1'' @ [CR, LF])] (parse_archive_init 7)) =
   map_option parse_obs (parse_request_line 7 (buf_of (''GET /s HTTP/1.1'' @ [CR, LF])) (parse_archive_init 7))"
  using request_line_in_pieces [OF _ _ init_fresh, of "buf_of ''GE''" "[buf_of (''GET /s HTTP/1.1'' @ [CR, LF])]" 7]
  by (simp add: buf_of_ok extends_def)

lemma request_line_example:
  "request_line HTTP_GET ''/s/a.txt?q'' SP ''1'' ''1'' (''GET /s/a.txt?q HTTP/1.1'' @ [CR, LF])"
  unfolding request_line_def
  by (intro exI [of _ "''GET''"] exI [of _ "[]"] exI [of _ "''HTTP/''"])
    (simp add: method_of_def http_tag_def url_char_def blank_def short_num_def is_digit_char_def ord_char_def)

lemma parse_request_line_correct_witness:
  "\<exists>ar'. parse_request_line 7 (buf_of (''GET /s/a.txt?q HTTP/1.1'' @ [CR, LF])) (parse_archive_init 7) = Some (OK, ar') \<and>
     rl_records [7 \<mapsto> b_buf (buf_of (''GET /s/a.txt?q HTTP/1.1'' @ [CR, LF]))] HTTP_GET ''/s/a.txt?q'' SP ''1'' ''1'' ar' \<and>
     ar_next_parse_pos ar' = PBlk 7 25"
proof -
  have *: "\<exists>ar'. parse_request_line 7 (buf_of l) (parse_archive_init 7) = Some (OK, ar') \<and>
     rl_records [7 \<mapsto> b_buf (buf_of l)] me u t maj mn ar' \<and> ar_next_parse_pos ar' = PBlk 7 (int (length l))"
    if "request_line me u t maj mn l" and "length l < 1000" for me u t maj mn l
  proof -
    have b: "buffer_inv (buf_of l)" "drop 0 (buffer_data (buf_of l)) = l @ []" using that by (simp_all add: buf_of_ok)
    obtain st ar' where p: "parse_request_line 7 (buf_of l) (parse_archive_init 7) = Some (st, ar')"
      and ok: "st = OK \<longleftrightarrow> (\<exists>me u t maj mn line rest. drop 0 (buffer_data (buf_of l)) = line @ rest \<and> request_line me u t maj mn line)"
      and rec: "\<forall>me u t maj mn line rest. drop 0 (buffer_data (buf_of l)) = line @ rest \<and> request_line me u t maj mn line \<longrightarrow>
        ar_next_parse_pos ar' = PBlk 7 (int (0 + length line)) \<and> ar_state ar' = S_HD_BEGIN \<and>
        rl_records [7 \<mapsto> b_buf (buf_of l)] me u t maj mn ar'"
      using parse_request_line_correct [OF b(1) le0 init_fresh, of 7] by (elim exE conjE) (rule that)
    have "st = OK" unfolding ok using b(2) that(1) by blast
    moreover note rec [rule_format, OF conjI, OF b(2) that(1)]
    ultimately show ?thesis using p by simp
  qed
  show ?thesis using * [OF request_line_example] by simp
qed

text \<open>
  C36. A URL that ends with a tab instead of a space, and has no query, is accepted, but no path is
  recorded: the path string handed to the request handler is a null pointer.
\<close>

theorem tab_after_url_leaves_no_path:
  assumes "buffer_inv b" and "k \<le> length (buffer_data b)" and "rl_fresh a k ar"
    and "drop k (buffer_data b) = line @ rest" and "request_line me u TAB maj mn line" and "CHR ''?'' \<notin> set u"
  shows "\<exists>ar'. parse_request_line a b ar = Some (OK, ar') \<and> url_abs_path (ar_url ar') = null_str"
proof -
  have g: "ref_request_line (drop k (buffer_data b)) = Ref_good (me, u, TAB, maj, mn, rest)"
    by (rule request_line_rest [OF assms(5,4)])
  show ?thesis using parse_request_line_ref [OF assms(1-3)] assms(6) unfolding g
    by (auto simp: rl_result_def set_version_def url_parts_def zero_url_def)
qed

lemma tab_after_url_leaves_no_path_witness:
  "\<exists>ar'. parse_request_line 7 (buf_of (''GET /'' @ [TAB] @ ''HTTP/1.1'' @ [CR, LF])) (parse_archive_init 7) = Some (OK, ar') \<and>
     url_abs_path (ar_url ar') = null_str"
proof -
  let ?l = "''GET /'' @ [TAB] @ ''HTTP/1.1'' @ [CR, LF]"
  have "request_line HTTP_GET ''/'' TAB ''1'' ''1'' ?l"
    unfolding request_line_def
    by (intro exI [of _ "''GET''"] exI [of _ "[]"] exI [of _ "''HTTP/''"])
      (simp add: method_of_def http_tag_def url_char_def blank_def short_num_def is_digit_char_def ord_char_def)
  then show ?thesis
    using tab_after_url_leaves_no_path [OF _ le0 init_fresh, of "buf_of ?l" ?l "[]" HTTP_GET "''/''" "''1''" "''1''" 7] by (simp add: buf_of_ok)
qed

end
