(* ===== verification/Header_Line.thy ===== *)
theory Header_Line
  imports Request_Line
begin

text \<open>
  Correctness of \<open>parse_header_line\<close> and of the body count, by the same route as for request lines:
  a reference parser on maximal runs of characters, its grammar, and the contract of parsing in
  instalments.
\<close>

section \<open>Reference parser and grammar\<close>

definition val_char :: "char \<Rightarrow> bool" where "val_char c \<longleftrightarrow> c \<noteq> CR \<and> c \<noteq> LF"

definition ref_value :: "string \<Rightarrow> (string \<times> string) ref" where
  "ref_value cs =
     (let w = dropWhile blank cs; v = takeWhile val_char w in
      if w \<noteq> [] \<and> v = [] then Ref_bad
      else case dropWhile val_char w of
        [] \<Rightarrow> Ref_more
      | c # r \<Rightarrow> if c = LF then Ref_more else ref_bind (ref_end r) (\<lambda>r. Ref_good (v, r)))"

definition ref_name :: "string \<Rightarrow> (string \<times> string) ref" where
  "ref_name cs =
     (let n = takeWhile is_name_char cs in
      if n = [] then Ref_bad
      else case dropWhile is_name_char cs of
        [] \<Rightarrow> Ref_more
      | c # r \<Rightarrow> if c = CHR '':'' then Ref_good (n, r) else Ref_bad)"

text \<open>No header for the empty line, else name and value.\<close>

definition ref_header_line :: "string \<Rightarrow> ((string \<times> string) option \<times> string) ref" where
  "ref_header_line cs =
     (case dropWhile blank cs of
        [] \<Rightarrow> Ref_more
      | c # v \<Rightarrow>
          if c = CR then ref_bind (ref_end v) (\<lambda>r. Ref_good (None, r))
          else ref_bind (ref_name (c # v)) (\<lambda>(n, r).
               ref_bind (ref_value r) (\<lambda>(v, r). Ref_good (Some (n, v), r))))"

definition header_line :: "string \<Rightarrow> string \<Rightarrow> string \<Rightarrow> bool" where
  "header_line n v line \<longleftrightarrow> (\<exists>bl bl'. line = bl @ n @ '':'' @ bl' @ v @ [CR, LF] \<and>
     (\<forall>c \<in> set bl. blank c) \<and> n \<noteq> [] \<and> (\<forall>c \<in> set n. is_name_char c) \<and>
     (\<forall>c \<in> set bl'. blank c) \<and> v \<noteq> [] \<and> \<not> blank (hd v) \<and> (\<forall>c \<in> set v. val_char c))"

definition empty_line :: "string \<Rightarrow> bool" where
  "empty_line line \<longleftrightarrow> (\<exists>bl. line = bl @ [CR, LF] \<and> (\<forall>c \<in> set bl. blank c))"

lemma blank_not_name [simp]: "blank c \<Longrightarrow> \<not> is_name_char c" "blank c \<Longrightarrow> val_char c" "\<not> blank CR" "\<not> is_name_char CR"
  by (auto simp: blank_def is_name_char_def is_upper_char_def is_lower_char_def is_digit_char_def
      ord_char_def val_char_def)

lemma ref_value_good: "ref_value cs = Ref_good (v, r) \<longleftrightarrow>
    (\<exists>bl. cs = bl @ v @ [CR, LF] @ r \<and> (\<forall>c \<in> set bl. blank c) \<and> v \<noteq> [] \<and> \<not> blank (hd v) \<and> (\<forall>c \<in> set v. val_char c))"
proof
  let ?w = "dropWhile blank cs"
  assume "ref_value cs = Ref_good (v, r)"
  then obtain c r' where d: "dropWhile val_char ?w = c # r'" and w: "v = takeWhile val_char ?w" "v \<noteq> []" "c \<noteq> LF" "r' = LF # r"
    by (cases ?w; cases "dropWhile val_char ?w")
      (auto simp: ref_value_def Let_def ref_bind_good ref_end_good split: if_splits simp del: dropWhile_eq_Nil_conv)
  have w: "?w = v @ c # r'" "v = takeWhile val_char ?w" "v \<noteq> []" "\<not> val_char c" "c \<noteq> LF" "r' = LF # r"
    using dropWhile_Cons_split [OF d] w by simp_all
  have c: "c = CR" using w(4,5) by (auto simp: val_char_def)
  have "cs = takeWhile blank cs @ v @ [CR, LF] @ r"
    using takeWhile_dropWhile_id [of blank cs] w(1,6) c by (metis append_Cons append_Nil)
  moreover have "\<not> blank (hd v)" using hd_dropWhile [of blank cs] w(1,3) by (cases v) auto
  moreover have "\<forall>c \<in> set v. val_char c" using w(2) set_takeWhileD by metis
  ultimately show "\<exists>bl. cs = bl @ v @ [CR, LF] @ r \<and> (\<forall>c \<in> set bl. blank c) \<and> v \<noteq> [] \<and> \<not> blank (hd v) \<and>
      (\<forall>c \<in> set v. val_char c)"
    using w(3) by (metis set_takeWhileD)
next
  assume "\<exists>bl. cs = bl @ v @ [CR, LF] @ r \<and> (\<forall>c \<in> set bl. blank c) \<and> v \<noteq> [] \<and> \<not> blank (hd v) \<and> (\<forall>c \<in> set v. val_char c)"
  then obtain bl where b: "cs = bl @ v @ [CR, LF] @ r" "\<forall>c \<in> set bl. blank c" "v \<noteq> []" "\<not> blank (hd v)"
    "\<forall>c \<in> set v. val_char c" by blast
  obtain c v' where v: "v = c # v'" "\<not> blank c" using b(3,4) by (cases v) auto
  have "dropWhile blank cs = v @ CR # LF # r"
    using takeWhile_split [OF b(2) v(2), of "v' @ CR # LF # r"] b(1) v(1) by simp
  moreover have "\<not> val_char CR" by (simp add: val_char_def)
  ultimately show "ref_value cs = Ref_good (v, r)"
    using takeWhile_split [OF b(5), of CR "LF # r"] b(3)
    by (simp add: ref_value_def ref_bind_good ref_end_good)
qed

lemma ref_name_good: "ref_name cs = Ref_good (n, r) \<longleftrightarrow>
    cs = n @ '':'' @ r \<and> n \<noteq> [] \<and> (\<forall>c \<in> set n. is_name_char c)"
proof
  assume "ref_name cs = Ref_good (n, r)"
  then show "cs = n @ '':'' @ r \<and> n \<noteq> [] \<and> (\<forall>c \<in> set n. is_name_char c)"
    by (auto simp: ref_name_def Let_def split: list.splits if_splits dest!: dropWhile_Cons_split dest: set_takeWhileD)
next
  assume n: "cs = n @ '':'' @ r \<and> n \<noteq> [] \<and> (\<forall>c \<in> set n. is_name_char c)"
  have "\<not> is_name_char (CHR '':'')"
    by (simp add: is_name_char_def is_upper_char_def is_lower_char_def is_digit_char_def ord_char_def)
  with n takeWhile_split [of n is_name_char "CHR '':''" r] show "ref_name cs = Ref_good (n, r)"
    by (simp add: ref_name_def)
qed

lemma ref_header_line_empty: "ref_header_line cs = Ref_good (None, r) \<longleftrightarrow> (\<exists>line. cs = line @ r \<and> empty_line line)"
proof
  assume "ref_header_line cs = Ref_good (None, r)"
  then have "dropWhile blank cs = CR # LF # r"
    by (auto simp: ref_header_line_def ref_bind_good ref_end_good split: list.splits if_splits)
  then have "cs = (takeWhile blank cs @ [CR, LF]) @ r" using dropWhile_Cons_split by fastforce
  moreover have "empty_line (takeWhile blank cs @ [CR, LF])"
    unfolding empty_line_def using set_takeWhileD by fastforce
  ultimately show "\<exists>line. cs = line @ r \<and> empty_line line" by blast
next
  assume "\<exists>line. cs = line @ r \<and> empty_line line"
  then obtain bl where b: "cs = bl @ CR # LF # r" "\<forall>c \<in> set bl. blank c" by (auto simp: empty_line_def)
  have "dropWhile blank cs = CR # LF # r" using takeWhile_split [OF b(2), of CR "LF # r"] b(1) by simp
  then show "ref_header_line cs = Ref_good (None, r)" by (simp add: ref_header_line_def ref_bind_good ref_end_good)
qed

lemma ref_header_line_good: "ref_header_line cs = Ref_good (Some (n, v), r) \<longleftrightarrow>
    (\<exists>line. cs = line @ r \<and> header_line n v line)"
proof
  assume h: "ref_header_line cs = Ref_good (Some (n, v), r)"
  then obtain r1 where "ref_name (dropWhile blank cs) = Ref_good (n, r1)" "ref_value r1 = Ref_good (v, r)"
    by (auto simp: ref_header_line_def ref_bind_good split: list.splits if_splits)
  then obtain bl' where d: "dropWhile blank cs = n @ '':'' @ bl' @ v @ [CR, LF] @ r" "\<forall>c \<in> set bl'. blank c"
    "n \<noteq> []" "\<forall>c \<in> set n. is_name_char c" "v \<noteq> []" "\<not> blank (hd v)" "\<forall>c \<in> set v. val_char c"
    unfolding ref_name_good ref_value_good by auto
  let ?line = "takeWhile blank cs @ n @ '':'' @ bl' @ v @ [CR, LF]"
  have "cs = ?line @ r" using takeWhile_dropWhile_id [of blank cs] d(1) by simp
  moreover have "header_line n v ?line"
    unfolding header_line_def using d set_takeWhileD [of _ blank cs] by blast
  ultimately show "\<exists>line. cs = line @ r \<and> header_line n v line" by blast
next
  assume "\<exists>line. cs = line @ r \<and> header_line n v line"
  then obtain bl bl' where b: "cs = bl @ n @ '':'' @ bl' @ v @ [CR, LF] @ r" "\<forall>c \<in> set bl. blank c" "n \<noteq> []"
    "\<forall>c \<in> set n. is_name_char c" "\<forall>c \<in> set bl'. blank c" "v \<noteq> []" "\<not> blank (hd v)" "\<forall>c \<in> set v. val_char c"
    unfolding header_line_def by auto
  obtain c n' where n: "n = c # n'" "\<not> blank c" "c \<noteq> CR"
    using b(3,4) blank_not_name(1,4) by (cases n) (simp, metis list.set_intros(1))
  have "dropWhile blank cs = n @ '':'' @ bl' @ v @ [CR, LF] @ r"
    using takeWhile_split [OF b(2) n(2), of "n' @ '':'' @ bl' @ v @ [CR, LF] @ r"] b(1) n(1) by simp
  moreover have "ref_name (n @ '':'' @ bl' @ v @ [CR, LF] @ r) = Ref_good (n, bl' @ v @ [CR, LF] @ r)"
    unfolding ref_name_good using b by simp
  moreover have "ref_value (bl' @ v @ [CR, LF] @ r) = Ref_good (v, r)"
    unfolding ref_value_good using b by blast
  ultimately show "ref_header_line cs = Ref_good (Some (n, v), r)"
    using n by (simp add: ref_header_line_def)
qed

section \<open>The header machine follows the reference parser\<close>

lemma run_hd_end:
  assumes "ar_state ar = S_HD_CR_AFTER_VAL"
  shows "run_as (ref_end cs) (\<lambda>r res. res = Some (Done_at (PBlk a (e - int (length r) - 1)) (ar\<lparr>ar_state := S_HD_LF_AFTER_VAL\<rparr>)))
    (run hd_body m a e cs ar)"
  using assms by (cases cs) (auto simp: ref_end_def hd_body_def)

lemma run_hd_stuck: "ar_state ar = S_HD_LF_AFTER_VAL \<Longrightarrow> run hd_body m a e cs ar = Some (At_end ar)"
  by (induction cs) (auto simp: hd_body_def)

lemma run_hd_name:
  assumes st: "ar_state ar = S_HD_BEGIN" and c: "cs = c # cs'" "\<not> blank c" "c \<noteq> CR"
  shows "run_as (ref_name cs) (\<lambda>(n, r) res. res = run hd_body m a e r
      (ar\<lparr>ar_header_line_begin := PBlk a (e - int (length cs)), ar_isCRLF_LINE := False, ar_state := S_HD_COLON,
          ar_header_colon_pos := PBlk a (e - int (length cs) + int (length n))\<rparr>))
    (run hd_body m a e cs ar)"
proof (cases "is_name_char c")
  case False
  then show ?thesis using c st by (auto simp: ref_name_def hd_body_def blank_def)
next
  case True
  let ?n = "takeWhile is_name_char cs" and ?r = "dropWhile is_name_char cs"
  let ?ar = "ar\<lparr>ar_state := S_HD_NAME, ar_header_line_begin := PBlk a (e - int (length cs)), ar_isCRLF_LINE := False\<rparr>"
  have "run hd_body m a e cs ar = run hd_body m a e cs' ?ar"
    using c True st by (simp add: hd_body_def algebra_simps)
  also have "\<dots> = run hd_body m a e (dropWhile is_name_char cs') ?ar"
    by (rule run_skip [symmetric]) (simp add: hd_body_def)
  also have "dropWhile is_name_char cs' = ?r" using c True by simp
  finally have run: "run hd_body m a e cs ar = run hd_body m a e ?r ?ar" .
  have nne: "?n \<noteq> []" using c True by simp
  show ?thesis
  proof (cases ?r)
    case Nil
    show ?thesis using nne run by (simp add: ref_name_def Nil)
  next
    case (Cons d r')
    have d: "cs = ?n @ d # r'" "\<not> is_name_char d" using dropWhile_Cons_split [OF Cons] by auto
    have pos: "e - int (length r') - 1 = e - int (length cs) + int (length ?n)"
      using arg_cong [OF d(1), of length] by simp
    show ?thesis using run d(2) nne by (auto simp: ref_name_def Cons hd_body_def pos)
  qed
qed

text \<open>From the colon to the value, and from inside the value to its end.\<close>

lemma run_to_value:
  assumes st: "ar_state ar = S_HD_COLON"
  shows "\<exists>s. run hd_body m a e cs ar = run hd_body m a e (dropWhile blank cs) (ar\<lparr>ar_state := s\<rparr>) \<and>
    (s = S_HD_COLON \<or> s = S_HD_SP_BEFORE_VAL)"
proof (cases "cs \<noteq> [] \<and> blank (hd cs)")
  case True
  then obtain c cs' where cs: "cs = c # cs'" "blank c" by (cases cs) auto
  have "run hd_body m a e cs ar = run hd_body m a e cs' (ar\<lparr>ar_state := S_HD_SP_BEFORE_VAL\<rparr>)"
    using cs st by (auto simp: hd_body_def blank_def)
  also have "\<dots> = run hd_body m a e (dropWhile blank cs') (ar\<lparr>ar_state := S_HD_SP_BEFORE_VAL\<rparr>)"
    by (rule run_skip [symmetric]) (auto simp: hd_body_def blank_def)
  finally show ?thesis using cs by auto
next
  case False
  have "ar\<lparr>ar_state := S_HD_COLON\<rparr> = ar" using st by (cases ar) simp
  then show ?thesis using False by (intro exI [of _ S_HD_COLON]) (cases cs, auto)
qed

lemma run_in_value:
  assumes r: "r = [] \<or> \<not> val_char (hd r)" and j: "j = e - int (length (v @ r))"
  shows "run_as (case r of [] \<Rightarrow> Ref_more | d # r' \<Rightarrow> if d = LF then Ref_more else ref_bind (ref_end r') (\<lambda>r. Ref_good (v, r)))
      (\<lambda>(v, r) res. \<exists>j. j = e - int (length r) - 2 - int (length v) \<and>
      res = Some (Done_at (PBlk a (e - int (length r) - 1)) (ar\<lparr>ar_header_val_begin := PBlk a j,
        ar_header_val_end := PBlk a (j + int (length v)), ar_state := S_HD_LF_AFTER_VAL\<rparr>)))
    (run hd_body m a e r (ar\<lparr>ar_state := S_HD_VAL, ar_header_val_begin := PBlk a j\<rparr>))" (is "run_as _ _ (run _ _ _ _ _ ?ar)")
proof (cases r)
  case (Cons d r')
  have pos: "e - int (length r') - 1 = j + int (length v)" using j Cons by simp
  consider "d = LF" | "d = CR" using r Cons by (auto simp: val_char_def)
  then show ?thesis
  proof cases
    case 1
    then show ?thesis by (simp add: Cons hd_body_def run_hd_stuck)
  next
    case 2
    let ?ar2 = "ar\<lparr>ar_header_val_begin := PBlk a j, ar_header_val_end := PBlk a (j + int (length v)), ar_state := S_HD_CR_AFTER_VAL\<rparr>"
    have step: "run hd_body m a e r ?ar = run hd_body m a e r' ?ar2" by (simp add: Cons 2 hd_body_def pos)
    have rc: "(case r of [] \<Rightarrow> Ref_more | d # r' \<Rightarrow> if d = LF then Ref_more else ref_bind (ref_end r') (\<lambda>r. Ref_good (v, r))) =
        ref_bind (ref_end r') (\<lambda>r. Ref_good (v, r))" by (simp add: Cons 2)
    have "e - int (length r'') - 2 - int (length v) = j" if "r' = LF # r''" for r'' using pos that by simp
    then show ?thesis unfolding rc run_as_bind step
      by (intro run_as_mono [OF run_hd_end [of ?ar2 r' a e m]]) (auto simp: ref_end_good)
  qed
qed simp

lemma run_hd_value:
  assumes st: "ar_state ar = S_HD_COLON"
  shows "run_as (ref_value cs) (\<lambda>(v, r) res. \<exists>j. j = e - int (length r) - 2 - int (length v) \<and>
      res = Some (Done_at (PBlk a (e - int (length r) - 1)) (ar\<lparr>ar_header_val_begin := PBlk a j,
        ar_header_val_end := PBlk a (j + int (length v)), ar_state := S_HD_LF_AFTER_VAL\<rparr>)))
    (run hd_body m a e cs ar)"
proof -
  let ?w = "dropWhile blank cs"
  obtain s where skip: "run hd_body m a e cs ar = run hd_body m a e ?w (ar\<lparr>ar_state := s\<rparr>)"
    "s = S_HD_COLON \<or> s = S_HD_SP_BEFORE_VAL" using run_to_value [OF st] by blast
  show ?thesis
  proof (cases ?w)
    case Nil
    show ?thesis using skip by (simp add: ref_value_def Nil)
  next
    case (Cons c w)
    have nb: "\<not> blank c" using dropWhile_Cons_split [OF Cons] by simp
    show ?thesis
    proof (cases "val_char c")
      case False
      then show ?thesis using skip(2) nb unfolding skip(1)
        by (auto simp: ref_value_def Cons hd_body_def hd_val_start_def val_char_def blank_def)
    next
      case True
      let ?v = "takeWhile val_char ?w" and ?r = "dropWhile val_char ?w"
      let ?ar = "ar\<lparr>ar_state := S_HD_VAL, ar_header_val_begin := PBlk a (e - int (length ?w))\<rparr>"
      have "run hd_body m a e ?w (ar\<lparr>ar_state := s\<rparr>) = run hd_body m a e w ?ar"
        using skip(2) nb True by (auto simp: Cons hd_body_def hd_val_start_def val_char_def blank_def algebra_simps)
      also have "\<dots> = run hd_body m a e (dropWhile val_char w) ?ar"
        by (rule run_skip [symmetric]) (simp add: hd_body_def val_char_def)
      also have "dropWhile val_char w = ?r" using True by (simp add: Cons)
      finally have run: "run hd_body m a e cs ar = run hd_body m a e ?r ?ar" using skip(1) by simp
      have v: "?v \<noteq> []" using True by (simp add: Cons)
      have rv: "ref_value cs = (case ?r of [] \<Rightarrow> Ref_more | d # r' \<Rightarrow> if d = LF then Ref_more else ref_bind (ref_end r') (\<lambda>r. Ref_good (?v, r)))"
        using v unfolding ref_value_def Let_def by simp
      have "?r = [] \<or> \<not> val_char (hd ?r)" using hd_dropWhile [of val_char ?w] by blast
      moreover have "e - int (length ?w) = e - int (length (?v @ ?r))" by simp
      ultimately show ?thesis unfolding run rv by (rule run_in_value)
    qed
  qed
qed

lemma run_header_line:
  assumes st: "ar_state ar = S_HD_BEGIN" and e: "e = int (length (x @ cs))"
  shows "run_as (ref_header_line cs) (\<lambda>(h, r) res. \<exists>ar'. res = Some (Done_at (PBlk a (e - int (length r) - 1)) ar') \<and>
      (case h of
         None \<Rightarrow> ar' = ar\<lparr>ar_isCRLF_LINE := True, ar_state := S_HD_LF_AFTER_VAL\<rparr>
       | Some (n, v) \<Rightarrow> \<exists>p1 q1 bl. x @ cs = q1 @ v @ [CR, LF] @ r \<and> q1 = p1 @ n @ '':'' @ bl \<and> length x \<le> length p1 \<and>
           ar' = ar\<lparr>ar_header_line_begin := PBlk a (int (length p1)), ar_isCRLF_LINE := False,
             ar_header_colon_pos := PBlk a (int (length p1) + int (length n)),
             ar_header_val_begin := PBlk a (int (length q1)),
             ar_header_val_end := PBlk a (int (length q1) + int (length v)), ar_state := S_HD_LF_AFTER_VAL\<rparr>))
    (run hd_body m a e cs ar)" (is "run_as _ ?Q _")
proof -
  let ?w = "dropWhile blank cs"
  have skip: "run hd_body m a e cs ar = run hd_body m a e ?w ar"
  proof (rule run_skip [symmetric])
    fix p c assume "blank c"
    then show "hd_body m p c ar = Some (Next ar)" using blank_not_name(1) [of c] st by (auto simp: hd_body_def blank_def)
  qed
  show ?thesis
  proof (cases ?w)
    case Nil
    show ?thesis using skip by (simp add: ref_header_line_def Nil)
  next
    case (Cons c w)
    have c: "\<not> blank c" "cs = takeWhile blank cs @ c # w" using dropWhile_Cons_split [OF Cons] by auto
    show ?thesis
    proof (cases "c = CR")
      case True
      let ?ar = "ar\<lparr>ar_state := S_HD_CR_AFTER_VAL, ar_isCRLF_LINE := True\<rparr>"
      have run: "run hd_body m a e cs ar = run hd_body m a e w ?ar"
        unfolding skip Cons using True st by (simp add: hd_body_def)
      have rv: "ref_header_line cs = ref_bind (ref_end w) (\<lambda>r. Ref_good (None, r))"
        by (simp add: ref_header_line_def Cons True)
      show ?thesis unfolding rv run_as_bind run
        by (rule run_as_mono [OF run_hd_end [of ?ar w a e m]]) auto
    next
      case False
      let ?i = "e - int (length (c # w))"
      let ?ar1 = "\<lambda>n. ar\<lparr>ar_header_line_begin := PBlk a ?i, ar_isCRLF_LINE := False, ar_state := S_HD_COLON,
          ar_header_colon_pos := PBlk a (?i + int (length n))\<rparr>"
      have rv: "ref_header_line cs = ref_bind (ref_name (c # w)) (\<lambda>(n, r).
               ref_bind (ref_value r) (\<lambda>(v, r). Ref_good (Some (n, v), r)))"
        by (simp add: ref_header_line_def Cons False)
      have val: "run_as (ref_bind (ref_value r) (\<lambda>(v, r). Ref_good (Some (n, v), r))) ?Q (run hd_body m a e r (?ar1 n))"
        if g: "ref_name (c # w) = Ref_good (n, r)" for n r
      proof -
        have n: "c # w = n @ '':'' @ r" using g by (simp add: ref_name_good)
        define p1 where "p1 = x @ takeWhile blank cs"
        have d: "x @ cs = p1 @ n @ '':'' @ r" using c(2) n unfolding p1_def by (metis append_assoc)
        have i: "?i = int (length p1)" using arg_cong [OF d, of length] e arg_cong [OF n, of length] by simp
        show ?thesis
          unfolding run_as_bind [of "ref_value r"]
        proof (rule run_as_mono [OF run_hd_value])
          fix y res assume y: "ref_value r = Ref_good y"
            and res: "(\<lambda>(v, r) res. \<exists>j. j = e - int (length r) - 2 - int (length v) \<and>
              res = Some (Done_at (PBlk a (e - int (length r) - 1)) ((?ar1 n)\<lparr>ar_header_val_begin := PBlk a j,
                ar_header_val_end := PBlk a (j + int (length v)), ar_state := S_HD_LF_AFTER_VAL\<rparr>))) y res"
          obtain v r' where vr: "y = (v, r')" by (cases y)
          obtain bl where r: "r = bl @ v @ [CR, LF] @ r'" using y vr by (auto simp: ref_value_good)
          define q1 where "q1 = p1 @ n @ '':'' @ bl"
          have dv: "x @ cs = q1 @ v @ [CR, LF] @ r'" using d r by (simp add: q1_def)
          have j: "e - int (length r') - 2 - int (length v) = int (length q1)"
            using arg_cong [OF dv, of length] e by simp
          have res': "res = Some (Done_at (PBlk a (e - int (length r') - 1))
              (ar\<lparr>ar_header_line_begin := PBlk a (int (length p1)), ar_isCRLF_LINE := False,
                 ar_header_colon_pos := PBlk a (int (length p1) + int (length n)),
                 ar_header_val_begin := PBlk a (int (length q1)),
                 ar_header_val_end := PBlk a (int (length q1) + int (length v)), ar_state := S_HD_LF_AFTER_VAL\<rparr>))"
            using res [unfolded vr prod.case j i] by simp
          show "(\<lambda>y. run_as (case y of (v, r) \<Rightarrow> Ref_good (Some (n, v), r)) ?Q) y res"
            unfolding vr prod.case run_as.simps option.case res'
            by (intro exI conjI, rule refl, rule dv, rule q1_def, simp add: p1_def, rule refl)
        qed simp
      qed
      show ?thesis
        unfolding rv run_as_bind [of "ref_name (c # w)"] skip Cons
        by (rule run_as_mono [OF run_hd_name [OF st refl c(1) False]]) (use val in auto)
    qed
  qed
qed

definition spans_ok :: "parse_archive \<Rightarrow> bool" where
  "spans_ok ar \<longleftrightarrow> ptr_diff (ar_header_colon_pos ar) (ar_header_line_begin ar) \<noteq> None \<and>
     ptr_diff (ar_header_val_end ar) (ar_header_val_begin ar) \<noteq> None"

definition hd_fresh :: "nat \<Rightarrow> nat \<Rightarrow> parse_archive \<Rightarrow> bool" where
  "hd_fresh a k ar \<longleftrightarrow> ar_next_parse_pos ar = PBlk a (int k) \<and> ar_state ar = S_HD_BEGIN \<and> spans_ok ar"

lemma hd_done_ok: "spans_ok ar \<Longrightarrow> \<exists>ar'. hd_done p ar = Some (if ar_isCRLF_LINE ar then CRLF_LINE else OK, ar') \<and>
    ar_next_parse_pos ar' = ptr_add p 1 \<and> ar_state ar' = S_HD_BEGIN \<and>
    ar_num_headers ar' = to_int32 (ar_num_headers ar + 1) \<and> spans_ok ar' \<and>
    set_span (ar_header_line_begin ar) (ar_header_colon_pos ar) = Some (ar_header0 ar') \<and>
    set_span (ar_header_val_begin ar) (ar_header_val_end ar) = Some (ar_header1 ar')"
  by (auto simp: hd_done_def spans_ok_def set_span_def Let_def)

section \<open>The function as a whole\<close>

text \<open>What the archive records of a header line.\<close>

definition hd_records :: "memory \<Rightarrow> string \<Rightarrow> string \<Rightarrow> parse_archive \<Rightarrow> bool" where
  "hd_records m n v ar \<longleftrightarrow> ss_view m (ar_header0 ar) = Some n \<and> ss_view m (ar_header1 ar) = Some v"

text \<open>Where name and value are in the data \<open>d\<close>, with \<open>r\<close> left after the line.\<close>

definition hd_place :: "nat \<Rightarrow> nat \<Rightarrow> string \<Rightarrow> string \<Rightarrow> string \<Rightarrow> string \<Rightarrow> parse_archive \<Rightarrow> bool" where
  "hd_place a k d n v r ar \<longleftrightarrow> (\<exists>p1 bl. d = p1 @ n @ '':'' @ bl @ v @ [CR, LF] @ r \<and> k \<le> length p1 \<and>
     ar_header0 ar = span_at a (int (length p1)) (int (length n)) \<and>
     ar_header1 ar = span_at a (int (length (p1 @ n @ '':'' @ bl))) (int (length v)))"

lemma place_records:
  assumes "hd_place a k d n v r ar" and "holds m a d"
  shows "hd_records m n v ar"
proof -
  obtain p1 bl where d: "d = p1 @ n @ '':'' @ bl @ v @ [CR, LF] @ r"
    "ar_header0 ar = span_at a (int (length p1)) (int (length n))"
    "ar_header1 ar = span_at a (int (length (p1 @ n @ '':'' @ bl))) (int (length v))"
    using assms(1) by (auto simp: hd_place_def)
  show ?thesis
    using holds_view [OF assms(2), of "length p1" "length n"]
      holds_view [OF assms(2), of "length (p1 @ n @ '':'' @ bl)" "length v"] d
    by (simp add: hd_records_def span_at_def)
qed

lemma ref_header_suffix: "ref_header_line cs = Ref_good (h, r) \<Longrightarrow> \<exists>line. cs = line @ r"
proof (cases h)
  case (Some nv)
  moreover assume "ref_header_line cs = Ref_good (h, r)"
  ultimately show ?thesis using ref_header_line_good [of cs "fst nv" "snd nv" r] by auto
qed (use ref_header_line_empty in blast)

lemma parse_header_line_ref:
  assumes b: "buffer_inv b" and k: "k \<le> length (buffer_data b)" and ar: "hd_fresh a k ar"
  shows "case ref_header_line (drop k (buffer_data b)) of
      Ref_more \<Rightarrow> \<exists>ar'. parse_header_line a b ar = Some (AGAIN, ar')
    | Ref_bad \<Rightarrow> \<exists>ar'. parse_header_line a b ar = Some (INVALID_REQUEST, ar')
    | Ref_good (h, r) \<Rightarrow> \<exists>ar'. parse_header_line a b ar = Some (if h = None then CRLF_LINE else OK, ar') \<and>
        hd_fresh a (length (buffer_data b) - length r) ar' \<and>
        ar_num_headers ar' = to_int32 (ar_num_headers ar + 1) \<and>
        (\<forall>n v. h = Some (n, v) \<longrightarrow> hd_place a k (buffer_data b) n v r ar')"
proof -
  let ?d = "buffer_data b" and ?m = "[a \<mapsto> b_buf b]"
  let ?x = "take k ?d" and ?cs = "drop k ?d"
  have len: "int (length ?d) = b_len b" using length_buffer_data [OF b] .
  have st: "ar_state ar = S_HD_BEGIN" and sp: "spans_ok ar" using ar by (simp_all add: hd_fresh_def)
  have small: "length ?d < 2 ^ 31" using len buffer_small [OF b] by simp
  have p: "parse_header_line a b ar = do {
      r \<leftarrow> run hd_body ?m a (b_len b) ?cs ar;
      case r of At_end ar \<Rightarrow> Some (AGAIN, ar\<lparr>ar_next_parse_pos := buffer_end a b\<rparr>)
        | Returned st ar \<Rightarrow> Some (st, ar) | Done_at p ar \<Rightarrow> hd_done p ar }"
    using scan_run [OF b, of ar a k hd_body] ar len k by (simp add: parse_header_line_def hd_fresh_def)
  have e: "b_len b = int (length (?x @ ?cs))" using len by simp
  note run = run_header_line [OF st e, of a ?m, unfolded append_take_drop_id]
  show ?thesis
  proof (cases "ref_header_line ?cs")
    case (Ref_good y)
    obtain h r where y: "y = (h, r)" by (cases y)
    obtain line where "?cs = line @ r" using ref_header_suffix Ref_good y by blast
    from arg_cong [OF this, of length] have "length r \<le> length ?cs" by simp
    then have r: "length r \<le> length ?d" by simp
    have pos: "ptr_add (PBlk a (b_len b - int (length r) - 1)) 1 = PBlk a (int (length ?d - length r))"
      using len r by (simp add: of_nat_diff)
    obtain ar' where dn: "run hd_body ?m a (b_len b) ?cs ar = Some (Done_at (PBlk a (b_len b - int (length r) - 1)) ar')"
      and h: "case h of None \<Rightarrow> ar' = ar\<lparr>ar_isCRLF_LINE := True, ar_state := S_HD_LF_AFTER_VAL\<rparr>
       | Some (n, v) \<Rightarrow> \<exists>p1 q1 bl. ?d = q1 @ v @ [CR, LF] @ r \<and> q1 = p1 @ n @ '':'' @ bl \<and> length ?x \<le> length p1 \<and>
           ar' = ar\<lparr>ar_header_line_begin := PBlk a (int (length p1)), ar_isCRLF_LINE := False,
             ar_header_colon_pos := PBlk a (int (length p1) + int (length n)),
             ar_header_val_begin := PBlk a (int (length q1)),
             ar_header_val_end := PBlk a (int (length q1) + int (length v)), ar_state := S_HD_LF_AFTER_VAL\<rparr>"
      using run unfolding Ref_good y by auto
    have sp': "spans_ok ar'" and crlf: "ar_isCRLF_LINE ar' \<longleftrightarrow> h = None" and num: "ar_num_headers ar' = ar_num_headers ar"
      using h sp by (auto simp: spans_ok_def split: option.splits)
    obtain ar'' where fin: "hd_done (PBlk a (b_len b - int (length r) - 1)) ar' = Some (if ar_isCRLF_LINE ar' then CRLF_LINE else OK, ar'')"
      "ar_next_parse_pos ar'' = PBlk a (int (length ?d - length r))" "ar_state ar'' = S_HD_BEGIN" "spans_ok ar''"
      "ar_num_headers ar'' = to_int32 (ar_num_headers ar' + 1)"
      "set_span (ar_header_line_begin ar') (ar_header_colon_pos ar') = Some (ar_header0 ar'')"
      "set_span (ar_header_val_begin ar') (ar_header_val_end ar') = Some (ar_header1 ar'')"
      using hd_done_ok [OF sp', of "PBlk a (b_len b - int (length r) - 1)"] pos by auto
    have "hd_place a k ?d n v r ar''" if hs: "h = Some (n, v)" for n v
    proof -
      obtain p1 q1 bl where d: "?d = q1 @ v @ [CR, LF] @ r" "q1 = p1 @ n @ '':'' @ bl" "k \<le> length p1"
        and a': "ar_header_line_begin ar' = PBlk a (int (length p1))"
          "ar_header_colon_pos ar' = PBlk a (int (length p1) + int (length n))"
          "ar_header_val_begin ar' = PBlk a (int (length q1))"
          "ar_header_val_end ar' = PBlk a (int (length q1) + int (length v))"
        using h hs k by auto
      have "length n < 2 ^ 31" "length v < 2 ^ 31" using small d by simp_all
      then have "ar_header0 ar'' = span_at a (int (length p1)) (int (length n))"
        "ar_header1 ar'' = span_at a (int (length q1)) (int (length v))"
        using fin(6,7) set_span_at [of "int (length p1) + int (length n)" "int (length p1)" a]
          set_span_at [of "int (length q1) + int (length v)" "int (length q1)" a] unfolding a' by auto
      then show ?thesis unfolding hd_place_def using d by (intro exI [of _ p1] exI [of _ bl]) simp
    qed
    then show ?thesis
      using fin p dn crlf num by (simp add: Ref_good y hd_fresh_def)
  qed (use run p in auto)
qed

section \<open>Properties\<close>

definition line_status :: "((string \<times> string) option \<times> string) ref \<Rightarrow> int" where
  "line_status r = (case r of Ref_good (h, _) \<Rightarrow> if h = None then CRLF_LINE else OK | Ref_more \<Rightarrow> AGAIN | Ref_bad \<Rightarrow> INVALID_REQUEST)"

lemma parse_header_line_outcome:
  assumes "buffer_inv b" and "k \<le> length (buffer_data b)" and "hd_fresh a k ar"
  shows "\<exists>ar'. parse_header_line a b ar = Some (line_status (ref_header_line (drop k (buffer_data b))), ar') \<and>
    (\<forall>h r. ref_header_line (drop k (buffer_data b)) = Ref_good (h, r) \<longrightarrow>
      hd_fresh a (length (buffer_data b) - length r) ar' \<and> (\<forall>n v. h = Some (n, v) \<longrightarrow> hd_records [a \<mapsto> b_buf b] n v ar'))"
proof (cases "ref_header_line (drop k (buffer_data b))")
  case (Ref_good y)
  obtain h r where y: "y = (h, r)" by (cases y)
  obtain ar' where "parse_header_line a b ar = Some (if h = None then CRLF_LINE else OK, ar')"
    "hd_fresh a (length (buffer_data b) - length r) ar'" "\<forall>n v. h = Some (n, v) \<longrightarrow> hd_records [a \<mapsto> b_buf b] n v ar'"
    using parse_header_line_ref [OF assms] place_records [OF _ holds_buffer [OF assms(1), of a]] unfolding Ref_good y by fastforce
  then show ?thesis using Ref_good y by (auto simp: line_status_def)
qed (use parse_header_line_ref [OF assms] in \<open>auto simp: line_status_def\<close>)

lemma line_status_good:
  "line_status r = OK \<longleftrightarrow> (\<exists>n v rest. r = Ref_good (Some (n, v), rest))"
  "line_status r = CRLF_LINE \<longleftrightarrow> (\<exists>rest. r = Ref_good (None, rest))"
  "line_status r \<in> {OK, AGAIN, INVALID_REQUEST, CRLF_LINE}"
  by (auto simp: line_status_def split: ref.splits)

lemma line_status_iff:
  "line_status (ref_header_line cs) = OK \<longleftrightarrow> (\<exists>n v line rest. cs = line @ rest \<and> header_line n v line)"
  "line_status (ref_header_line cs) = CRLF_LINE \<longleftrightarrow> (\<exists>line rest. cs = line @ rest \<and> empty_line line)"
  unfolding line_status_good(1,2) ref_header_line_good ref_header_line_empty by iprover+

text \<open>
  C10. At the start of a line, on whatever bytes the buffer holds, \<open>parse_header_line\<close> returns
  without undefined behaviour: \<open>OK\<close> exactly when the unparsed bytes start with a header line, whose
  name and value it then records, and \<open>CRLF_LINE\<close> exactly when they start with the empty line; in
  both cases the next line is parsed from right behind this one.
\<close>

theorem parse_header_line_correct:
  assumes "buffer_inv b" and "k \<le> length (buffer_data b)" and "hd_fresh a k ar"
  shows "\<exists>st ar'. parse_header_line a b ar = Some (st, ar') \<and> st \<in> {OK, AGAIN, INVALID_REQUEST, CRLF_LINE} \<and>
    (st = OK \<longleftrightarrow> (\<exists>n v line rest. drop k (buffer_data b) = line @ rest \<and> header_line n v line)) \<and>
    (st = CRLF_LINE \<longleftrightarrow> (\<exists>line rest. drop k (buffer_data b) = line @ rest \<and> empty_line line)) \<and>
    (\<forall>n v line rest. drop k (buffer_data b) = line @ rest \<and> header_line n v line \<longrightarrow>
       hd_fresh a (k + length line) ar' \<and> hd_records [a \<mapsto> b_buf b] n v ar') \<and>
    (\<forall>line rest. drop k (buffer_data b) = line @ rest \<and> empty_line line \<longrightarrow> hd_fresh a (k + length line) ar')"
proof -
  let ?cs = "drop k (buffer_data b)"
  obtain ar' where p: "parse_header_line a b ar = Some (line_status (ref_header_line ?cs), ar')"
    and at: "\<forall>h r. ref_header_line ?cs = Ref_good (h, r) \<longrightarrow>
      hd_fresh a (length (buffer_data b) - length r) ar' \<and> (\<forall>n v. h = Some (n, v) \<longrightarrow> hd_records [a \<mapsto> b_buf b] n v ar')"
    using parse_header_line_outcome [OF assms] by blast
  have pos: "length (buffer_data b) - length rest = k + length line" if "?cs = line @ rest" for line rest
    using arg_cong [OF that, of length] assms(2) by simp
  have rec: "hd_fresh a (k + length line) ar' \<and> hd_records [a \<mapsto> b_buf b] n v ar'"
    if l: "?cs = line @ rest" "header_line n v line" for n v line rest
  proof -
    have "ref_header_line ?cs = Ref_good (Some (n, v), rest)" using l ref_header_line_good by blast
    then show ?thesis using at pos [OF l(1)] by simp
  qed
  have emp: "hd_fresh a (k + length line) ar'" if l: "?cs = line @ rest" "empty_line line" for line rest
  proof -
    have "ref_header_line ?cs = Ref_good (None, rest)" using l ref_header_line_empty by blast
    then show ?thesis using at pos [OF l(1)] by simp
  qed
  show ?thesis
    by (intro exI [of _ "line_status (ref_header_line ?cs)"] exI [of _ ar'] conjI p line_status_good(3) line_status_iff)
      (use rec emp in blast)+
qed

lemma header_example: "header_line ''Host'' ''a:1'' (''Host: a:1'' @ [CR, LF])"
  unfolding header_line_def
  by (intro exI [of _ "[]"] exI [of _ "'' ''"])
    (simp add: blank_def val_char_def is_name_char_def is_upper_char_def is_lower_char_def is_digit_char_def ord_char_def)

lemma init_spans: "hd_fresh a 0 ((parse_archive_init a)\<lparr>ar_state := S_HD_BEGIN\<rparr>)"
  by (simp add: hd_fresh_def spans_ok_def parse_archive_init_def)

lemma parse_header_line_correct_witness:
  "\<exists>ar'. parse_header_line 7 (buf_of (''Host: a:1'' @ [CR, LF])) ((parse_archive_init 7)\<lparr>ar_state := S_HD_BEGIN\<rparr>) =
     Some (OK, ar') \<and> hd_records [7 \<mapsto> b_buf (buf_of (''Host: a:1'' @ [CR, LF]))] ''Host'' ''a:1'' ar'"
proof -
  have *: "\<exists>ar'. parse_header_line 7 (buf_of l) ((parse_archive_init 7)\<lparr>ar_state := S_HD_BEGIN\<rparr>) = Some (OK, ar') \<and>
      hd_records [7 \<mapsto> b_buf (buf_of l)] n v ar'"
    if "header_line n v l" and "length l < 1000" for n v l
  proof -
    have b: "buffer_inv (buf_of l)" "drop 0 (buffer_data (buf_of l)) = l @ []" using that by (simp_all add: buf_of_ok)
    obtain st ar' where p: "parse_header_line 7 (buf_of l) ((parse_archive_init 7)\<lparr>ar_state := S_HD_BEGIN\<rparr>) = Some (st, ar')"
      and ok: "st = OK \<longleftrightarrow> (\<exists>n v line rest. drop 0 (buffer_data (buf_of l)) = line @ rest \<and> header_line n v line)"
      and rec: "\<forall>n v line rest. drop 0 (buffer_data (buf_of l)) = line @ rest \<and> header_line n v line \<longrightarrow>
        hd_fresh 7 (0 + length line) ar' \<and> hd_records [7 \<mapsto> b_buf (buf_of l)] n v ar'"
      using parse_header_line_correct [OF b(1) le0 init_spans, of 7] by (elim exE conjE) (rule that)
    have "st = OK" unfolding ok using b(2) that(1) by blast
    then show ?thesis using p rec b(2) that(1) by blast
  qed
  show ?thesis by (rule * [OF header_example]) simp
qed

lemma bare_line_feed_again:
  assumes "buffer_inv b" and "k \<le> length (buffer_data b)" and "hd_fresh a k ar"
    and "header_line n v (h @ [CR, LF])" and "drop k (buffer_data b) = h @ [LF] @ rest"
  shows "\<exists>ar'. parse_header_line a b ar = Some (AGAIN, ar')"
proof -
  obtain bl bl' where l: "h = bl @ n @ '':'' @ bl' @ v" "\<forall>c \<in> set bl. blank c" "n \<noteq> []" "\<forall>c \<in> set n. is_name_char c"
    "\<forall>c \<in> set bl'. blank c" "v \<noteq> []" "\<not> blank (hd v)" "\<forall>c \<in> set v. val_char c"
    using assms(4) unfolding header_line_def by auto
  obtain c n' where n: "n = c # n'" "\<not> blank c" "c \<noteq> CR"
    using l(3,4) blank_not_name(1,4) by (cases n) (simp, metis list.set_intros(1))
  obtain d v' where v: "v = d # v'" "\<not> blank d" using l(6,7) by (cases v) auto
  have dw: "dropWhile blank (drop k (buffer_data b)) = n @ '':'' @ bl' @ v @ [LF] @ rest"
    using takeWhile_split [OF l(2) n(2), of "n' @ '':'' @ bl' @ v @ [LF] @ rest"] assms(5) l(1) n(1) by simp
  moreover have "ref_name (n @ '':'' @ bl' @ v @ [LF] @ rest) = Ref_good (n, bl' @ v @ [LF] @ rest)"
    unfolding ref_name_good using l by simp
  moreover have "ref_value (bl' @ v @ [LF] @ rest) = Ref_more"
  proof -
    have "dropWhile blank (bl' @ v @ [LF] @ rest) = v @ LF # rest"
      using takeWhile_split [OF l(5) v(2), of "v' @ LF # rest"] v(1) by simp
    moreover have "\<not> val_char LF" by (simp add: val_char_def)
    ultimately show ?thesis using takeWhile_split [OF l(8), of LF rest] l(6)
      unfolding ref_value_def Let_def by simp
  qed
  ultimately have "ref_header_line (drop k (buffer_data b)) = Ref_more"
    using n by (simp add: ref_header_line_def)
  then show ?thesis using parse_header_line_ref [OF assms(1-3)] by auto
qed

section \<open>Header lines in instalments\<close>

definition in_blk :: "nat \<Rightarrow> cptr \<Rightarrow> bool" where
  "in_blk a p \<longleftrightarrow> (\<exists>i. p = PBlk a i)"

definition hd_ready :: "nat \<Rightarrow> parse_archive \<Rightarrow> bool" where
  "hd_ready a ar \<longleftrightarrow>
     (case ar_state ar of
        S_HD_BEGIN \<Rightarrow> spans_ok ar
      | S_HD_NAME \<Rightarrow> in_blk a (ar_header_line_begin ar)
      | S_HD_COLON \<Rightarrow> in_blk a (ar_header_line_begin ar) \<and> in_blk a (ar_header_colon_pos ar)
      | S_HD_SP_BEFORE_VAL \<Rightarrow> in_blk a (ar_header_line_begin ar) \<and> in_blk a (ar_header_colon_pos ar)
      | S_HD_VAL \<Rightarrow> in_blk a (ar_header_line_begin ar) \<and> in_blk a (ar_header_colon_pos ar) \<and>
          in_blk a (ar_header_val_begin ar)
      | S_HD_CR_AFTER_VAL \<Rightarrow> spans_ok ar
      | _ \<Rightarrow> True)"

lemma hd_step:
  assumes "hd_ready a ar"
  shows "\<exists>r. hd_body m (PBlk a (int (length x))) c ar = Some r \<and> hd_body m' (PBlk a (int (length x))) c ar = Some r \<and>
    (\<forall>ar'. r = Next ar' \<longrightarrow> hd_ready a ar') \<and> (\<forall>st ar'. r = Return st ar' \<longrightarrow> st = INVALID_REQUEST) \<and>
    (\<forall>ar' p. r = Goto_done ar' \<longrightarrow> (\<exists>st ar''. hd_done p ar' = Some (st, ar'') \<and> st \<noteq> AGAIN))"
proof -
  let ?r = "the (hd_body m (PBlk a (int (length x))) c ar)"
  have "hd_body m' p c ar = Some (the (hd_body m p c ar))" for m' m p by (simp add: hd_body_def)
  moreover have "hd_ready a ar'" if "?r = Next ar'" for ar'
    using assms that by (auto simp: hd_body_def hd_val_start_def hd_ready_def spans_ok_def in_blk_def
        split: parser_state.splits if_splits)
  moreover have "st = INVALID_REQUEST" if "?r = Return st ar'" for st ar'
    using that by (auto simp: hd_body_def hd_val_start_def split: parser_state.splits if_splits)
  moreover have "\<exists>st ar''. hd_done p ar' = Some (st, ar'') \<and> st \<noteq> AGAIN" if "?r = Goto_done ar'" for ar' p
  proof -
    have "spans_ok ar'" using assms that
      by (auto simp: hd_body_def hd_val_start_def hd_ready_def spans_ok_def split: parser_state.splits if_splits)
    then show ?thesis using hd_done_ok [of ar' p] by auto
  qed
  ultimately show ?thesis by blast
qed

lemma hd_body_pos: "hd_body m p c (set_pos q ar) = map_option (upd_pass (set_pos q)) (hd_body m p c ar)"
  by (cases "ar_state ar") (simp_all add: hd_body_def hd_val_start_def set_pos_def)

interpretation hd: incremental_scanner hd_body hd_done "\<lambda>_. hd_ready a" a "parse_header_line a" for a
proof unfold_locales
  show "hd_done p (set_pos q ar) = hd_done p ar" for p q ar
    by (simp add: hd_done_def set_pos_def Let_def)
  show "hd_ready a (set_pos q ar) = hd_ready a ar" for q ar
    by (cases "ar_state ar") (simp_all add: hd_ready_def spans_ok_def set_pos_def)
  show "parse_header_line a b ar = do { r \<leftarrow> scan hd_body a b ar;
       case r of At_end ar \<Rightarrow> Some (AGAIN, ar\<lparr>ar_next_parse_pos := buffer_end a b\<rparr>)
       | Returned st ar \<Rightarrow> Some (st, ar) | Done_at p ar \<Rightarrow> hd_done p ar }" for b ar
    by (simp add: parse_header_line_def)
qed (use hd_step hd_body_pos in blast)+

lemma hd_fresh_fits: "buffer_inv b \<Longrightarrow> k \<le> length (buffer_data b) \<Longrightarrow> hd_fresh a k ar \<Longrightarrow> fits (\<lambda>_. hd_ready a) a b ar"
  unfolding fits_def
  by (intro conjI exI [of _ "take k (buffer_data b)"] exI [of _ "drop k (buffer_data b)"])
    (auto simp: hd_fresh_def hd_ready_def)

text \<open>
  C11. It does not matter in which pieces a header line arrives: calling \<open>parse_header_line\<close> after
  each of any number of appends, as long as it returns \<open>AGAIN\<close>, ends with the same status and the
  same archive as one call on all the bytes.
\<close>

theorem header_line_in_pieces:
  assumes "buffer_inv b" and "k \<le> length (buffer_data b)" and "hd_fresh a k ar"
    and "sorted_wrt extends (b # bs)"
  shows "map_option parse_obs (feed (parse_header_line a) (b # bs) ar) =
    map_option parse_obs (parse_header_line a (last (b # bs)) ar)"
  by (rule hd.feed_last [OF hd_fresh_fits [OF assms(1-3)] assms(4)])

lemma header_line_in_pieces_witness:
  "map_option parse_obs (feed (parse_header_line 7) [buf_of ''Ho'', buf_of (''Host: a'' @ [CR, LF])]
     ((parse_archive_init 7)\<lparr>ar_state := S_HD_BEGIN\<rparr>)) =
   map_option parse_obs (parse_header_line 7 (buf_of (''Host: a'' @ [CR, LF])) ((parse_archive_init 7)\<lparr>ar_state := S_HD_BEGIN\<rparr>))"
  using header_line_in_pieces [OF _ le0 init_spans, of "buf_of ''Ho''" "[buf_of (''Host: a'' @ [CR, LF])]" 7]
  by (simp add: buf_of_ok extends_def)

text \<open>
  C35. A header line that ends with a bare line feed is neither accepted nor rejected: the parser
  leaves the line's state for one that no case handles, and every call returns \<open>AGAIN\<close>,
  whatever bytes are appended between the calls. Such a request is only ended by the connection's timeout.
\<close>

theorem bare_line_feed_stalls:
  assumes "buffer_inv b" and "k \<le> length (buffer_data b)" and "hd_fresh a k ar"
    and "header_line n v (h @ [CR, LF])" and "drop k (buffer_data b) = h @ [LF] @ rest" and "sorted_wrt extends (b # bs)"
  shows "\<exists>ar'. feed (parse_header_line a) (b # bs) ar = Some (AGAIN, ar')"
proof -
  let ?l = "last (b # bs)"
  obtain e where l: "buffer_inv ?l" "buffer_data ?l = buffer_data b @ e"
  proof (cases "bs = []")
    case False
    then have "extends b ?l" using assms(6) by simp
    then show thesis using that by (auto simp: extends_def)
  qed (use assms(1) that [of "[]"] in simp)
  then have "k \<le> length (buffer_data ?l)" "drop k (buffer_data ?l) = h @ [LF] @ (rest @ e)" using assms(2,5) by simp_all
  from bare_line_feed_again [OF l(1) this(1) assms(3,4) this(2)] obtain ar' where
    "parse_header_line a ?l ar = Some (AGAIN, ar')" by blast
  then have "map_option parse_obs (feed (parse_header_line a) (b # bs) ar) = Some (parse_obs (AGAIN, ar'))"
    using hd.feed_last [OF hd_fresh_fits [OF assms(1-3)] assms(6)] by simp
  then show ?thesis by (cases "feed (parse_header_line a) (b # bs) ar") (auto split: if_splits)
qed

lemma bare_line_feed_stalls_witness:
  "\<exists>ar'. feed (parse_header_line 7) [buf_of (''Host: a:1'' @ [LF]), buf_of (''Host: a:1'' @ [LF] @ ''Date: 1'' @ [CR, LF])]
     ((parse_archive_init 7)\<lparr>ar_state := S_HD_BEGIN\<rparr>) = Some (AGAIN, ar')"
  by (rule bare_line_feed_stalls [OF _ le0 init_spans header_example, of _ "[]"])
    (simp_all add: buf_of_ok extends_def)

section \<open>The body\<close>

text \<open>The bytes counted so far are all in the part of the buffer before the parse position.\<close>

definition body_fits :: "nat \<Rightarrow> buffer_t \<Rightarrow> parse_archive \<Rightarrow> bool" where
  "body_fits a b ar \<longleftrightarrow> buffer_inv b \<and> ar_content_length ar \<le> INT_MAX \<and>
     (\<exists>k \<le> length (buffer_data b). ar_next_parse_pos ar = PBlk a (int k) \<and> uint (ar_body_received ar) \<le> int k)"

lemma body_status:
  assumes b: "buffer_inv b" and cl: "ar_content_length ar \<le> INT_MAX" and k: "k \<le> length (buffer_data b)"
    and pos: "ar_next_parse_pos ar = PBlk a (int k)" and br: "uint (ar_body_received ar) \<le> int k"
  defines "n \<equiv> int (length (buffer_data b)) - int k"
  shows "parse_header_body_identity a b ar =
    (if ar_content_length ar \<le> 0 then Some (OK, ar)
     else Some (if ar_content_length ar \<le> uint (ar_body_received ar) + n then OK else AGAIN,
       ar\<lparr>ar_body_received := ar_body_received ar + word_of_int n,
          ar_next_parse_pos := PBlk a (int (length (buffer_data b)))\<rparr>))"
    and "uint (ar_body_received ar + word_of_int n) = uint (ar_body_received ar) + n"
proof -
  have len: "int (length (buffer_data b)) = b_len b" "b_len b < 2 ^ 31"
    using length_buffer_data [OF b] buffer_small [OF b] by auto
  have n: "0 \<le> n" "n < 2 ^ 31" using k len by (auto simp: n_def)
  have sum: "uint (ar_body_received ar) + n < 2 ^ 31" using br len by (auto simp: n_def)
  have un: "uint (word_of_int n :: 64 word) = n" using n by (simp add: uint_word_of_int_eq take_bit_int_eq_self)
  show *: "uint (ar_body_received ar + word_of_int n) = uint (ar_body_received ar) + n"
    using sum n by (simp add: uint_word_ariths un)
  have "uint (word_of_int (ar_content_length ar) :: 64 word) = ar_content_length ar" if "0 < ar_content_length ar"
    using that cl by (simp add: uint_word_of_int_eq take_bit_int_eq_self)
  then show "parse_header_body_identity a b ar =
    (if ar_content_length ar \<le> 0 then Some (OK, ar)
     else Some (if ar_content_length ar \<le> uint (ar_body_received ar) + n then OK else AGAIN,
       ar\<lparr>ar_body_received := ar_body_received ar + word_of_int n,
          ar_next_parse_pos := PBlk a (int (length (buffer_data b)))\<rparr>))"
    using len(1) * unfolding parse_header_body_identity_def
    by (auto simp: pos buffer_end_def Let_def word_le_def n_def)
qed

interpretation body: resumable_parser "parse_header_body_identity a" "body_fits a" extends fst for a
proof unfold_locales
  fix b ar assume "body_fits a b ar"
  then obtain k where f: "buffer_inv b" "ar_content_length ar \<le> INT_MAX" "k \<le> length (buffer_data b)"
    "ar_next_parse_pos ar = PBlk a (int k)" "uint (ar_body_received ar) \<le> int k" by (auto simp: body_fits_def)
  note s = body_status [OF f]
  show "\<exists>st ar1. parse_header_body_identity a b ar = Some (st, ar1)" using s(1) by auto
  fix b' assume "extends b b'"
  then obtain e where b': "buffer_inv b'" "buffer_data b' = buffer_data b @ e" by (auto simp: extends_def)
  then have k': "k \<le> length (buffer_data b')" using f(3) by simp
  note s' = body_status [OF b'(1) f(2) k' f(4,5)]
  show "body_fits a b' ar" using b' k' f by (auto simp: body_fits_def)
  {
    fix ar1 assume p: "parse_header_body_identity a b ar = Some (AGAIN, ar1)"
    let ?n = "int (length (buffer_data b)) - int k"
    have ar1: "\<not> ar_content_length ar \<le> 0" "ar1 = ar\<lparr>ar_body_received := ar_body_received ar + word_of_int ?n,
          ar_next_parse_pos := PBlk a (int (length (buffer_data b)))\<rparr>"
      using p s(1) by (auto split: if_splits)
    have f1: "ar_content_length ar1 \<le> INT_MAX" "length (buffer_data b) \<le> length (buffer_data b')"
      "ar_next_parse_pos ar1 = PBlk a (int (length (buffer_data b)))" "uint (ar_body_received ar1) \<le> int (length (buffer_data b))"
      using ar1 f b' s(2) by auto
    show "body_fits a b' ar1 \<and>
        map_option fst (parse_header_body_identity a b' ar1) = map_option fst (parse_header_body_identity a b' ar)"
      using body_status(1) [OF b'(1) f1] s'(1) ar1 s(2) b' f1 by (auto simp: body_fits_def)
  }
  fix st ar1 assume "parse_header_body_identity a b ar = Some (st, ar1)" "st \<noteq> AGAIN"
  then show "map_option fst (parse_header_body_identity a b' ar) = Some (fst (st, ar1))"
    using s(1) s'(1) b'(2) by (auto split: if_splits)
qed

text \<open>
  C12. The body of a request is complete exactly when as many bytes as the \<open>Content-Length\<close> header
  announced are behind the header block, in whatever pieces they arrive: over any sequence of appends
  \<open>parse_header_body_identity\<close> ends with \<open>OK\<close> if they are there, and with \<open>AGAIN\<close> if not. With no or
  a non-positive content length it is complete at once.
\<close>

theorem body_complete_when_received:
  assumes "buffer_inv b" and "k \<le> length (buffer_data b)" and "ar_next_parse_pos ar = PBlk a (int k)"
    and "ar_body_received ar = 0" and "ar_content_length ar \<le> INT_MAX" and "sorted_wrt extends (b # bs)"
  shows "map_option fst (feed (parse_header_body_identity a) (b # bs) ar) =
    Some (if ar_content_length ar \<le> 0 \<or>
             ar_content_length ar \<le> int (length (buffer_data (last (b # bs)))) - int k then OK else AGAIN)"
proof -
  have "body_fits a b ar" using assms by (auto simp: body_fits_def)
  note body.feed_last [OF this assms(6)]
  also have "map_option fst (parse_header_body_identity a (last (b # bs)) ar) =
    Some (if ar_content_length ar \<le> 0 \<or>
             ar_content_length ar \<le> int (length (buffer_data (last (b # bs)))) - int k then OK else AGAIN)"
  proof -
    have "buffer_inv (last (b # bs)) \<and> k \<le> length (buffer_data (last (b # bs)))"
    proof (cases bs)
      case (Cons b' bs')
      then have "last (b # bs) \<in> set bs" by simp
      then have "extends b (last (b # bs))" using assms(6) by simp
      then show ?thesis using assms(2) by (auto simp: extends_def)
    qed (use assms in simp)
    then show ?thesis using body_status(1) [OF _ assms(5) _ assms(3)] assms(4) by auto
  qed
  finally show ?thesis .
qed

lemma body_complete_when_received_witness:
  "map_option fst (feed (parse_header_body_identity 7) [buf_of ''ab'', buf_of ''abcd'']
     ((parse_archive_init 7)\<lparr>ar_content_length := 3\<rparr>)) = Some OK"
proof -
  have ar: "ar_next_parse_pos ((parse_archive_init 7)\<lparr>ar_content_length := 3\<rparr>) = PBlk 7 (int 0)"
    "ar_body_received ((parse_archive_init 7)\<lparr>ar_content_length := 3\<rparr>) = 0"
    "ar_content_length ((parse_archive_init 7)\<lparr>ar_content_length := 3\<rparr>) = 3"
    by (simp_all add: parse_archive_init_def)
  show ?thesis
    using body_complete_when_received [OF _ le0 ar(1,2), of "buf_of ''ab''" "[buf_of ''abcd'']"]
    by (simp add: ar buf_of_ok extends_def)
qed

end
