(* ===== verification/Receiving.thy ===== *)
theory Receiving
  imports Sending Header_Line
begin

text \<open>
  The receiving side of \<^verbatim>\<open>src/src/request.c\<close>: the bytes of the socket reach the request buffer,
  the request line chooses the file, the headers set the request's options, and a complete request
  leaves the head of the response in the output buffer.
\<close>

section \<open>Receiving\<close>

text \<open>What the receive loop gets: its status, the bytes, and the answers that are left.\<close>

fun pull :: "recv_answer list \<Rightarrow> int \<times> string \<times> recv_answer list" where
  "pull [] = (AGAIN, [], [])"
| "pull (Recv_fail # as) = (ERROR, [], as)"
| "pull (Recv_bytes x # as) =
     (if x = [] then (OK, [], as) else let (st, y, as') = pull as in (st, x @ y, as'))"

definition set_in :: "int \<Rightarrow> recv_answer list \<Rightarrow> 'x kernel_scheme \<Rightarrow> 'x kernel_scheme" where
  "set_in fd as k =
     (case sock_at fd k of None \<Rightarrow> k | Some s \<Rightarrow> fd_update fd (Fd_sock (s\<lparr>s_in := as\<rparr>)) k)"

lemma set_in_eq: "sock_at fd k = Some s \<Longrightarrow> set_in fd as k = fd_update fd (Fd_sock (s\<lparr>s_in := as\<rparr>)) k"
  by (simp add: set_in_def)

lemma sock_at_set_in [simp]: "sock_at fd k = Some s \<Longrightarrow> sock_at fd (set_in fd as k) = Some (s\<lparr>s_in := as\<rparr>)"
  by (simp add: set_in_def sock_at_def)

lemma set_in_set [simp]: "set_in fd as (set_in fd as' k) = set_in fd as k"
  by (auto simp: set_in_def sock_at_def split: option.splits fd_object.splits)

lemma set_in_triv: "sock_at fd k = Some s \<Longrightarrow> set_in fd (s_in s) k = k"
  by (simp add: set_in_eq fd_update_triv sock_at_lookup [THEN iffD1])

lemma sys_recv_eq:
  assumes "sock_at fd k = Some s"
  shows "sys_recv fd n k =
    (case s_in s of
       [] \<Rightarrow> (Eagain, k)
     | Recv_fail # as \<Rightarrow> (Fail, set_in fd as k)
     | Recv_bytes x # as \<Rightarrow> (Ret (take n x), set_in fd (if length x \<le> n then as else Recv_bytes (drop n x) # as) k))"
  using sock_at_lookup [THEN iffD1, OF assms] set_in_eq [OF assms]
  by (auto simp: sys_recv_def split: list.splits recv_answer.splits)

text \<open>The next allocation answers are of no consequence while the data fit.\<close>

lemma set_in_realloc: "set_in fd as (k\<lparr>k_realloc := rs\<rparr>) = (set_in fd as k)\<lparr>k_realloc := rs\<rparr>"
  by (simp add: set_in_def sock_at_def fd_lookup_def fd_update_def split: option.splits fd_object.splits)

lemma next_realloc_k: "\<exists>ra rs. next_realloc k = (ra, k\<lparr>k_realloc := rs\<rparr>)"
proof (cases "k_realloc k")
  case Nil
  then show ?thesis by (intro exI [of _ Realloc_null] exI [of _ "[]"]) (cases k, simp add: next_realloc_def)
qed (auto simp: next_realloc_def)

lemma sock_at_realloc [simp]: "sock_at fd (k\<lparr>k_realloc := rs\<rparr>) = sock_at fd k"
  by (simp add: sock_at_def fd_lookup_def)

fun recv_weight :: "recv_answer list \<Rightarrow> nat" where
  "recv_weight [] = 0"
| "recv_weight (Recv_fail # as) = Suc (recv_weight as)"
| "recv_weight (Recv_bytes x # as) = Suc (length x + recv_weight as)"

lemma request_recv_pull:
  assumes "buffer_inv (r_ib (c_req c))" and "sock_at (c_fd c) w = Some s" and "pull (s_in s) = (st, y, as')"
    and "int (length y) \<le> b_free (r_ib (c_req c))"
  shows "\<exists>ib rs. request_recv c w = Some (st, upd_req (\<lambda>r. r\<lparr>r_ib := ib\<rparr>) c, (set_in (c_fd c) as' w)\<lparr>k_realloc := rs\<rparr>) \<and>
    buffer_inv ib \<and> buffer_data ib = buffer_data (r_ib (c_req c)) @ y \<and> b_free ib = b_free (r_ib (c_req c)) - int (length y) \<and>
    (y \<noteq> [] \<longrightarrow> nul_terminated ib) \<and> (y = [] \<longrightarrow> ib = r_ib (c_req c))"
  using assms
proof (induction "recv_weight (s_in s)" arbitrary: c w s st y as' rule: less_induct)
  case less
  let ?ib = "r_ib (c_req c)"
  have same: "upd_req (\<lambda>r. r\<lparr>r_ib := ?ib\<rparr>) c = c" "w\<lparr>k_realloc := k_realloc w\<rparr> = w" by simp_all
  note recv = sys_recv_eq [OF less.prems(2), of 8192]
  show ?case
  proof (cases "s_in s")
    case Nil
    then have "request_recv c w = Some (AGAIN, c, w)" using recv by (subst request_recv.simps) simp
    then show ?thesis using less.prems Nil set_in_triv [OF less.prems(2)]
      by (intro exI [of _ ?ib] exI [of _ "k_realloc w"]) auto
  next
    case (Cons a as)
    show ?thesis
    proof (cases a)
      case Recv_fail
      then have "request_recv c w = Some (ERROR, c, set_in (c_fd c) as w)" using recv Cons by (subst request_recv.simps) simp
      then show ?thesis using less.prems Cons Recv_fail
        by (intro exI [of _ ?ib] exI [of _ "k_realloc (set_in (c_fd c) as w)"]) auto
    next
      case (Recv_bytes x)
      show ?thesis
      proof (cases "x = []")
        case True
        then have "request_recv c w = Some (OK, c, set_in (c_fd c) as w)" using recv Cons Recv_bytes by (subst request_recv.simps) simp
        then show ?thesis using less.prems Cons Recv_bytes True
          by (intro exI [of _ ?ib] exI [of _ "k_realloc (set_in (c_fd c) as w)"]) auto
      next
        case False
        let ?x = "take 8192 x" and ?as = "if length x \<le> 8192 then as else Recv_bytes (drop 8192 x) # as"
        obtain y1 where y1: "pull ?as = (st, y1, as')" "y = ?x @ y1"
        proof -
          obtain y0 where y0: "pull as = (st, y0, as')" "y = x @ y0"
            using less.prems(3) Cons Recv_bytes False by (auto split: prod.splits)
          then have "pull ?as = (st, drop 8192 x @ y0, as')" "y = ?x @ drop 8192 x @ y0"
            by (auto simp flip: append_assoc)
          then show thesis by (rule that)
        qed
        obtain ra rs where ra: "next_realloc (set_in (c_fd c) ?as w) = (ra, (set_in (c_fd c) ?as w)\<lparr>k_realloc := rs\<rparr>)"
          using next_realloc_k by blast
        let ?w = "(set_in (c_fd c) ?as w)\<lparr>k_realloc := rs\<rparr>"
        obtain ib where ib: "buffer_cat ra ?ib ?x = Some (Cat_same ib)" "cat_ok ?ib ?x ib"
          "b_free ib = b_free ?ib - int (length ?x)"
          using buffer_cat_fits [OF less.prems(1), of ?x ra] less.prems(4) y1(2) by auto
        let ?c = "upd_req (\<lambda>r. r\<lparr>r_ib := ib\<rparr>) c"
        have step: "request_recv c w = request_recv ?c ?w"
          using recv Cons Recv_bytes False ra ib(1) by (subst request_recv.simps) (simp add: cat_keep_def)
        have w: "recv_weight ?as < recv_weight (s_in s)" "sock_at (c_fd ?c) ?w = Some (s\<lparr>s_in := ?as\<rparr>)"
          using Cons Recv_bytes less.prems(2) by auto
        have ib': "buffer_inv ib" "buffer_data ib = buffer_data ?ib @ ?x" "nul_terminated ib" using ib(2) by (auto simp: cat_ok_def)
        obtain ib2 rs2 where IH: "request_recv ?c ?w = Some (st, upd_req (\<lambda>r. r\<lparr>r_ib := ib2\<rparr>) ?c, (set_in (c_fd ?c) as' ?w)\<lparr>k_realloc := rs2\<rparr>)"
          "buffer_inv ib2" "buffer_data ib2 = buffer_data ib @ y1" "b_free ib2 = b_free ib - int (length y1)"
          "y1 \<noteq> [] \<longrightarrow> nul_terminated ib2" "y1 = [] \<longrightarrow> ib2 = ib"
          using less.hyps [OF _ _ w(2), of st y1 as'] w(1) ib'(1) y1 ib(3) less.prems(4) by auto
        show ?thesis using step IH ib' ib(3) y1(2) False
          by (intro exI [of _ ib2] exI [of _ rs2]) (auto simp: set_in_realloc)
      qed
    qed
  qed
qed

section \<open>Rewriting bytes of the request buffer in place\<close>

definition ib_with :: "string \<Rightarrow> buffer_t \<Rightarrow> buffer_t" where
  "ib_with d b = b\<lparr>b_buf := map Some d @ drop (length d) (b_buf b)\<rparr>"

lemma buffer_bytes:
  assumes "buffer_inv b"
  shows "b_buf b = map Some (buffer_data b) @ drop (length (buffer_data b)) (b_buf b)"
  using holds_buffer [OF assms, of 0] by (auto simp: holds_def)

lemma ib_with_ok:
  assumes "buffer_inv b" and "length d = length (buffer_data b)"
  shows "buffer_inv (ib_with d b)" and "buffer_data (ib_with d b) = d"
    and "b_len (ib_with d b) = b_len b" and "b_free (ib_with d b) = b_free b"
    and "nul_terminated b \<Longrightarrow> nul_terminated (ib_with d b)"
proof -
  have l: "b_len b = int (length d)" using assms length_buffer_data by metis
  have "length d \<le> length (b_buf b)" using assms(1) l by (simp add: buffer_inv_def)
  then show "buffer_inv (ib_with d b)" "buffer_data (ib_with d b) = d"
    using assms(1) l by (auto simp: buffer_inv_def buffer_data_def ib_with_def comp_def)
  assume "nul_terminated b"
  then show "nul_terminated (ib_with d b)"
    using l by (auto simp: nul_terminated_def byte_at_def ib_with_def nth_append split: if_splits)
qed (simp_all add: ib_with_def)

lemma ib_with_same: "buffer_inv b \<Longrightarrow> ib_with (buffer_data b) b = b"
  using buffer_bytes [of b] by (simp add: ib_with_def)

lemma ib_with_with [simp]: "length d = length d' \<Longrightarrow> ib_with d (ib_with d' b) = ib_with d b"
  by (simp add: ib_with_def)

lemma bytes_in_ib:
  assumes "buffer_inv (r_ib r)" and "buffer_data (r_ib r) = x @ y"
  shows "bytes_from (req_mem r) (PBlk (r_ib_at r) (int (length x))) =
    map Some y @ drop (length (x @ y)) (b_buf (r_ib r))"
proof -
  obtain R where R: "drop (length (x @ y)) (b_buf (r_ib r)) = R" "b_buf (r_ib r) = map Some x @ map Some y @ R"
    using buffer_bytes [OF assms(1)] unfolding assms(2) by simp
  then show ?thesis unfolding R(1) by (simp add: req_mem_def R(2))
qed

text \<open>Bytes of the data replaced by as many others.\<close>

lemma ib_bytes_with:
  assumes "buffer_inv (r_ib r)" and "length d = length (buffer_data (r_ib r))"
  shows "ib_bytes [r_ib_at r \<mapsto> b_buf (ib_with d (r_ib r))] r = Some (r\<lparr>r_ib := ib_with d (r_ib r)\<rparr>)"
  by (simp add: ib_bytes_def ib_with_def)

lemma store_in_ib:
  assumes "buffer_inv (r_ib r)" and "buffer_data (r_ib r) = x @ c # y"
  shows "store (req_mem r) (PBlk (r_ib_at r) (int (length x))) c' =
    Some [r_ib_at r \<mapsto> b_buf (ib_with (x @ c' # y) (r_ib r))]"
proof -
  obtain R where R: "drop (length (x @ c # y)) (b_buf (r_ib r)) = R"
    "b_buf (r_ib r) = map Some x @ Some c # map Some y @ R"
    using buffer_bytes [OF assms(1)] unfolding assms(2) by simp
  then have "b_buf (ib_with (x @ c' # y) (r_ib r)) = map Some x @ Some c' # map Some y @ R"
    by (simp add: ib_with_def)
  with R(2) show ?thesis by (simp add: req_mem_def list_update_append)
qed

section \<open>The path of the request\<close>

text \<open>
  The name that is opened: the path of the URL without its first slash, up to a NUL, and the root
  directory for the path that is just a slash.
\<close>

definition rel_path :: "string \<Rightarrow> string" where
  "rel_path p = (if p = ''/'' then ''./'' else takeWhile (\<lambda>c. c \<noteq> NUL) (tl p))"

lemma path_end_map:
  "\<forall>c \<in> set p. c \<noteq> SP \<and> c \<noteq> CHR ''?'' \<Longrightarrow> t = SP \<or> t = CHR ''?'' \<Longrightarrow>
   path_end (map Some p @ Some t # bs) = Some (int (length p))"
  by (induction p) auto

lemma cstring_nul: "cstring (map Some p @ Some NUL # bs) = Some (takeWhile (\<lambda>c. c \<noteq> NUL) p)"
proof -
  have "strlen_bytes (map Some p @ Some NUL # bs) = Some (length (takeWhile (\<lambda>c. c \<noteq> NUL) p))"
    by (induction p) auto
  moreover have "take (length (takeWhile (\<lambda>c. c \<noteq> NUL) p)) p = takeWhile (\<lambda>c. c \<noteq> NUL) p"
    by (metis takeWhile_eq_take)
  ultimately show ?thesis
    by (simp add: cstring_def length_takeWhile_le take_map)
qed

lemma relative_path_ok:
  assumes b: "buffer_inv (r_ib r)" and d: "buffer_data (r_ib r) = x @ p @ t # y"
    and p: "p \<noteq> []" "hd p = CHR ''/''" "\<forall>c \<in> set p. c \<noteq> SP \<and> c \<noteq> CHR ''?''" and t: "t = SP \<or> t = CHR ''?''"
    and span: "url_abs_path (ar_url (r_par r)) = span_at (r_ib_at r) (int (length x)) (int (length p))"
  shows "relative_path r = Some (rel_path p, r\<lparr>r_ib := ib_with (x @ p @ NUL # y) (r_ib r)\<rparr>)"
proof -
  let ?r = "r\<lparr>r_ib := ib_with (x @ p @ NUL # y) (r_ib r)\<rparr>"
  have n: "path_end (bytes_from (req_mem r) (PBlk (r_ib_at r) (int (length x)))) = Some (int (length p))"
    using path_end_map [OF p(3) t] bytes_in_ib [OF b d] by simp
  have st: "store (req_mem r) (PBlk (r_ib_at r) (int (length (x @ p)))) NUL =
      Some [r_ib_at r \<mapsto> b_buf (ib_with ((x @ p) @ NUL # y) (r_ib r))]"
    by (rule store_in_ib [OF b, of "x @ p" t y]) (simp add: d)
  have r: "ib_bytes [r_ib_at r \<mapsto> b_buf (ib_with (x @ p @ NUL # y) (r_ib r))] r = Some ?r"
    using ib_bytes_with [OF b, of "x @ p @ NUL # y"] d by simp
  obtain p' where p': "p = CHR ''/'' # p'" using p(1,2) by (cases p) auto
  have inv: "buffer_inv (r_ib ?r)" "buffer_data (r_ib ?r) = (x @ [CHR ''/'']) @ p' @ NUL # y"
    "buffer_data (r_ib ?r) = x @ CHR ''/'' # p' @ NUL # y"
    using ib_with_ok(1,2) [OF b, of "x @ p @ NUL # y"] d p' by simp_all
  have slash: "load (req_mem ?r) (PBlk (r_ib_at r) (int (length x))) = Some (CHR ''/'')"
    using holds_load_mid [of "req_mem ?r" "r_ib_at r" x "CHR ''/''" "p' @ NUL # y"] holds_buffer [OF inv(1), of "r_ib_at r"] inv(3)
    by (simp add: req_mem_def)
  have rest: "cstring (bytes_from (req_mem ?r) (PBlk (r_ib_at r) (int (length x) + 1))) =
      Some (takeWhile (\<lambda>c. c \<noteq> NUL) p')"
    using bytes_in_ib [OF inv(1,2)] by (simp add: cstring_nul add.commute del: bytes_from.simps)
  show ?thesis
    using n st r slash rest unfolding relative_path_def span
    by (cases p') (simp_all add: span_at_def rel_path_def p' ac_simps
        del: bytes_from.simps store.simps load.simps path_end.simps)
qed

section \<open>The request line handler\<close>

text \<open>The extension of a path, empty if it has none.\<close>

definition path_ext :: "string \<Rightarrow> string" where
  "path_ext p = (case url_ext p of None \<Rightarrow> [] | Some x \<Rightarrow> x)"

lemma ext_view:
  assumes "holds m a (x @ p @ y)"
  shows "ss_view m (ext_at a (int (length x)) p null_str) = Some (path_ext p)"
proof (cases "url_ext p")
  case None
  then show ?thesis by (simp add: ext_at_def path_ext_def ss_view_def null_str_def)
next
  case (Some e)
  then obtain z where z: "p = z @ CHR ''.'' # e" using url_ext_suffix by blast
  then have "ss_view m (span_at a (int (length x) + int (length z + 1)) (int (length e))) =
      Some (take (length e) (drop (length z + 1) p))"
    by (intro span_view [OF assms, of "length p"]) simp_all
  with z Some show ?thesis by (simp add: ext_at_def path_ext_def algebra_simps)
qed

text \<open>
  The options of a request after its request line: the file's extension is readable, and nothing
  but the version has been set.
\<close>

definition line_parsed :: "nat \<Rightarrow> nat \<Rightarrow> string \<Rightarrow> string \<Rightarrow> parse_archive \<Rightarrow> bool" where
  "line_parsed a k maj mn ar \<longleftrightarrow> hd_fresh a k ar \<and>
     ar_version ar = \<lparr>http_major = word_of_int (digits_val maj), http_minor = word_of_int (digits_val mn)\<rparr> \<and>
     ar_keep_alive ar = (digits_val maj = 1 \<and> digits_val mn = 1) \<and> ar_content_length ar = - 1 \<and>
     ar_transfer_encoding ar = TE_IDENTITY \<and> ar_body_received ar = 0 \<and> ar_buffer_sent ar = 0 \<and>
     \<not> ar_response_done ar \<and> \<not> ar_err_req ar"

lemma url_path_chars: "\<forall>c \<in> set (url_path u). c \<in> set u \<and> c \<noteq> CHR ''?''"
  by (auto simp: url_path_def dest: set_takeWhileD)

text \<open>What follows the path in the buffer.\<close>

lemma url_at_path:
  assumes "url_at d i u t r" and "t = SP \<or> CHR ''?'' \<in> set u" and "d = line @ r"
  obtains x t' y where "d = x @ url_path u @ t' # y @ r" and "length x = i" and "t' = SP \<or> t' = CHR ''?''"
proof -
  have l: "i + length u < length line" using assms(1,3) by (simp add: url_at_def)
  define x where "x = take i d"
  have "d = x @ u @ t # drop (Suc (i + length u)) d"
    using assms(1) id_take_nth_drop [of "i + length u" d] take_add [of i "length u" d]
    by (simp add: url_at_def x_def)
  moreover have "drop (Suc (i + length u)) d = drop (Suc (i + length u)) line @ r" using l assms(3) by simp
  ultimately have d: "d = x @ u @ t # drop (Suc (i + length u)) line @ r" by simp
  have xi: "length x = i" using assms(1) by (simp add: x_def url_at_def)
  show thesis
  proof (cases "CHR ''?'' \<in> set u")
    case True
    then obtain q where "u = url_path u @ CHR ''?'' # q" using url_path_split by blast
    then have "d = x @ url_path u @ CHR ''?'' # (q @ t # drop (Suc (i + length u)) line) @ r"
      using d by (metis append_Cons append_assoc)
    then show thesis using xi by (rule that) simp
  next
    case False
    then show thesis using that [of x t] d xi assms(2) url_path_id by auto
  qed
qed

lemma version_word: "short_num ds \<Longrightarrow> (1 :: 16 word) < word_of_int (digits_val ds) \<longleftrightarrow> 1 < digits_val ds"
  using short_num_bounds [of ds] by (intro word_gt_1) auto

lemma version_word_1: "short_num ds \<Longrightarrow> word_of_int (digits_val ds) = (1 :: 16 word) \<longleftrightarrow> digits_val ds = 1"
proof -
  assume "short_num ds"
  then have "0 \<le> digits_val ds" "digits_val ds \<le> 9" using short_num_bounds [of ds] by auto
  then have "digits_val ds = 0 \<or> digits_val ds = 1 \<or> digits_val ds = 2 \<or> digits_val ds = 3 \<or> digits_val ds = 4 \<or>
    digits_val ds = 5 \<or> digits_val ds = 6 \<or> digits_val ds = 7 \<or> digits_val ds = 8 \<or> digits_val ds = 9" by presburger
  then show ?thesis by auto
qed

definition good_line :: "http_method \<Rightarrow> string \<Rightarrow> char \<Rightarrow> string \<Rightarrow> string \<Rightarrow> string \<Rightarrow> bool" where
  "good_line me u t maj mn line \<longleftrightarrow> request_line me u t maj mn line \<and> (t = SP \<or> CHR ''?'' \<in> set u) \<and>
     digits_val maj \<le> 1 \<and> digits_val mn \<le> 1"

lemma request_line_parts:
  "request_line me u t maj mn line \<Longrightarrow> short_num maj \<and> short_num mn \<and> url_path u \<noteq> [] \<and> hd (url_path u) = CHR ''/'' \<and> (\<forall>c \<in> set u. url_char c)"
  by (cases u) (auto simp: request_line_def url_path_def)

lemma request_line_handled:
  assumes par: "r_par (c_req c) = parse_archive_init (r_ib_at (c_req c))" and b: "buffer_inv (r_ib (c_req c))"
    and d: "buffer_data (r_ib (c_req c)) = line @ rest" and line: "good_line me u t maj mn line"
  shows "\<exists>line' ar. request_handle_request_line c w =
      open_resource (rel_path (url_path u))
        (upd_req (\<lambda>r. r\<lparr>r_par := ar, r_ib := ib_with (line' @ rest) (r_ib r)\<rparr>) c) w \<and>
    length line' = length line \<and> line_parsed (r_ib_at (c_req c)) (length line) maj mn ar \<and>
    (\<forall>m. holds m (r_ib_at (c_req c)) line' \<longrightarrow> ss_view m (url_mime_extension (ar_url ar)) = Some (path_ext (url_path u)))"
proof -
  let ?r = "c_req c" and ?a = "r_ib_at (c_req c)"
  note parts = request_line_parts [of me u t maj mn line]
  have rl: "request_line me u t maj mn line" "t = SP \<or> CHR ''?'' \<in> set u" "digits_val maj \<le> 1" "digits_val mn \<le> 1"
    using line by (auto simp: good_line_def)
  have g: "ref_request_line (line @ rest) = Ref_good (me, u, t, maj, mn, rest)"
    using request_line_rest [OF rl(1), of 0 "line @ rest" rest] by simp
  obtain i where i: "url_at (line @ rest) i u t rest"
    and p: "parse_request_line ?a (r_ib ?r) (r_par ?r) = Some (OK, (rl_result ?a 0 i me u t maj mn (r_par ?r))
          \<lparr>ar_next_parse_pos := PBlk ?a (b_len (r_ib ?r) - int (length rest)), ar_state := S_HD_BEGIN\<rparr>)"
    using parse_request_line_ref [OF b le0, of ?a "r_par ?r"] init_fresh [of ?a] g unfolding par d by auto
  let ?ar = "(rl_result ?a 0 i me u t maj mn (r_par ?r))
          \<lparr>ar_next_parse_pos := PBlk ?a (b_len (r_ib ?r) - int (length rest)), ar_state := S_HD_BEGIN\<rparr>"
  let ?ka = "?ar\<lparr>ar_keep_alive := (digits_val maj = 1 \<and> digits_val mn = 1)\<rparr>"
  obtain x t' y where x: "line @ rest = x @ url_path u @ t' # y @ rest" "length x = i" "t' = SP \<or> t' = CHR ''?''"
    using url_at_path [OF i rl(2) refl] .
  let ?line = "x @ url_path u @ NUL # y"
  have len: "length ?line = length line" using arg_cong [OF x(1), of length] by simp
  have pos: "b_len (r_ib ?r) - int (length rest) = int (length line)" using length_buffer_data [OF b] d by simp
  have u: "url_abs_path (url_parts ?a (int i) u t) = span_at ?a (int i) (int (length (url_path u)))"
    "url_mime_extension (url_parts ?a (int i) u t) = ext_at ?a (int i) (url_path u) null_str"
    using rl(2) by (auto simp: url_parts_def Let_def)
  let ?r' = "?r\<lparr>r_par := ?ka\<rparr>"
  have chars: "\<forall>c \<in> set (url_path u). c \<noteq> SP \<and> c \<noteq> CHR ''?''"
    using url_path_chars [of u] parts [OF rl(1)] by (auto simp: url_char_def blank_def)
  have "relative_path ?r' = Some (rel_path (url_path u), ?r'\<lparr>r_ib := ib_with (x @ url_path u @ NUL # y @ rest) (r_ib ?r')\<rparr>)"
    by (rule relative_path_ok [OF _ _ _ _ chars x(3)]) (use b d x parts [OF rl(1)] u in \<open>simp_all add: rl_result_def set_version_def\<close>)
  moreover have "request_handle_request_line c w = do { (path, r) \<leftarrow> relative_path ?r'; open_resource path (c\<lparr>c_req := r\<rparr>) w }"
    using p parts [OF rl(1)] rl(3,4)
    by (simp add: request_handle_request_line_def Let_def rl_result_def set_version_def version_word version_word_1)
  moreover have "line_parsed ?a (length line) maj mn ?ka"
    unfolding par pos by (simp add: line_parsed_def rl_result_def set_version_def hd_fresh_def spans_ok_def parse_archive_init_def)
  moreover have "ss_view m (url_mime_extension (ar_url ?ka)) = Some (path_ext (url_path u))" if "holds m ?a ?line" for m
    using ext_view [OF that] x(2) u by (simp add: rl_result_def set_version_def)
  ultimately show ?thesis using len by (intro exI [of _ ?line] exI [of _ ?ka]) simp
qed

end
