(* ===== verification/Headers.thy ===== *)
theory Headers
  imports Receiving
begin

text \<open>
  The header loop of \<^verbatim>\<open>src/src/request.c\<close>. The reference is the effect of a header on the two
  options the server keeps, whether the connection stays open and the length of the body; the loop
  is shown to apply it to each header line in turn, whatever the case of the names.
\<close>

section \<open>The table of handlers\<close>

definition handlers_ok :: "'x world_scheme \<Rightarrow> bool" where
  "handlers_ok w \<longleftrightarrow> Some (w_header_dict w) = put_handlers dict_init hf_list"

text \<open>Filling the two tables never fails: no key is a null pointer or empty.\<close>

lemma put_tables: "put_mime dict_init mime_list \<noteq> None" "put_handlers dict_init hf_list \<noteq> None"
  by code_simp+

definition hf_names :: "(string \<times> header_handle_method \<times> hd_member) list" where
  "hf_names =
    [(''accept'', Hd_base, M_accept), (''accept-charset'', Hd_base, M_accept_charset),
     (''accept-encoding'', Hd_base, M_accept_encoding), (''accept-language'', Hd_base, M_accept_language),
     (''cache-control'', Hd_base, M_cache_control), (''content-length'', Hd_content_length, M_content_length),
     (''connection'', Hd_connection, M_connection), (''cookie'', Hd_base, M_cookie), (''date'', Hd_base, M_date),
     (''host'', Hd_base, M_host), (''if-modified-since'', Hd_base, M_if_modified_since),
     (''if-unmodified-since'', Hd_base, M_if_unmodified_since), (''max-forwards'', Hd_base, M_max_forwards),
     (''range'', Hd_base, M_range), (''referer'', Hd_base, M_referer),
     (''transfer-encoding'', Hd_transfer_encoding, M_transfer_encoding), (''user-agent'', Hd_base, M_user_agent)]"

definition hf_of :: "string \<times> header_handle_method \<times> hd_member \<Rightarrow> header_func" where
  "hf_of e = \<lparr>hf_hd = SSSTR (fst e), hf_func = fst (snd e), hf_offset = snd (snd e)\<rparr>"

lemma put_handlers_all:
  "put_handlers d (map hf_of es) = lit_dict.put_all m d (map (\<lambda>e. (fst e, Some (hf_of e))) es)"
proof (induction es arbitrary: d)
  case (Cons e es)
  have "dict_put True Map.empty d (SSSTR k) v = dict_put True m d (SSSTR k) v" for k and v :: "header_func option"
    by (simp add: dict_put_def LOTOS_HASH_view [OF ss_view_SSSTR])
  with Cons show ?case by (simp add: hf_of_def)
qed simp

lemma header_dict_ok:
  assumes "handlers_ok w"
  shows "dict_inv m (w_header_dict w)"
    and "dict_map m (w_header_dict w) = map_of (map (\<lambda>e. (fst e, Some (hf_of e))) hf_names)"
proof -
  let ?kvs = "map (\<lambda>e. (fst e, Some (hf_of e))) hf_names"
  have "hf_list = map hf_of hf_names" by (simp add: hf_list_def hf_names_def hf_of_def)
  then have "lit_dict.put_all m dict_init ?kvs = Some (w_header_dict w)"
    using assms put_handlers_all [of dict_init hf_names m] by (simp add: handlers_ok_def)
  moreover have "distinct (map fst ?kvs)" by (simp add: hf_names_def)
  ultimately show "dict_inv m (w_header_dict w)" "dict_map m (w_header_dict w) = map_of ?kvs"
    using lit_dict.put_all_distinct [of ?kvs m] by auto
qed

lemma header_lookup:
  assumes "handlers_ok w" and "ss_view m k = Some x" and "ss_str k \<noteq> PNull"
  shows "\<exists>found. dict_get m (w_header_dict w) k = Some (map_option (\<lambda>e. hf_of (x, e)) (map_of hf_names x), found)"
proof -
  note d = header_dict_ok [OF assms(1), of m]
  have "map_of (map (\<lambda>e. (fst e, Some (hf_of e))) es) x = map_option (\<lambda>e. Some (hf_of (x, e))) (map_of es x)" for es
    by (induction es) auto
  with d dict_get_map [OF d(1) assms(2,3)] show ?thesis
    by (cases "map_of hf_names x") (auto simp: get_result_def)
qed

section \<open>What a header does\<close>

text \<open>The number a digit string denotes, and \<open>atoi\<close> on it.\<close>

lemma digit_not_space: "is_digit_char c \<Longrightarrow> \<not> is_space_char c \<and> c \<noteq> CHR ''-'' \<and> c \<noteq> CHR ''+''"
  by (auto simp: is_digit_char_def is_space_char_def ord_char_def)

lemma scan_digits_val:
  "\<forall>c \<in> set ds. is_digit_char c \<Longrightarrow> \<not> is_digit_char t \<Longrightarrow>
   scan_digits acc (map Some ds @ Some t # bs) = Some (foldl (\<lambda>n c. n * 10 + (ord_char c - 48)) acc ds)"
  by (induction ds arbitrary: acc) auto

text \<open>A \<open>Content-Length\<close> the server accepts: digits, and a positive \<open>int\<close>.\<close>

definition good_length :: "string \<Rightarrow> bool" where
  "good_length v \<longleftrightarrow> (\<forall>c \<in> set v. is_digit_char c) \<and> v \<noteq> [] \<and> 0 < digits_val v \<and> digits_val v < 2 ^ 31"

lemma atoi_digits:
  assumes "good_length v" and "\<not> is_digit_char t"
  shows "atoi (map Some v @ Some t # bs) = Some (digits_val v)"
proof -
  obtain c ds where v: "v = c # ds" using assms(1) by (cases v) (auto simp: good_length_def)
  have c: "is_digit_char c" using assms(1) v by (simp add: good_length_def)
  have "scan_digits 0 (map Some v @ Some t # bs) = Some (digits_val v)"
    using scan_digits_val [of v t 0 bs] assms by (simp add: good_length_def digits_val_def)
  moreover have "0 < digits_val v" "digits_val v < 2 ^ 31" using assms(1) by (simp_all add: good_length_def)
  ultimately show ?thesis using digit_not_space [OF c] unfolding v
    by (simp add: atoi_def strtol10_def Let_def to_int32_id)
qed

text \<open>
  The headers that are handled without an error response, and their effect on the options
  keep-alive and content length. Names are compared without regard to case; of the value of
  \<open>Connection\<close> only the beginning is looked at.
\<close>

definition header_fine :: "string \<times> string \<Rightarrow> bool" where
  "header_fine h \<longleftrightarrow> (let n = map tolower (fst h); v = snd h in
     n \<noteq> ''transfer-encoding'' \<and>
     (n = ''connection'' \<longrightarrow> case_prefix ''keep-alive'' v \<or> case_prefix ''close'' v) \<and>
     (n = ''content-length'' \<longrightarrow> good_length v))"

definition header_effect :: "string \<times> string \<Rightarrow> bool \<times> int \<Rightarrow> bool \<times> int" where
  "header_effect h ops = (let n = map tolower (fst h); v = snd h in
     if n = ''connection'' then (case_prefix ''keep-alive'' v, snd ops)
     else if n = ''content-length'' then (fst ops, digits_val v)
     else ops)"

definition options :: "parse_archive \<Rightarrow> bool \<times> int" where
  "options ar = (ar_keep_alive ar, ar_content_length ar)"

text \<open>What a header leaves alone: everything but the options, the stored values and the parser's own state.\<close>

definition aside :: "parse_archive \<Rightarrow> parse_archive" where
  "aside ar = ar\<lparr>ar_keep_alive := False, ar_content_length := 0, ar_req_headers := zero_headers,
     ar_num_headers := 0, ar_header0 := null_str, ar_header1 := null_str, ar_next_parse_pos := PNull,
     ar_state := S_HD_BEGIN, ar_header_line_begin := PNull, ar_header_colon_pos := PNull,
     ar_header_val_begin := PNull, ar_header_val_end := PNull, ar_isCRLF_LINE := True\<rparr>"

section \<open>Parsing a header leaves the options alone\<close>

definition keeps :: "parse_archive \<Rightarrow> parse_archive \<Rightarrow> bool" where
  "keeps ar ar' \<longleftrightarrow> aside ar' = aside ar \<and> options ar' = options ar \<and> ar_req_headers ar' = ar_req_headers ar"

lemma keeps_trans: "keeps x y \<Longrightarrow> keeps y z \<Longrightarrow> keeps x z"
  by (simp add: keeps_def)

lemma hd_body_keeps:
  "hd_body m p ch ar = Some r \<Longrightarrow>
   case r of Next ar' \<Rightarrow> keeps ar ar' | Return st ar' \<Rightarrow> keeps ar ar' | Goto_done ar' \<Rightarrow> keeps ar ar'"
  by (auto simp: hd_body_def hd_val_start_def keeps_def aside_def options_def split: parser_state.splits if_splits)

text \<open>Scanning leaves alone what one pass of its body leaves alone.\<close>

lemma scan_loop_field:
  fixes f :: "parse_archive \<Rightarrow> 'v"
  assumes body: "\<And>p ch ar r. body m p ch ar = Some r \<Longrightarrow>
      (case r of Next ar' \<Rightarrow> f ar' = f ar | Return st ar' \<Rightarrow> f ar' = f ar | Goto_done ar' \<Rightarrow> f ar' = f ar)"
  shows "scan_loop body m p n ar = Some r \<Longrightarrow>
     case r of At_end ar' \<Rightarrow> f ar' = f ar | Returned st ar' \<Rightarrow> f ar' = f ar | Done_at q ar' \<Rightarrow> f ar' = f ar"
proof (induction n arbitrary: p ar)
  case (Suc n)
  then obtain ch x where x: "load m p = Some ch" "body m p ch ar = Some x"
    by (auto simp: bind_eq_Some_conv)
  show ?case
  proof (cases x)
    case (Next ar1)
    with x Suc.prems have "scan_loop body m (ptr_add p 1) n ar1 = Some r" by simp
    from Suc.IH [OF this] body [OF x(2)] Next show ?thesis by (auto split: scan_end.splits)
  qed (use x Suc.prems body [OF x(2)] in auto)
qed auto

lemma scan_loop_keeps:
  assumes "scan_loop hd_body m p n ar = Some r"
  shows "case r of At_end ar' \<Rightarrow> keeps ar ar' | Returned st ar' \<Rightarrow> keeps ar ar' | Done_at q ar' \<Rightarrow> keeps ar ar'"
proof -
  let ?f = "\<lambda>ar. (aside ar, options ar, ar_req_headers ar)"
  have "case r of Next ar' \<Rightarrow> ?f ar' = ?f ar | Return st ar' \<Rightarrow> ?f ar' = ?f ar | Goto_done ar' \<Rightarrow> ?f ar' = ?f ar"
    if "hd_body m p ch ar = Some r" for p ch ar r
    using hd_body_keeps [OF that] by (auto simp: keeps_def split: pass.splits)
  from scan_loop_field [of hd_body m ?f, OF this assms] show ?thesis by (auto simp: keeps_def split: scan_end.splits)
qed

lemma hd_done_keeps: "hd_done p ar = Some (st, ar') \<Longrightarrow> keeps ar ar'"
  by (auto simp: hd_done_def keeps_def aside_def options_def bind_eq_Some_conv Let_def)

lemma parse_header_line_keeps:
  assumes "parse_header_line a b ar = Some (st, ar')"
  shows "keeps ar ar'"
proof -
  obtain r where r: "scan hd_body a b ar = Some r" using assms by (auto simp: parse_header_line_def bind_eq_Some_conv)
  then obtain n where "scan_loop hd_body [a \<mapsto> b_buf b] (ar_next_parse_pos ar) n ar = Some r"
    by (auto simp: scan_def bind_eq_Some_conv)
  note k = scan_loop_keeps [OF this]
  show ?thesis
  proof (cases r)
    case (At_end ar1)
    with r assms k show ?thesis by (auto simp: parse_header_line_def keeps_def aside_def options_def)
  next
    case (Done_at p ar1)
    with r assms have "hd_done p ar1 = Some (st, ar')" by (simp add: parse_header_line_def)
    from hd_done_keeps [OF this] k Done_at show ?thesis by (auto intro: keeps_trans)
  qed (use r assms k in \<open>auto simp: parse_header_line_def\<close>)
qed

section \<open>One header\<close>

lemma tolower_in_ib:
  assumes "buffer_inv (r_ib r)" and "buffer_data (r_ib r) = p @ n @ q"
  shows "ssstr_tolower (req_mem r) (span_at (r_ib_at r) (int (length p)) (int (length n))) =
    Some [r_ib_at r \<mapsto> b_buf (ib_with (p @ map tolower n @ q) (r_ib r))]"
proof -
  obtain R where R: "drop (length (p @ n @ q)) (b_buf (r_ib r)) = R"
    "b_buf (r_ib r) = map Some p @ map Some n @ map Some q @ R"
    using buffer_bytes [OF assms(1)] unfolding assms(2) by simp
  then have "b_buf (ib_with (p @ map tolower n @ q) (r_ib r)) = map Some p @ map (Some \<circ> tolower) n @ map Some q @ R"
    by (simp add: ib_with_def)
  moreover have "req_mem r (r_ib_at r) = Some (map Some p @ map Some n @ map Some q @ R)"
    using R(2) by (simp add: req_mem_def)
  ultimately show ?thesis
    using tolower_from_blk [of "req_mem r" "r_ib_at r" "map Some p" n "map Some q @ R" "int (length p)" 0]
    by (simp add: ssstr_tolower_def span_at_def req_mem_def)
qed

text \<open>The case analysis of the source on the three headers that have handlers of their own.\<close>

lemma set_member_sel:
  "rh_connection (set_member M_connection v h) = v" "rh_content_length (set_member M_content_length v h) = v"
  by simp_all

lemma req_mem_par [simp]: "req_mem (r\<lparr>r_par := x\<rparr>) = req_mem r" "req_mem (r\<lparr>r_req_handler := h\<rparr>) = req_mem r"
  by (simp_all add: req_mem_def)

lemma hd_base_sel:
  "c_req (request_handle_hd_base off c) = (c_req c)\<lparr>r_par := (r_par (c_req c))
     \<lparr>ar_req_headers := set_member off (ar_header1 (r_par (c_req c))) (ar_req_headers (r_par (c_req c)))\<rparr>\<rparr>"
  "req_mem (c_req (request_handle_hd_base off c)) = req_mem (c_req c)"
  by (simp_all add: request_handle_hd_base_def req_mem_def)

lemma cr_not_in: "tolower CR \<notin> tolower ` set ''keep-alive''" "tolower CR \<notin> tolower ` set ''close''"
  by (simp_all add: tolower_def is_upper_char_def ord_char_def)

lemma header_handler_effect:
  assumes fine: "header_fine (n, v)"
    and val: "bytes_from (req_mem (c_req c)) (ss_str (ar_header1 (r_par (c_req c)))) = map Some v @ Some CR # bs"
  shows "\<exists>ar. (case map_of hf_names (map tolower n) of
        None \<Rightarrow> Some (OK, c, w)
      | Some e \<Rightarrow> call_hd_method (fst e) (snd e) c w) = Some (OK, upd_req (\<lambda>r. r\<lparr>r_par := ar\<rparr>) c, w) \<and>
    options ar = header_effect (n, v) (options (r_par (c_req c))) \<and> aside ar = aside (r_par (c_req c)) \<and>
    ar_next_parse_pos ar = ar_next_parse_pos (r_par (c_req c)) \<and> ar_state ar = ar_state (r_par (c_req c)) \<and>
    (spans_ok ar \<longleftrightarrow> spans_ok (r_par (c_req c)))"
proof -
  let ?n = "map tolower n" and ?ar = "r_par (c_req c)"
  let ?b = "\<lambda>off. ?ar\<lparr>ar_req_headers := set_member off (ar_header1 ?ar) (ar_req_headers ?ar)\<rparr>"
  have same: "upd_req (\<lambda>r. r\<lparr>r_par := ?ar\<rparr>) c = c" by simp
  consider (conn) "?n = ''connection''" | (len) "?n = ''content-length''"
    | (other) "?n \<noteq> ''connection''" "?n \<noteq> ''content-length''" by blast
  then show ?thesis
  proof cases
    case conn
    have v: "case_prefix ''keep-alive'' v \<or> case_prefix ''close'' v" using fine conn by (simp add: header_fine_def)
    have "ssstr_caseequal (req_mem (c_req c)) (ar_header1 ?ar) lit = Some (case_prefix lit v)"
      if "tolower CR \<notin> tolower ` set lit" for lit
      using val strncase_eq_line [OF that] by (simp add: ssstr_caseequal_def)
    note ce = this [OF cr_not_in(1)] this [OF cr_not_in(2)]
    have eq: "call_hd_method Hd_connection M_connection c w =
        Some (OK, upd_req (\<lambda>r. r\<lparr>r_par := (?b M_connection)\<lparr>ar_keep_alive := case_prefix ''keep-alive'' v\<rparr>\<rparr>) c, w)"
      using v ce
      by (auto simp: call_hd_method_def request_handle_hd_connection_def hd_base_sel Let_def request_handle_hd_base_def)
    show ?thesis
      using conn eq by (intro exI [of _ "(?b M_connection)\<lparr>ar_keep_alive := case_prefix ''keep-alive'' v\<rparr>"])
        (simp add: hf_names_def options_def aside_def header_effect_def spans_ok_def)
  next
    case len
    have v: "good_length v" using fine len by (simp add: header_fine_def)
    have "atoi (bytes_from (req_mem (c_req c)) (ss_str (ar_header1 ?ar))) = Some (digits_val v)"
      using val atoi_digits [OF v, of CR bs] by (simp add: is_digit_char_def ord_char_def)
    then have eq: "call_hd_method Hd_content_length M_content_length c w =
        Some (OK, upd_req (\<lambda>r. r\<lparr>r_par := (?b M_content_length)\<lparr>ar_content_length := digits_val v\<rparr>\<rparr>) c, w)"
      using v by (simp add: call_hd_method_def request_handle_hd_content_length_def hd_base_sel Let_def
          request_handle_hd_base_def good_length_def)
    show ?thesis
      using len eq by (intro exI [of _ "(?b M_content_length)\<lparr>ar_content_length := digits_val v\<rparr>"])
        (simp add: hf_names_def options_def aside_def header_effect_def spans_ok_def)
  next
    case other
    have te: "?n \<noteq> ''transfer-encoding''" using fine by (simp add: header_fine_def Let_def)
    show ?thesis
    proof (cases "map_of hf_names ?n")
      case None
      then show ?thesis using other same
        by (intro exI [of _ ?ar]) (simp add: header_effect_def Let_def)
    next
      case (Some e)
      have "list_all (\<lambda>(k, f, off). f = Hd_base \<or> k \<in> {''connection'', ''content-length'', ''transfer-encoding''}) hf_names"
        by (simp add: hf_names_def)
      then have "fst e = Hd_base" using map_of_SomeD [OF Some] other te by (auto simp: list_all_iff)
      then show ?thesis using Some other
        by (intro exI [of _ "?b (snd e)"])
          (simp add: call_hd_method_def request_handle_hd_base_def options_def aside_def header_effect_def Let_def spans_ok_def)
    qed
  qed
qed

lemma handle_one_header_place:
  assumes b: "buffer_inv (r_ib (c_req c))" and place: "hd_place (r_ib_at (c_req c)) k (buffer_data (r_ib (c_req c))) n v suf (r_par (c_req c))"
    and fine: "header_fine (n, v)" and hok: "handlers_ok w"
    and split: "buffer_data (r_ib (c_req c)) = pre @ line @ suf" "length pre = k"
  shows "\<exists>line' ar. handle_one_header c w =
      Some (OK, upd_req (\<lambda>r. r\<lparr>r_ib := ib_with (pre @ line' @ suf) (r_ib r), r_par := ar\<rparr>) c, w) \<and>
    length line' = length line \<and>
    options ar = header_effect (n, v) (options (r_par (c_req c))) \<and> aside ar = aside (r_par (c_req c)) \<and>
    ar_next_parse_pos ar = ar_next_parse_pos (r_par (c_req c)) \<and> ar_state ar = ar_state (r_par (c_req c)) \<and>
    (spans_ok ar \<longleftrightarrow> spans_ok (r_par (c_req c)))"
proof -
  let ?r = "c_req c" and ?a = "r_ib_at (c_req c)" and ?ar = "r_par (c_req c)" and ?n = "map tolower n"
  obtain p bl where d: "buffer_data (r_ib ?r) = p @ n @ '':'' @ bl @ v @ [CR, LF] @ suf" and kp: "k \<le> length p"
    and h0: "ar_header0 ?ar = span_at ?a (int (length p)) (int (length n))"
    and h1: "ar_header1 ?ar = span_at ?a (int (length (p @ n @ '':'' @ bl))) (int (length v))"
    using place by (auto simp: hd_place_def)
  let ?q = "'':'' @ bl @ v @ [CR, LF] @ suf"
  let ?d = "p @ ?n @ ?q" and ?line = "drop k p @ ?n @ '':'' @ bl @ v @ [CR, LF]"
  have "take k p = pre" using d split kp by (metis append_eq_append_conv_if append_eq_conv_conj append_take_drop_id length_append take_all_iff take_append)
  then have dl: "?d = pre @ ?line @ suf" using append_take_drop_id [of k p] by (metis append_assoc)
  have len: "length ?line = length line" using arg_cong [OF d, of length] split kp by simp
  let ?r2 = "?r\<lparr>r_ib := ib_with ?d (r_ib ?r)\<rparr>"
  have tl: "ssstr_tolower (req_mem ?r) (ar_header0 ?ar) = Some [?a \<mapsto> b_buf (ib_with ?d (r_ib ?r))]"
    using tolower_in_ib [OF b, of p n ?q] d h0 by simp
  have ib: "ib_bytes [?a \<mapsto> b_buf (ib_with ?d (r_ib ?r))] ?r = Some ?r2"
    by (rule ib_bytes_with [OF b]) (simp add: d)
  have b2: "buffer_inv (r_ib ?r2)" "buffer_data (r_ib ?r2) = ?d" using ib_with_ok(1,2) [OF b, of ?d] d by simp_all
  have view: "ss_view (req_mem ?r2) (ar_header0 ?ar) = Some ?n"
    using holds_view [OF holds_buffer [OF b2(1), of ?a], of "length p" "length n"] b2(2) h0 by (simp add: req_mem_def span_at_def)
  obtain found where get: "dict_get (req_mem ?r2) (w_header_dict w) (ar_header0 ?ar) =
      Some (map_option (\<lambda>e. hf_of (?n, e)) (map_of hf_names ?n), found)"
    using header_lookup [OF hok view] h0 by (auto simp: span_at_def)
  let ?c2 = "c\<lparr>c_req := ?r2\<rparr>"
  have val: "bytes_from (req_mem (c_req ?c2)) (ss_str (ar_header1 (r_par (c_req ?c2)))) =
      map Some v @ Some CR # (map Some (LF # suf) @ drop (length ?d) (b_buf (r_ib ?r2)))"
    using bytes_in_ib [OF b2(1), of "p @ ?n @ '':'' @ bl" "v @ [CR, LF] @ suf"] b2(2) h1
    by (simp add: span_at_def del: bytes_from.simps)
  obtain ar where ar: "(case map_of hf_names ?n of None \<Rightarrow> Some (OK, ?c2, w)
      | Some e \<Rightarrow> call_hd_method (fst e) (snd e) ?c2 w) = Some (OK, upd_req (\<lambda>r. r\<lparr>r_par := ar\<rparr>) ?c2, w)"
    "options ar = header_effect (n, v) (options ?ar)" "aside ar = aside ?ar" "ar_next_parse_pos ar = ar_next_parse_pos ?ar"
    "ar_state ar = ar_state ?ar" "spans_ok ar \<longleftrightarrow> spans_ok ?ar"
    using header_handler_effect [OF fine val, of w] by auto
  have "handle_one_header c w = Some (OK, upd_req (\<lambda>r. r\<lparr>r_par := ar\<rparr>) ?c2, w)"
    using tl ib get ar(1) by (cases "map_of hf_names ?n") (simp_all add: handle_one_header_def hf_of_def)
  then show ?thesis using ar(2-) len unfolding dl
    by (intro exI [of _ ?line] exI [of _ ar]) simp
qed

lemma one_header:
  assumes b: "buffer_inv (r_ib (c_req c))" and d: "buffer_data (r_ib (c_req c)) = pre @ line @ suf"
    and line: "header_line n v line" and fine: "header_fine (n, v)" and hok: "handlers_ok w"
    and fresh: "hd_fresh (r_ib_at (c_req c)) (length pre) (r_par (c_req c))"
  shows "\<exists>line' ar. request_handle_headers c w = request_handle_headers
      (upd_req (\<lambda>r. r\<lparr>r_ib := ib_with (pre @ line' @ suf) (r_ib r), r_par := ar\<rparr>) c) w \<and>
    length line' = length line \<and> hd_fresh (r_ib_at (c_req c)) (length pre + length line) ar \<and>
    options ar = header_effect (n, v) (options (r_par (c_req c))) \<and> aside ar = aside (r_par (c_req c))"
proof -
  let ?a = "r_ib_at (c_req c)" and ?ar = "r_par (c_req c)"
  have k: "length pre \<le> length (buffer_data (r_ib (c_req c)))" using d by simp
  have "ref_header_line (drop (length pre) (buffer_data (r_ib (c_req c)))) = Ref_good (Some (n, v), suf)"
    using ref_header_line_good [of "line @ suf" n v suf] line d by auto
  then obtain ar1 where p: "parse_header_line ?a (r_ib (c_req c)) ?ar = Some (OK, ar1)"
    and f: "hd_fresh ?a (length pre + length line) ar1" and place: "hd_place ?a (length pre) (buffer_data (r_ib (c_req c))) n v suf ar1"
    using parse_header_line_ref [OF b k fresh] d by auto
  let ?c1 = "upd_req (\<lambda>r. r\<lparr>r_par := ar1\<rparr>) c"
  note keep = parse_header_line_keeps [OF p]
  obtain line' ar where h: "handle_one_header ?c1 w =
      Some (OK, upd_req (\<lambda>r. r\<lparr>r_ib := ib_with (pre @ line' @ suf) (r_ib r), r_par := ar\<rparr>) ?c1, w)"
    "length line' = length line" "options ar = header_effect (n, v) (options ar1)" "aside ar = aside ar1"
    "ar_next_parse_pos ar = ar_next_parse_pos ar1" "ar_state ar = ar_state ar1" "spans_ok ar \<longleftrightarrow> spans_ok ar1"
    using handle_one_header_place [of ?c1 "length pre" n v suf w pre line] b place fine hok d by auto
  have "request_handle_headers c w = request_handle_headers
      (upd_req (\<lambda>r. r\<lparr>r_ib := ib_with (pre @ line' @ suf) (r_ib r), r_par := ar\<rparr>) c) w"
    using p h(1) by (subst request_handle_headers.simps) simp
  then show ?thesis using h(2-) f keep by (intro exI [of _ line'] exI [of _ ar]) (auto simp: hd_fresh_def keeps_def)
qed

section \<open>All headers\<close>

text \<open>Header lines, each with its name and value, that are all handled without an error response.\<close>

definition header_lines :: "((string \<times> string) \<times> string) list \<Rightarrow> bool" where
  "header_lines hs \<longleftrightarrow> list_all (\<lambda>(h, line). header_line (fst h) (snd h) line \<and> header_fine h) hs"

definition head_text :: "((string \<times> string) \<times> string) list \<Rightarrow> string \<Rightarrow> string" where
  "head_text hs fin = concat (map snd hs) @ fin"

definition header_options :: "((string \<times> string) \<times> string) list \<Rightarrow> bool \<times> int \<Rightarrow> bool \<times> int" where
  "header_options hs ops = fold header_effect (map fst hs) ops"

lemma headers_end:
  assumes b: "buffer_inv (r_ib (c_req c))" and d: "buffer_data (r_ib (c_req c)) = pre @ fin @ body" and fin: "empty_line fin"
    and fresh: "hd_fresh (r_ib_at (c_req c)) (length pre) (r_par (c_req c))"
  shows "\<exists>ar. request_handle_headers c w =
      Some (OK, upd_req (\<lambda>r. r\<lparr>r_par := ar, r_req_handler := Some request_handle_body_h\<rparr>) c, w) \<and>
    hd_fresh (r_ib_at (c_req c)) (length pre + length fin) ar \<and> keeps (r_par (c_req c)) ar"
proof -
  let ?a = "r_ib_at (c_req c)" and ?ar = "r_par (c_req c)"
  have k: "length pre \<le> length (buffer_data (r_ib (c_req c)))" using d by simp
  have "ref_header_line (drop (length pre) (buffer_data (r_ib (c_req c)))) = Ref_good (None, body)"
    using ref_header_line_empty [of "fin @ body" body] fin d by auto
  then obtain ar where p: "parse_header_line ?a (r_ib (c_req c)) ?ar = Some (CRLF_LINE, ar)"
    "hd_fresh ?a (length pre + length fin) ar"
    using parse_header_line_ref [OF b k fresh] d by auto
  then show ?thesis using parse_header_line_keeps [OF p(1)]
    by (intro exI [of _ ar]) (subst request_handle_headers.simps, simp)
qed

lemma headers_loop:
  assumes "buffer_inv (r_ib (c_req c))" and "buffer_data (r_ib (c_req c)) = pre @ head_text hs fin @ body"
    and "header_lines hs" and "empty_line fin" and "handlers_ok w"
    and "hd_fresh (r_ib_at (c_req c)) (length pre) (r_par (c_req c))"
  shows "\<exists>hd ar. request_handle_headers c w =
      Some (OK, upd_req (\<lambda>r. r\<lparr>r_ib := ib_with (pre @ hd @ body) (r_ib r), r_par := ar,
                               r_req_handler := Some request_handle_body_h\<rparr>) c, w) \<and>
    length hd = length (head_text hs fin) \<and> hd_fresh (r_ib_at (c_req c)) (length pre + length hd) ar \<and>
    options ar = header_options hs (options (r_par (c_req c))) \<and> aside ar = aside (r_par (c_req c))"
  using assms
proof (induction hs arbitrary: c pre)
  case Nil
  then have d: "buffer_data (r_ib (c_req c)) = pre @ fin @ body" by (simp add: head_text_def)
  obtain ar where "request_handle_headers c w =
      Some (OK, upd_req (\<lambda>r. r\<lparr>r_par := ar, r_req_handler := Some request_handle_body_h\<rparr>) c, w)"
    "hd_fresh (r_ib_at (c_req c)) (length pre + length fin) ar" "keeps (r_par (c_req c)) ar"
    using headers_end [OF Nil.prems(1) d Nil.prems(4,6)] by blast
  then show ?case using ib_with_same [OF Nil.prems(1)] d
    by (intro exI [of _ fin] exI [of _ ar]) (simp add: head_text_def header_options_def keeps_def)
next
  case (Cons h hs)
  obtain n v line where h: "h = ((n, v), line)" by (metis surj_pair)
  have l: "header_line n v line" "header_fine (n, v)" "header_lines hs" using Cons.prems(3) h by (auto simp: header_lines_def)
  have d: "buffer_data (r_ib (c_req c)) = pre @ line @ head_text hs fin @ body"
    using Cons.prems(2) h by (simp add: head_text_def)
  obtain line' ar where s: "request_handle_headers c w = request_handle_headers
      (upd_req (\<lambda>r. r\<lparr>r_ib := ib_with (pre @ line' @ head_text hs fin @ body) (r_ib r), r_par := ar\<rparr>) c) w"
    "length line' = length line" "hd_fresh (r_ib_at (c_req c)) (length pre + length line) ar"
    "options ar = header_effect (n, v) (options (r_par (c_req c)))" "aside ar = aside (r_par (c_req c))"
    using one_header [OF Cons.prems(1) d l(1,2) Cons.prems(5,6)] by blast
  let ?c = "upd_req (\<lambda>r. r\<lparr>r_ib := ib_with (pre @ line' @ head_text hs fin @ body) (r_ib r), r_par := ar\<rparr>) c"
  have "length (pre @ line' @ head_text hs fin @ body) = length (buffer_data (r_ib (c_req c)))" using d s(2) by simp
  note b = ib_with_ok(1,2) [OF Cons.prems(1) this]
  obtain hd ar' where IH: "request_handle_headers ?c w =
      Some (OK, upd_req (\<lambda>r. r\<lparr>r_ib := ib_with ((pre @ line') @ hd @ body) (r_ib r), r_par := ar',
                               r_req_handler := Some request_handle_body_h\<rparr>) ?c, w)"
    "length hd = length (head_text hs fin)" "hd_fresh (r_ib_at (c_req c)) (length (pre @ line') + length hd) ar'"
    "options ar' = header_options hs (options ar)" "aside ar' = aside ar"
    using Cons.IH [of ?c "pre @ line'"] b l(3) Cons.prems(4,5) s(2,3) by auto
  have "ib_with (pre @ line' @ hd @ body) (ib_with (pre @ line' @ head_text hs fin @ body) (r_ib (c_req c))) =
      ib_with (pre @ line' @ hd @ body) (r_ib (c_req c))"
    using IH(2) by simp
  with IH s h show ?case
    by (intro exI [of _ "line' @ hd"] exI [of _ ar'])
      (simp add: head_text_def header_options_def add.assoc)
qed

end
