(* ===== verification/Server.thy ===== *)
theory Server
  imports Connection Headers
begin

text \<open>
  The start of a worker and its event loop: \<^verbatim>\<open>src/src/server.c\<close> and \<^verbatim>\<open>src/src/main.c\<close>. What the
  operating system decides while the server starts (whether a socket can be made, bound, listened on)
  is a record of answers; what \<open>epoll_wait\<close> reports is an input of each round of the loop. The pointer
  \<open>data.ptr\<close> of an event is \<open>Some p\<close> for the connection at \<open>p\<close> and \<open>None\<close> for \<open>&listen_fd\<close>. The
  processes \<open>main\<close> forks share nothing but the listening port, and each of them is one server of
  this model.
\<close>

unbundle bit_operations_syntax

section \<open>Command line\<close>

text \<open>
  What the calls of \<open>getopt(argc, argv, "p:dt:w:r:")\<close> return in turn, each with its \<open>optarg\<close>: options
  may be clustered, an argument may be joined to its option or follow it, arguments that are no
  options are passed over, and \<open>--\<close> ends the options. The first parameter is the rest of the cluster
  that is being read.
\<close>

function getopt :: "string \<Rightarrow> string list \<Rightarrow> (char \<times> string) list" where
  "getopt [] [] = []"
| "getopt [] (a # as) =
     (if a = ''--'' then []
      else if length a > 1 \<and> hd a = CHR ''-'' then getopt (tl a) as
      else getopt [] as)"
| "getopt (c # cs) as =
     (if c \<in> set ''ptwr'' then
        (if cs \<noteq> [] then (c, cs) # getopt [] as
         else case as of [] \<Rightarrow> (CHR ''?'', []) # getopt [] [] | a # as' \<Rightarrow> (c, a) # getopt [] as')
      else if c = CHR ''d'' then (c, []) # getopt cs as
      else (CHR ''?'', []) # getopt cs as)"
  by pat_completeness auto
termination
  by (relation "measure (\<lambda>(cl, as). length cl + sum_list (map length as) + length as)") auto

definition server_config :: config_t where
  "server_config = \<lparr>cfg_port = 8888, cfg_debug = False, cfg_timeout = 60, cfg_worker = 4, cfg_rootdir = None\<rparr>"

text \<open>The loop over the options; \<open>nproc\<close> is what \<open>sysconf\<close> returns. \<open>None\<close> is undefined behaviour.\<close>

fun parse_options :: "int \<Rightarrow> (char \<times> string) list \<Rightarrow> config_t \<Rightarrow> (int \<times> config_t) option" where
  "parse_options nproc [] cfg = Some (OK, cfg)"
| "parse_options nproc ((c, optarg) # opts) cfg =
     (if c = CHR ''p'' then do {
        n \<leftarrow> atoi (lit_block optarg);
        parse_options nproc opts (cfg\<lparr>cfg_port := word_of_int n\<rparr>)
      }
      else if c = CHR ''d'' then parse_options nproc opts (cfg\<lparr>cfg_debug := True\<rparr>)
      else if c = CHR ''t'' then do {
        n \<leftarrow> atoi (lit_block optarg);
        parse_options nproc opts (cfg\<lparr>cfg_timeout := n\<rparr>)
      }
      else if c = CHR ''w'' then do {
        n \<leftarrow> atoi (lit_block optarg);
        let cfg = cfg\<lparr>cfg_worker := word_of_int n\<rparr>;
        if uint (cfg_worker cfg) > nproc then Some (ERROR, cfg) else parse_options nproc opts cfg
      }
      else if c = CHR ''r'' then parse_options nproc opts (cfg\<lparr>cfg_rootdir := Some optarg\<rparr>)
      else Some (ERROR, cfg))"

text \<open>
  \<open>config_parse\<close> of the arguments after the program name. Paths are relative to the inode \<open>cwd\<close>; the
  call of \<open>open\<close> after the successful \<open>opendir\<close> may still fail, which is only reported on the terminal.
\<close>

definition config_parse :: "int \<Rightarrow> nat \<Rightarrow> bool \<Rightarrow> string list \<Rightarrow> config_t \<Rightarrow> 'x globals_scheme \<Rightarrow>
    (int \<times> config_t \<times> 'x globals_scheme) option" where
  "config_parse nproc cwd open_ok argv cfg g = do {
     (st, cfg) \<leftarrow> parse_options nproc (getopt [] argv) cfg;
     if st = ERROR then Some (ERROR, cfg, g)
     else case cfg_rootdir cfg of
       None \<Rightarrow> Some (ERROR, cfg, g)
     | Some path \<Rightarrow>
         (case k_namei g cwd path of
            None \<Rightarrow> Some (ERROR, cfg, g)
          | Some i \<Rightarrow>
              (case k_inode g i of
                 Regular _ \<Rightarrow> Some (ERROR, cfg, g)
               | Directory _ \<Rightarrow>
                   if open_ok then Some (OK, cfg, (fd_update (new_fd g) (Fd_file i 0) g)\<lparr>g_rootdir_fd := new_fd g\<rparr>)
                   else Some (OK, cfg, g\<lparr>g_rootdir_fd := ERROR\<rparr>)))
   }"

text \<open>The first lines of \<open>main\<close>: without arguments, or with wrong ones, the process leaves with \<open>ERROR\<close>, here an inner \<open>None\<close>.\<close>

definition main_config :: "int \<Rightarrow> nat \<Rightarrow> bool \<Rightarrow> string list \<Rightarrow> 'x globals_scheme \<Rightarrow> (config_t \<times> 'x globals_scheme) option option" where
  "main_config nproc cwd open_ok argv g =
     (if argv = [] then Some None
      else do {
        (st, cfg, g) \<leftarrow> config_parse nproc cwd open_ok argv server_config g;
        Some (if st \<noteq> OK then None else Some (cfg, g))
      })"

text \<open>
  The loop of \<open>main\<close> that starts the workers; \<open>fork i\<close> is what the call of \<open>fork\<close> returns that follows \<open>i\<close>
  others. The process that goes on from here is a worker, which leaves the loop with the number of
  its elder siblings, or it is the master, which ends by the signal it raises once a worker has
  ended: it has not installed a handler for it. The count is a signed integer that is compared as an unsigned one.
\<close>

datatype role = Works int | Interrupted int | Aborted

function fork_workers :: "32 word \<Rightarrow> (nat \<Rightarrow> int) \<Rightarrow> int \<Rightarrow> role option" where
  "fork_workers worker fork nworker =
     (if worker \<le> word_of_int nworker then Some (Interrupted nworker)
      else
        let pid = fork (nat nworker) in
        if pid = - 1 then Some Aborted
        else if pid = 0 then Some (Works nworker)
        else if nworker + 1 \<ge> 2 ^ 31 then None
        else fork_workers worker fork (nworker + 1))"
  by pat_completeness auto
termination
  by (relation "measure (\<lambda>(worker, fork, nworker). nat (2 ^ 31 - nworker))") auto

declare fork_workers.simps [simp del]

definition start_workers :: "config_t \<Rightarrow> (nat \<Rightarrow> int) \<Rightarrow> role option" where
  "start_workers cfg fork = (if cfg_debug cfg then Some (Works 0) else fork_workers (cfg_worker cfg) fork 0)"

section \<open>Starting and stopping\<close>

text \<open>The answers of the system to the calls made once.\<close>

record start_answers =
  sa_socket :: bool
  sa_bind :: bool
  sa_listen :: bool
  sa_epoll :: bool
  sa_calloc :: bool

definition make_server_socket :: "start_answers \<Rightarrow> 'x kernel_scheme \<Rightarrow> int \<times> 'x kernel_scheme" where
  "make_server_socket a k =
     (if \<not> sa_socket a then (ERROR, k)
      else
        let (listen_fd, k) = (new_fd k, fd_update (new_fd k) Fd_other k) in
        if \<not> sa_bind a then (ERROR, k)
        else if \<not> sa_listen a then (ERROR, k)
        else (listen_fd, k))"

definition lotos_epoll_create :: "start_answers \<Rightarrow> 'x kernel_scheme \<Rightarrow> int \<times> 'x kernel_scheme" where
  "lotos_epoll_create a k = (if sa_epoll a then (new_fd k, fd_update (new_fd k) Fd_other k) else (ERROR, k))"

definition add_listen_fd :: "int \<Rightarrow> 'x kernel_scheme \<Rightarrow> int \<times> 'x kernel_scheme" where
  "add_listen_fd listen_fd k = epoll_ctl EPOLL_CTL_ADD listen_fd (EPOLLIN, None) k"

text \<open>
  \<open>server_setup\<close>; the inner \<open>None\<close> is a process that aborted or left. The size of a connection is
  that of the platform. Its second half makes the two descriptors.
\<close>

definition setup_sockets :: "start_answers \<Rightarrow> mem_pool_t \<Rightarrow> world \<Rightarrow> server \<Rightarrow> server option" where
  "setup_sockets a pool w s =
     (let (listen_fd, w) = make_server_socket a w in
      if listen_fd = ERROR then None
      else
        let (epoll_fd, w) = lotos_epoll_create a w in
        if epoll_fd = ERROR then None
        else
          let (st, w) = add_listen_fd listen_fd w in
          if st = ERROR then None
          else Some (s\<lparr>sv_world := w, sv_pool := pool, sv_listen_fd := listen_fd\<rparr>))"

definition server_setup :: "start_answers \<Rightarrow> 64 word \<Rightarrow> server \<Rightarrow> server option option" where
  "server_setup a sizeof_conn s = do {
     w \<leftarrow> mime_dict_init (sv_world s);
     w \<leftarrow> header_handler_dict_init w;
     let w = status_table_init w;
     page \<leftarrow> err_page_init w;
     case page of
       None \<Rightarrow> Some None
     | Some w \<Rightarrow> do {
         created \<leftarrow> pool_create (sa_calloc a) 1024 sizeof_conn;
         case created of
           Create_exit \<Rightarrow> Some None
         | Create_ok pool \<Rightarrow> Some (setup_sockets a pool w s)
       }
   }"

definition server_shutdown :: "server \<Rightarrow> server" where
  "server_shutdown s = s\<lparr>sv_world := close_fd (sv_listen_fd s) (sv_world s)\<rparr>"

text \<open>
  The handler of \<open>SIGINT\<close>. The process ends after it, so what it gives back is all that is left: the
  counters of the two dictionaries after their entries are freed, and the state without the error
  page and the pool. Another signal has no effect.
\<close>

definition sigint_handler :: "int \<Rightarrow> server \<Rightarrow> (32 word \<times> 32 word \<times> server) option" where
  "sigint_handler signum s =
     (if signum = 2
      then Some (mime_dict_free (sv_world s), header_handler_dict_free (sv_world s),
             s\<lparr>sv_world := err_page_free (sv_world s), sv_pool := pool_destroy (sv_pool s)\<rparr>)
      else None)"

section \<open>Events\<close>

partial_function (option) server_accept :: "server \<Rightarrow> server option" where
  "server_accept s =
     (let (conn_fd, w) = sys_accept (sv_world s); s = s\<lparr>sv_world := w\<rparr> in
      if conn_fd \<noteq> ERROR then do { (_, s) \<leftarrow> connection_accept conn_fd s; server_accept s } else Some s)"

declare server_accept.simps [code]

text \<open>A handler called for the connection at \<open>p\<close>, and what its status means for the connection.\<close>

definition run_handler :: "(conn \<Rightarrow> world \<Rightarrow> (int \<times> conn \<times> world) option) \<Rightarrow> nat \<Rightarrow> server \<Rightarrow> server option" where
  "run_handler h p s = do {
     c \<leftarrow> hs_conns s p;
     (status, c, w) \<leftarrow> h c (sv_world s);
     let s = s\<lparr>hs_conns := (hs_conns s)(p \<mapsto> c), sv_world := w\<rparr>;
     if status = ERROR then connecion_set_expired p s else connecion_set_reactivated (clock s) p s
   }"

definition handle_connection :: "32 word \<Rightarrow> nat \<Rightarrow> server \<Rightarrow> server option" where
  "handle_connection events p s = do {
     c \<leftarrow> hs_conns s p;
     if connecion_is_expired c s then Some s
     else do {
       s \<leftarrow> (if events AND EPOLLIN \<noteq> 0 then run_handler request_handle p s else Some s);
       (if events AND EPOLLOUT \<noteq> 0 then run_handler response_handle p s else Some s)
     }
   }"

text \<open>The \<open>int\<close> at \<open>data.ptr\<close>: the first member of a connection is its descriptor.\<close>

definition event_fd :: "nat option \<Rightarrow> server \<Rightarrow> int option" where
  "event_fd ptr s = (case ptr of None \<Rightarrow> Some (sv_listen_fd s) | Some p \<Rightarrow> map_option c_fd (hs_conns s p))"

definition handle_event :: "32 word \<times> nat option \<Rightarrow> server \<Rightarrow> server option" where
  "handle_event ev s = do {
     fd \<leftarrow> event_fd (snd ev) s;
     if fd = sv_listen_fd s then server_accept s
     else do { p \<leftarrow> snd ev; handle_connection (fst ev) p s }
   }"

fun handle_events :: "(32 word \<times> nat option) list \<Rightarrow> server \<Rightarrow> server option" where
  "handle_events [] s = Some s"
| "handle_events (ev # evs) s = handle_event ev s \<bind> handle_events evs"

text \<open>One round of the loop of \<open>main\<close>, with the events \<open>lotos_epoll_wait\<close> has reported.\<close>

definition main_loop :: "(32 word \<times> nat option) list \<Rightarrow> server \<Rightarrow> server option" where
  "main_loop evs s = handle_events evs s \<bind> connection_prune"

end
