(* ===== verification/Event_Loop.thy ===== *)
theory Event_Loop
  imports Server
begin

text \<open>
  The event loop keeps the server's invariant. A handler changes its own connection and nothing
  else, so the loop never follows a dangling pointer, whatever clients send and in whatever order
  the kernel reports events; only the body of a handler can run into undefined behaviour. The states
  the loop can reach are an inductive relation, with the steps of the environment in between.
\<close>

section \<open>A handler in the server\<close>

text \<open>What a handler of the connection \<open>c\<close> leaves as it was for all others, by its frame.\<close>

lemma others_kept:
  assumes ok: "conns_ok C w l" and h: "held A C w" and p: "p \<in> A" "C p = Some c" and fr: "conn_frame c w c' w'"
  shows "fd_lookup w f = Some ob \<Longrightarrow> 0 \<le> f \<Longrightarrow> f \<noteq> c_fd c \<Longrightarrow> (\<forall>i off. ob \<noteq> Fd_file i off) \<or> f \<noteq> r_resource_fd (c_req c) \<Longrightarrow>
      fd_lookup w' f = Some ob \<and> f \<noteq> r_resource_fd (c_req c')" (is "?A \<Longrightarrow> ?B \<Longrightarrow> ?C \<Longrightarrow> ?D \<Longrightarrow> ?E")
    and "\<exists>sk. fd_lookup w (c_fd c) = Some (Fd_sock sk)" and "sock_at (c_fd c) w' \<noteq> None"
    and "listening l w'" and "g_rootdir_fd w' \<noteq> r_resource_fd (c_req c')"
proof -
  have c: "conn_ok p c w" by (rule conns_okD [OF ok p(2)])
  then obtain sk where sk: "fd_lookup w (c_fd c) = Some (Fd_sock sk)" using conn_ok_sock by blast
  then show "\<exists>sk. fd_lookup w (c_fd c) = Some (Fd_sock sk)" ..
  have rc: "res_ok c w" "r_resource_fd (c_req c) \<noteq> g_rootdir_fd w" using h p unfolding held_def by blast+
  have ep: "\<And>f. f \<noteq> c_fd c \<Longrightarrow> k_epoll w' f = k_epoll w f" and fds: "fds_frame c w c' w'" and g: "world_frame w w'"
    using fr by (auto simp: conn_frame_def)
  note g = world_frame_sel [OF g]
  have nores: "f \<noteq> r_resource_fd (c_req c)" if "fd_lookup w f = Some ob" "0 \<le> f" "\<forall>i off. ob \<noteq> Fd_file i off" for f ob
    using rc(1) that by (auto simp: res_ok_def)
  show keep: "fd_lookup w' f = Some ob \<and> f \<noteq> r_resource_fd (c_req c')"
    if "fd_lookup w f = Some ob" "0 \<le> f" "f \<noteq> c_fd c" "(\<forall>i off. ob \<noteq> Fd_file i off) \<or> f \<noteq> r_resource_fd (c_req c)" for f ob
    using fds that nores unfolding fds_frame_def by blast
  show "sock_at (c_fd c) w' \<noteq> None" using fds c nores [OF sk] unfolding fds_frame_def by (auto simp: conn_ok_def)
  have "listening l w" using ok by (simp add: conns_ok_def)
  then obtain i off where lw: "0 \<le> l" "fd_lookup w l = Some Fd_other" "k_epoll w l = Some (EPOLLIN, None)" "0 \<le> g_rootdir_fd w"
    "fd_lookup w (g_rootdir_fd w) = Some (Fd_file i off)" by (auto simp: listening_def)
  then have ne: "l \<noteq> c_fd c" "g_rootdir_fd w \<noteq> c_fd c" using sk by auto
  note kept = keep [OF lw(2,1) ne(1)] keep [OF lw(5,4) ne(2)]
  then show "listening l w'" "g_rootdir_fd w' \<noteq> r_resource_fd (c_req c')"
    using lw ep [OF ne(1)] g rc(2) by (auto simp: listening_def)
qed

lemma handled_conns:
  assumes ok: "conns_ok C w l" and h: "held A C w" and p: "p \<in> A" "C p = Some c"
    and fr: "conn_frame c w c' w'" and inp: "input_ok c' w'"
  shows "conns_ok (C(p \<mapsto> c')) w' l"
proof -
  note k = others_kept [OF ok h p fr] and sel = conn_frame_sel [OF fr]
  have ep: "\<And>f. f \<noteq> c_fd c \<Longrightarrow> k_epoll w' f = k_epoll w f" and g: "world_frame w w'" using fr by (auto simp: conn_frame_def)
  note g = world_frame_sel [OF g]
  have new: "conn_ok p c' w'" using conns_okD [OF ok p(2)] sel g k(3) inp by (simp add: conn_ok_def)
  have old: "conn_ok q d w'" if q: "C q = Some d" "q \<noteq> p" for q d
  proof -
    note d = conns_okD [OF ok q(1)]
    obtain sd where sd: "fd_lookup w (c_fd d) = Some (Fd_sock sd)" using conn_ok_sock [OF d] by blast
    have ne: "c_fd d \<noteq> c_fd c" using conns_ok_inj [OF ok q(1) p(2)] q(2) by auto
    have "fd_lookup w' (c_fd d) = Some (Fd_sock sd)" using k(1) [OF sd _ ne] d by (auto simp: conn_ok_def)
    then show ?thesis using conn_ok_frame [OF d] ep [OF ne] g by (simp add: sock_at_def)
  qed
  show ?thesis
  proof (rule conns_okI [OF _ _ _ k(4)])
    fix q d assume "(C(p \<mapsto> c')) q = Some d" then show "conn_ok q d w'" using new old by (cases "q = p") auto
  next
    fix q r d e assume "(C(p \<mapsto> c')) q = Some d" "(C(p \<mapsto> c')) r = Some e" "c_fd d = c_fd e"
    then show "q = r" using conns_ok_inj [OF ok] p(2) sel by (cases "q = p"; cases "r = p") auto
  next
    fix f ev assume f: "k_epoll w' f = Some ev" "f \<noteq> l"
    show "\<exists>q d. (C(p \<mapsto> c')) q = Some d \<and> c_fd d = f"
    proof (cases "f = c_fd c")
      case False
      then obtain q d where "C q = Some d" "c_fd d = f" using conns_ok_reg [OF ok _ f(2)] f(1) ep by metis
      then show ?thesis using p(2) False by (intro exI [of _ q] exI [of _ d]) auto
    qed (use sel in auto)
  qed
qed

lemma handled_held:
  assumes ok: "conns_ok C w l" and h: "held A C w" and p: "p \<in> A" "C p = Some c" and fr: "conn_frame c w c' w'"
  shows "held (if res_ok c' w' then A else A - {p}) (C(p \<mapsto> c')) w'"
proof -
  note k = others_kept [OF ok h p fr]
  have "world_frame w w'" using fr by (auto simp: conn_frame_def)
  then have g: "g_rootdir_fd w' = g_rootdir_fd w" using world_frame_sel by blast
  have other: "res_ok d w' \<and> r_resource_fd (c_req d) \<noteq> g_rootdir_fd w' \<and>
      (r_resource_fd (c_req d) \<noteq> - 1 \<longrightarrow> r_resource_fd (c_req d) \<noteq> r_resource_fd (c_req c'))"
    if q: "q \<in> A" "C q = Some d" "q \<noteq> p" for q d
  proof -
    have d: "res_ok d w" "r_resource_fd (c_req d) \<noteq> g_rootdir_fd w" using h q unfolding held_def by blast+
    show ?thesis
    proof (cases "r_resource_fd (c_req d) = - 1")
      case False
      then obtain j o' where j: "0 \<le> r_resource_fd (c_req d)" "fd_lookup w (r_resource_fd (c_req d)) = Some (Fd_file j o')"
        using d(1) by (auto simp: res_ok_def)
      have "r_resource_fd (c_req d) \<noteq> c_fd c" using j(2) k(2) by auto
      moreover have "r_resource_fd (c_req d) \<noteq> r_resource_fd (c_req c)" using h q p False unfolding held_def by blast
      ultimately show ?thesis using k(1) [OF j(2,1)] j(1) d(2) g by (auto simp: res_ok_def)
    qed (use d(2) g in \<open>auto simp: res_ok_def\<close>)
  qed
  have pair: "q = r" if "q \<in> A" "r \<in> A" "q \<noteq> p" "r \<noteq> p" "C q = Some d" "C r = Some e"
      "r_resource_fd (c_req d) = r_resource_fd (c_req e)" "r_resource_fd (c_req d) \<noteq> - 1" for q r d e
    using h that unfolding held_def by blast
  let ?A = "if res_ok c' w' then A else A - {p}"
  have sub: "q \<in> A" "q = p \<Longrightarrow> res_ok c' w'" if "q \<in> ?A" for q using that by (cases "res_ok c' w'"; simp)+
  have own: "res_ok d w' \<and> r_resource_fd (c_req d) \<noteq> g_rootdir_fd w'" if "q \<in> ?A" "(C(p \<mapsto> c')) q = Some d" for q d
    using other [OF sub(1) [OF that(1)]] that(2) sub(2) [OF that(1)] k(5) by (cases "q = p") auto
  have "q = r" if t: "q \<in> ?A" "r \<in> ?A" "(C(p \<mapsto> c')) q = Some d" "(C(p \<mapsto> c')) r = Some e"
      "r_resource_fd (c_req d) = r_resource_fd (c_req e)" "r_resource_fd (c_req d) \<noteq> - 1" for q r d e
  proof (cases "q = p \<or> r = p")
    case True
    then show ?thesis
      using t(3-) other [OF sub(1) [OF t(1)], of d] other [OF sub(1) [OF t(2)], of e] by (cases "q = p"; cases "r = p") simp_all
  next
    case False
    then show ?thesis using t pair [OF sub(1) [OF t(1)] sub(1) [OF t(2)]] by simp
  qed
  with own show ?thesis unfolding held_def by blast
qed

lemma retime:
  assumes "C p = Some c" and "0 \<le> t" and "t \<le> k_now w"
  shows "conns_ok C w l \<Longrightarrow> conns_ok (C(p \<mapsto> c\<lparr>c_active_time := t\<rparr>)) w l" and "held A C w \<Longrightarrow> held A (C(p \<mapsto> c\<lparr>c_active_time := t\<rparr>)) w"
proof -
  let ?D = "C(p \<mapsto> c\<lparr>c_active_time := t\<rparr>)"
  have D: "\<exists>e. C q = Some e \<and> c_fd d = c_fd e \<and> c_req d = c_req e" if "?D q = Some d" for q d
    using that assms(1) by (cases "q = p") auto
  show "conns_ok ?D w l" if ok: "conns_ok C w l"
  proof (rule conns_okI)
    fix q d assume "?D q = Some d"
    then show "conn_ok q d w" using conns_okD [OF ok] assms
      by (cases "q = p") (auto simp: conn_ok_def input_ok_def interest_ok_def event_of_def CONN_IS_IN_def)
  next
    fix q r d e assume "?D q = Some d" "?D r = Some e" "c_fd d = c_fd e"
    then show "q = r" using D conns_ok_inj [OF ok] by metis
  next
    fix f ev assume f: "k_epoll w f = Some ev" "f \<noteq> l"
    obtain q d where "C q = Some d" "c_fd d = f" using conns_ok_reg [OF ok f] by blast
    then show "\<exists>q d. ?D q = Some d \<and> c_fd d = f" using assms(1) by (cases "q = p") auto
  qed (use ok in \<open>simp add: conns_ok_def\<close>)
  show "held A ?D w" if h: "held A C w"
  proof -
    have "res_ok d w \<and> r_resource_fd (c_req d) \<noteq> g_rootdir_fd w" if t: "q \<in> A" "?D q = Some d" for q d
    proof -
      obtain e where "C q = Some e" "c_req d = c_req e" using D [OF t(2)] by blast
      then show ?thesis using h t(1) unfolding held_def by (metis res_ok_def)
    qed
    moreover have "q = r" if t: "q \<in> A" "r \<in> A" "?D q = Some d" "?D r = Some e"
      "r_resource_fd (c_req d) = r_resource_fd (c_req e)" "r_resource_fd (c_req d) \<noteq> - 1" for q r d e
    proof -
      obtain d' e' where "C q = Some d'" "c_req d = c_req d'" "C r = Some e'" "c_req e = c_req e'" using D t by metis
      then show ?thesis using h t unfolding held_def by metis
    qed
    ultimately show ?thesis unfolding held_def by blast
  qed
qed

lemma frame_idx:
  "conn_frame c w c' w' \<Longrightarrow> conn_frame (c\<lparr>c_heap_idx := i\<rparr>) w (c'\<lparr>c_heap_idx := i\<rparr>) w'"
  "input_ok (c\<lparr>c_heap_idx := i\<rparr>) w = input_ok c w" "res_ok (c\<lparr>c_heap_idx := i\<rparr>) w = res_ok c w"
proof -
  show "conn_frame (c\<lparr>c_heap_idx := i\<rparr>) w (c'\<lparr>c_heap_idx := i\<rparr>) w'" if fr: "conn_frame c w c' w'"
  proof -
    obtain ev r where "c' = c\<lparr>c_events := ev, c_req := r\<rparr>" using fr unfolding conn_frame_def by blast
    then have "c'\<lparr>c_heap_idx := i\<rparr> = c\<lparr>c_heap_idx := i, c_events := ev, c_req := r\<rparr>" by (cases c) simp
    then have "\<exists>ev r. c'\<lparr>c_heap_idx := i\<rparr> = c\<lparr>c_heap_idx := i\<rparr>\<lparr>c_events := ev, c_req := r\<rparr>" by blast
    then show ?thesis using fr unfolding conn_frame_def fds_frame_def by simp
  qed
qed (simp_all add: input_ok_def interest_ok_def event_of_def CONN_IS_IN_def res_ok_def)

text \<open>
  A handler with the frame of \<open>request_handle\<close> and \<open>response_handle\<close>: it is called for a connection that holds its
  resource, and afterwards the connection's time is now, or 0 if the handler failed.
\<close>

definition handler_frame :: "(conn \<Rightarrow> world \<Rightarrow> (int \<times> conn \<times> world) option) \<Rightarrow> bool" where
  "handler_frame h \<longleftrightarrow> (\<forall>c w st c' w'. h c w = Some (st, c', w') \<longrightarrow> conn_frame c w c' w' \<and>
     (input_ok c w \<longrightarrow> input_ok c' w') \<and> (res_ok c w \<and> st \<noteq> ERROR \<longrightarrow> res_ok c' w'))"

lemma handler_frames: "handler_frame request_handle" "handler_frame response_handle"
proof -
  show "handler_frame request_handle"
    unfolding handler_frame_def by (intro allI impI conjI) (auto dest: request_handle_frame)
  show "handler_frame response_handle"
    unfolding handler_frame_def by (intro allI impI conjI) (auto dest: response_handle_keeps)
qed

definition handled :: "nat \<Rightarrow> server \<Rightarrow> server \<Rightarrow> bool" where
  "handled p s s' \<longleftrightarrow> same_setup s s' \<and> members s' = members s \<and> k_pending (sv_world s') = k_pending (sv_world s) \<and>
     (\<forall>q. q \<noteq> p \<longrightarrow> strip_idx s' q = strip_idx s q)"

lemma handled_refl [simp]: "handled p s s"
  by (simp add: handled_def)

lemma handled_trans:
  assumes "handled p s s1" and "handled p s1 s2"
  shows "handled p s s2"
proof -
  have "same_setup s s2" by (rule same_setup_trans [of s s1]) (use assms in \<open>simp_all add: handled_def\<close>)
  then show ?thesis using assms by (simp add: handled_def)
qed

lemma members_times: "server_ok A s \<Longrightarrow> \<forall>p \<in> members s. 0 \<le> atime s p \<and> atime s p \<le> clock s"
proof
  fix p assume ok: "server_ok A s" and p: "p \<in> members s"
  obtain c where "hs_conns s p = Some c" using members_live [of s p] server_okD(1) [OF ok] p by (auto simp: heap_inv_def)
  then show "0 \<le> atime s p \<and> atime s p \<le> clock s" using server_okD(7) [OF ok, of p c] by (simp add: atime_def conn_ok_def)
qed

text \<open>Either update of the time of a connection.\<close>

lemma retimed_ok:
  assumes ok: "server_ok A s" and p: "p \<in> members s" and now: "0 \<le> clock s"
    and t: "s' = s1 \<and> t = clock s \<or> s' = s2 \<and> t = 0"
    and run: "connecion_set_reactivated (clock s) p s = Some s1" "connecion_set_expired p s = Some s2"
  shows "server_ok A s' \<and> handled p s s' \<and> atime s' p = t \<and> map_option c_fd (strip_idx s' p) = map_option c_fd (strip_idx s p)"
proof -
  note D = server_okD [OF ok]
  have tm: "0 \<le> t" "t \<le> clock s" using t now by auto
  have all: "\<forall>q \<in> members s. 0 \<le> atime s q \<and> atime s q \<le> clock s" by (rule members_times [OF ok])
  have "heap_inv s' \<and> members s' = members s \<and> atime s' = (atime s)(p := t) \<and> heap_state.more s' = heap_state.more s \<and>
     strip_idx s' = (strip_idx s)(p := map_option (c_active_time_update (\<lambda>_. t)) (strip_idx s p))"
    using t reactivated_ok [OF D(1) p, of "clock s"] expired_ok [OF D(1) p] all run by auto
  then have s': "heap_inv s'" "members s' = members s" "atime s' = (atime s)(p := t)" "heap_state.more s' = heap_state.more s"
    "strip_idx s' = (strip_idx s)(p := map_option (c_active_time_update (\<lambda>_. t)) (strip_idx s p))" by auto
  note m = more_sel [OF s'(4)]
  obtain c where c: "strip_idx s p = Some c" using D(2) p by auto
  have strip: "strip_idx s' = (strip_idx s)(p \<mapsto> c\<lparr>c_active_time := t\<rparr>)" using s'(5) c by simp
  have "dom (strip_idx s') = members s'" using strip D(2) s'(2) p by auto
  then have "server_ok A s'" unfolding server_ok_def strip using s'(1,2) m D(3,4) retime [where C = "strip_idx s" and p = p and w = "sv_world s", OF c tm] D(5,6) by (simp add: strip)
  then show ?thesis using s' m strip c by (simp add: handled_def same_setup_def)
qed

lemma run_handler_ok:
  assumes ok: "server_ok A s" and p: "p \<in> A" "hs_conns s p = Some c" and h: "handler_frame h" "h c (sv_world s) = Some (st, c', w')"
    and now: "0 \<le> clock s"
  shows "\<exists>s'. run_handler h p s = Some s' \<and> server_ok (if st = ERROR \<and> \<not> res_ok c' w' then A - {p} else A) s' \<and> handled p s s' \<and>
    atime s' p = (if st = ERROR then 0 else clock s) \<and> map_option c_fd (strip_idx s' p) = Some (c_fd c)"
proof -
  note D = server_okD [OF ok]
  have k: "conn_ok p c (sv_world s)" "p \<in> members s" using D(7) [OF p(2)] by auto
  have fr: "conn_frame c (sv_world s) c' w'" "input_ok c' w'" and res: "res_ok c (sv_world s) \<Longrightarrow> st \<noteq> ERROR \<Longrightarrow> res_ok c' w'"
    using h k(1) unfolding handler_frame_def conn_ok_def by blast+
  note sel = conn_frame_sel [OF fr(1)] and sp = strip_idx_Some [OF p(2)]
  have "res_ok (c\<lparr>c_heap_idx := 0\<rparr>) (sv_world s)" using D(6) p(1) sp unfolding held_def by blast
  then have "res_ok c (sv_world s)" by (simp add: frame_idx)
  then have A: "(if res_ok c' w' then A else A - {p}) = (if st = ERROR \<and> \<not> res_ok c' w' then A - {p} else A)" (is "_ = ?A") using res by auto
  let ?s = "s\<lparr>hs_conns := (hs_conns s)(p \<mapsto> c'), sv_world := w'\<rparr>"
  have inv: "heap_inv ?s" "members ?s = members s" by (rule heap_inv_cong [OF D(1)]; use p(2) sel in auto)+
  have strip: "strip_idx ?s = (strip_idx s)(p \<mapsto> c'\<lparr>c_heap_idx := 0\<rparr>)" by (auto simp: strip_idx_def fun_eq_iff)
  note fr0 = frame_idx(1) [OF fr(1), of 0]
  have i0: "input_ok (c'\<lparr>c_heap_idx := 0\<rparr>) w'" using fr(2) by (simp add: frame_idx)
  have "conns_ok (strip_idx ?s) w' (sv_listen_fd s)" "held ?A (strip_idx ?s) w'"
    unfolding strip A [symmetric] using handled_conns [OF D(5,6) p(1) sp fr0 i0] handled_held [OF D(5,6) p(1) sp fr0] by (simp_all add: frame_idx)
  moreover have "dom (strip_idx ?s) = members s" using strip D(2) k(2) by auto
  ultimately have ok1: "server_ok ?A ?s" using inv D(3,4) by (simp add: server_ok_def)
  have "world_frame (sv_world s) w'" using fr(1) by (simp add: conn_frame_def)
  note g = world_frame_sel [OF this]
  have h1: "handled p s ?s" using g inv(2) strip by (simp add: handled_def same_setup_def)
  have now1: "0 \<le> clock ?s" "p \<in> members ?s" using g now k(2) inv(2) by auto
  have tms: "\<forall>q \<in> members ?s. 0 \<le> atime ?s q \<and> atime ?s q \<le> clock ?s" by (rule members_times [OF ok1])
  obtain s1 s2 where s12: "connecion_set_reactivated (clock ?s) p ?s = Some s1" "connecion_set_expired p ?s = Some s2"
    using reactivated_ok [OF inv(1) now1(2), of "clock ?s"] expired_ok [OF inv(1) now1(2)] tms by blast
  let ?s' = "if st = ERROR then s2 else s1"
  have "run_handler h p s = Some ?s'" using p(2) h(2) s12 by (simp add: run_handler_def)
  moreover have "server_ok ?A ?s' \<and> handled p ?s ?s' \<and> atime ?s' p = (if st = ERROR then 0 else clock ?s) \<and>
      map_option c_fd (strip_idx ?s' p) = map_option c_fd (strip_idx ?s p)"
    by (rule retimed_ok [OF ok1 now1(2,1) _ s12]) simp
  moreover have "map_option c_fd (strip_idx ?s p) = Some (c_fd c)" using strip sel by simp
  ultimately show ?thesis using handled_trans [OF h1] g by (intro exI [of _ ?s']) auto
qed

section \<open>Accepting all pending connections\<close>

definition grown :: "server \<Rightarrow> server \<Rightarrow> bool" where
  "grown s s' \<longleftrightarrow> same_setup s s' \<and> strip_idx s \<subseteq>\<^sub>m strip_idx s'"

lemma grown_refl: "grown s s"
  by (simp add: grown_def)

lemma grown_trans: "grown s s1 \<Longrightarrow> grown s1 s2 \<Longrightarrow> grown s s2"
  unfolding grown_def using same_setup_trans map_le_trans by blast

lemma accepted_grown: "accepted A fd s r s' \<Longrightarrow> server_ok A s \<Longrightarrow> grown s s'"
proof -
  assume a: "accepted A fd s r s'" and ok: "server_ok A s"
  have "strip_idx s \<subseteq>\<^sub>m strip_idx s'"
  proof (cases r)
    case (Some p)
    then obtain c where "p \<notin> members s" "strip_idx s' = (strip_idx s)(p \<mapsto> c)" using a by (auto simp: accepted_def)
    moreover from this have "p \<notin> dom (strip_idx s)" using server_okD(2) [OF ok] by blast
    ultimately show ?thesis by (auto simp: map_le_def)
  qed (use a in \<open>simp add: accepted_def\<close>)
  then show ?thesis using a by (simp add: grown_def accepted_def)
qed

lemma sys_accept_ok:
  fixes s :: server
  assumes ok: "server_ok A s" and acc: "sys_accept (sv_world s) = (fd, w)"
  shows "server_ok A (s\<lparr>sv_world := w\<rparr>)" and "grown s (s\<lparr>sv_world := w\<rparr>)"
    and "fd \<noteq> ERROR \<Longrightarrow> 0 \<le> fd \<and> sock_at fd w \<noteq> None \<and> length (k_pending w) < length (k_pending (sv_world s))"
    and "fd \<noteq> ERROR \<Longrightarrow> strip_idx s q = Some d \<Longrightarrow> c_fd d \<noteq> fd"
proof -
  let ?w = "sv_world s"
  have w: "fd = ERROR \<and> (\<exists>ps. w = ?w\<lparr>k_pending := ps\<rparr>) \<or>
      (\<exists>sk ps. fd = new_fd ?w \<and> k_pending ?w = Some sk # ps \<and> w = fd_update (new_fd ?w) (Fd_sock sk) (?w\<lparr>k_pending := ps\<rparr>))"
  proof (cases "k_pending ?w")
    case Nil
    then have "fd = ERROR" "w = ?w\<lparr>k_pending := k_pending ?w\<rparr>" using acc by (simp_all add: sys_accept_def)
    then show ?thesis by blast
  qed (use acc in \<open>auto simp: sys_accept_def split: option.splits\<close>)
  have same: "k_epoll w = k_epoll ?w" "k_now w = k_now ?w" "g_rootdir_fd w = g_rootdir_fd ?w" "g_status_table w = g_status_table ?w"
    "g_mime_dict w = g_mime_dict ?w" "w_header_dict w = w_header_dict ?w" using w by (auto simp: fd_update_def)
  have lk: "fd_lookup w f = Some ob" if "fd_lookup ?w f = Some ob" for f ob
  proof -
    have "fd_lookup (?w\<lparr>k_pending := ps\<rparr>) = fd_lookup ?w" for ps by (rule fd_lookup_cong) simp
    then show ?thesis using w that new_fd_fresh [of ?w] by auto
  qed
  have kept: "fds_kept ?w w" using lk by (auto simp: fds_kept_def split: fd_object.splits)
  show "server_ok A (s\<lparr>sv_world := w\<rparr>)"
    using ok conns_ok_frame [OF kept same(1) _ same(3)] same(2) by (simp add: server_ok_def)
  show "grown s (s\<lparr>sv_world := w\<rparr>)" using same by (simp add: grown_def same_setup_def)
  show "0 \<le> fd \<and> sock_at fd w \<noteq> None \<and> length (k_pending w) < length (k_pending ?w)" if ne: "fd \<noteq> ERROR"
  proof -
    obtain sk ps where 1: "fd = new_fd ?w" "k_pending ?w = Some sk # ps" "w = fd_update (new_fd ?w) (Fd_sock sk) (?w\<lparr>k_pending := ps\<rparr>)"
      using w ne by blast
    have "k_pending w = ps" unfolding 1(3) by (simp add: fd_update_def)
    then show ?thesis using 1 by (simp add: sock_at_def)
  qed
  show "c_fd d \<noteq> fd" if "fd \<noteq> ERROR" "strip_idx s q = Some d"
    using w that conn_ok_sock [OF conns_okD [OF server_okD(5) [OF ok] that(2)]] new_fd_fresh [of ?w] by auto
qed

lemma server_accept_ok:
  "server_ok A s \<Longrightarrow> 0 \<le> clock s \<Longrightarrow> \<exists>s'. server_accept s = Some s' \<and> server_ok A s' \<and> grown s s'"
proof (induction "length (k_pending (sv_world s))" arbitrary: s rule: less_induct)
  case less
  obtain fd w where acc: "sys_accept (sv_world s) = (fd, w)" by fastforce
  note a = sys_accept_ok [OF less.prems(1) acc]
  let ?s = "s\<lparr>sv_world := w\<rparr>"
  show ?case
  proof (cases "fd = ERROR")
    case True
    then have "server_accept s = Some ?s" using acc by (subst server_accept.simps) simp
    then show ?thesis using a(1,2) by blast
  next
    case False
    have clk: "clock ?s = clock s" using a(2) by (simp add: grown_def same_setup_def)
    obtain r s1 where s1: "connection_accept fd ?s = Some (r, s1)" "accepted A fd ?s r s1"
      using connection_accept_ok [OF a(1), of fd] a(3) [OF False] a(4) [OF False] less.prems(2) clk by auto
    have g1: "grown ?s s1" by (rule accepted_grown [OF s1(2) a(1)])
    have "length (k_pending (sv_world s1)) < length (k_pending (sv_world s))" "server_ok A s1" "0 \<le> clock s1"
      using s1(2) a(3) [OF False] less.prems(2) clk by (auto simp: accepted_def same_setup_def)
    from less.hyps [OF this] obtain s2 where s2: "server_accept s1 = Some s2" "server_ok A s2" "grown s1 s2" by blast
    have "server_accept s = Some s2" using acc False s1(1) s2(1) by (subst server_accept.simps) simp
    then show ?thesis using s2(2) grown_trans [OF a(2) grown_trans [OF g1 s2(3)]] by blast
  qed
qed

section \<open>One event\<close>

text \<open>
  What the loop relies on for an event it is about to handle: the pointer is that of a live connection or of the
  listener, and input is only reported to a connection that asked for it.
\<close>

definition ev_ok :: "server \<Rightarrow> 32 word \<times> nat option \<Rightarrow> bool" where
  "ev_ok s ev \<longleftrightarrow> (\<forall>p. snd ev = Some p \<longrightarrow> (\<exists>c. strip_idx s p = Some c \<and> (fst ev AND EPOLLIN \<noteq> 0 \<longrightarrow> CONN_IS_IN c)))"

text \<open>
  The only way to lose the process: a handler that is called for a live connection, with a request
  handler to call, does not return.
\<close>

definition stuck :: "32 word \<Rightarrow> nat \<Rightarrow> server \<Rightarrow> bool" where
  "stuck m p s \<longleftrightarrow> (\<exists>c. hs_conns s p = Some c \<and> \<not> connecion_is_expired c s \<and>
     (m AND EPOLLIN \<noteq> 0 \<and> r_req_handler (c_req c) \<noteq> None \<and> request_handle c (sv_world s) = None \<or>
      m AND EPOLLOUT \<noteq> 0 \<and> (\<exists>s1 c1. (if m AND EPOLLIN \<noteq> 0 then run_handler request_handle p s = Some s1 else s1 = s) \<and>
        hs_conns s1 p = Some c1 \<and> response_handle c1 (sv_world s1) = None)))"

lemma strip_conn: "strip_idx s p = Some c \<Longrightarrow> \<exists>i. hs_conns s p = Some (c\<lparr>c_heap_idx := i\<rparr>)"
proof -
  assume "strip_idx s p = Some c"
  then obtain d where d: "hs_conns s p = Some d" "c = d\<lparr>c_heap_idx := 0\<rparr>" by (auto simp: strip_idx_def)
  then have "hs_conns s p = Some (c\<lparr>c_heap_idx := c_heap_idx d\<rparr>)" by simp
  then show ?thesis ..
qed

lemma handled_live: "handled p s s' \<Longrightarrow> server_ok A s' \<Longrightarrow> p \<in> members s \<Longrightarrow> \<exists>c. hs_conns s' p = Some c"
proof -
  assume "handled p s s'" "server_ok A s'" "p \<in> members s"
  then have "p \<in> dom (strip_idx s')" using server_okD(2) [of A s'] by (simp add: handled_def)
  then show ?thesis by (auto simp: strip_idx_def)
qed

lemma atime_of: "hs_conns s p = Some c \<Longrightarrow> atime s p = c_active_time c"
  by (simp add: atime_def)

lemma active_handled:
  assumes ok: "server_ok A s" "server_ok B s'" and h: "handled p s s'"
  shows "active s' \<subseteq> insert p (active s)"
proof
  fix q assume q: "q \<in> active s'"
  show "q \<in> insert p (active s)"
  proof (cases "q = p")
    case False
    then have "q \<in> dom (strip_idx s')" "strip_idx s' q = strip_idx s q" "q \<in> members s"
      using q h server_okD(2) [OF ok(2)] by (auto simp: active_def handled_def)
    then have "atime s' q = atime s q" by (auto simp: atime_strip dom_def)
    then show ?thesis using q \<open>q \<in> members s\<close> by (auto simp: active_def)
  qed simp
qed

lemma handle_connection_ok:
  assumes inv: "server_inv s" and ev: "ev_ok s (m, Some p)" and now: "0 \<le> clock s" "timeout s < clock s"
  shows "(\<exists>s'. handle_connection m p s = Some s' \<and> server_inv s' \<and> handled p s s') \<or> stuck m p s"
proof -
  have ok: "server_ok (active s) s" using inv by (simp add: server_inv_def)
  note D = server_okD [OF ok]
  obtain c where c: "hs_conns s p = Some c" "m AND EPOLLIN \<noteq> 0 \<longrightarrow> CONN_IS_IN c"
    using ev strip_conn [of s p] by (auto simp: ev_ok_def CONN_IS_IN_def)
  have cok: "conn_ok p c (sv_world s)" "p \<in> members s" using D(7) [OF c(1)] by auto
  show ?thesis
  proof (cases "connecion_is_expired c s \<or> stuck m p s")
    case True
    then show ?thesis using c(1) inv by (auto simp: handle_connection_def)
  next
    case False
    then have ne: "\<not> connecion_is_expired c s" and ns: "\<not> stuck m p s" by auto
    then have pa: "p \<in> active s" using now(2) cok(2) atime_of [OF c(1)] by (auto simp: active_def connecion_is_expired_def)
    have hreq: "m AND EPOLLIN \<noteq> 0 \<longrightarrow> r_req_handler (c_req c) \<noteq> None" using c(2) cok(1) by (auto simp: conn_ok_def input_ok_def)
    obtain s1 where s1: "(if m AND EPOLLIN \<noteq> 0 then run_handler request_handle p s else Some s) = Some s1"
      "server_ok (active s) s1" "handled p s s1"
    proof (cases "m AND EPOLLIN \<noteq> 0")
      case True
      then obtain st c' w' where r: "request_handle c (sv_world s) = Some (st, c', w')" using ns ne hreq c(1) unfolding stuck_def by fastforce
      have "res_ok (c\<lparr>c_heap_idx := 0\<rparr>) (sv_world s)" using D(6) pa strip_idx_Some [OF c(1)] unfolding held_def by blast
      then have "res_ok c' w'" using request_handle_frame(3) [OF r] by (simp add: frame_idx)
      then show thesis using that run_handler_ok [OF ok pa c(1) handler_frames(1) r now(1)] True by auto
    qed (use ok that in simp)
    have eq: "handle_connection m p s = (if m AND EPOLLOUT \<noteq> 0 then run_handler response_handle p s1 else Some s1)"
      using c(1) ne s1(1) by (simp add: handle_connection_def)
    show ?thesis
    proof (cases "m AND EPOLLOUT \<noteq> 0")
      case False
      then show ?thesis using eq s1 active_handled [OF ok s1(2,3)] server_ok_mono [OF s1(2)] pa by (auto simp: server_inv_def)
    next
      case True
      obtain c1 where c1: "hs_conns s1 p = Some c1" using handled_live [OF s1(3,2) cok(2)] by blast
      have "response_handle c1 (sv_world s1) \<noteq> None" using ns ne c(1) True s1(1) c1 unfolding stuck_def by (auto split: if_splits)
      then obtain st c' w' where r: "response_handle c1 (sv_world s1) = Some (st, c', w')" by (metis not_None_eq prod_cases3)
      have "0 \<le> clock s1" using s1(3) now(1) by (simp add: handled_def same_setup_def)
      then obtain s2 where s2: "run_handler response_handle p s1 = Some s2" "server_ok (if st = ERROR \<and> \<not> res_ok c' w' then active s - {p} else active s) s2"
        "handled p s1 s2" "atime s2 p = (if st = ERROR then 0 else clock s1)"
        using run_handler_ok [OF s1(2) pa c1 handler_frames(2) r] by blast
      note h = handled_trans [OF s1(3) s2(3)]
      have "active s2 \<subseteq> (if st = ERROR \<and> \<not> res_ok c' w' then active s - {p} else active s)"
        using active_handled [OF ok s2(2) h] pa s2(4) by (auto simp: active_def)
      then have "server_inv s2" using server_ok_mono [OF s2(2)] by (simp add: server_inv_def)
      then show ?thesis using eq True s2(1) h by auto
    qed
  qed
qed

text \<open>The connections an event leaves alone.\<close>

definition spares :: "nat option \<Rightarrow> server \<Rightarrow> server \<Rightarrow> bool" where
  "spares d s s' \<longleftrightarrow> same_setup s s' \<and> (\<forall>q c. Some q \<noteq> d \<and> strip_idx s q = Some c \<longrightarrow> strip_idx s' q = Some c)"

lemma with_strangers:
  assumes inv: "server_inv s"
  shows "server_ok (active s \<union> - members s) s"
proof -
  have ok: "server_ok (active s) s" using inv by (simp add: server_inv_def)
  note D = server_okD [OF ok]
  have "p \<in> active s" if "p \<in> active s \<union> - members s" "strip_idx s p = Some c" for p c using that D(2) by (auto simp: dom_def)
  then have "held (active s \<union> - members s) (strip_idx s) (sv_world s)" using D(6) unfolding held_def by blast
  then show ?thesis using ok by (simp add: server_ok_def)
qed

lemma grown_inv:
  assumes inv: "server_inv s" and s': "server_ok (active s \<union> - members s) s'" "grown s s'"
  shows "server_inv s'"
proof -
  have D: "dom (strip_idx s) = members s" using inv server_okD(2) by (auto simp: server_inv_def)
  have "active s' \<subseteq> active s \<union> - members s"
  proof
    fix p assume p: "p \<in> active s'"
    show "p \<in> active s \<union> - members s"
    proof (cases "p \<in> members s")
      case True
      then have d: "p \<in> dom (strip_idx s)" using D by simp
      then have "strip_idx s' p = strip_idx s p" using s'(2) by (auto simp: grown_def map_le_def)
      moreover from this have "p \<in> dom (strip_idx s')" using d by auto
      ultimately have "atime s' p = atime s p" using d by (simp add: atime_strip)
      then show ?thesis using p True by (simp add: active_def)
    qed simp
  qed
  then show ?thesis using server_ok_mono [OF s'(1)] by (simp add: server_inv_def)
qed

lemma server_accept_inv:
  assumes inv: "server_inv s" and now: "0 \<le> clock s"
  shows "\<exists>s'. server_accept s = Some s' \<and> server_inv s' \<and> grown s s'"
  using server_accept_ok [OF with_strangers [OF inv] now] grown_inv [OF inv] by blast

lemma handle_event_ok:
  assumes inv: "server_inv s" and ev: "ev_ok s (m, d)" and now: "0 \<le> clock s" "timeout s < clock s"
  shows "(\<exists>s'. handle_event (m, d) s = Some s' \<and> server_inv s' \<and> spares d s s') \<or> (\<exists>p. d = Some p \<and> stuck m p s)"
proof (cases d)
  case None
  obtain s' where s': "server_accept s = Some s'" "server_inv s'" "grown s s'" using server_accept_inv [OF inv now(1)] by blast
  have "strip_idx s' q = Some c" if "strip_idx s q = Some c" for q c
    using s'(3) that domI [of "strip_idx s" q c] by (simp add: grown_def map_le_def)
  then have "spares d s s'" using s'(3) by (simp add: spares_def grown_def)
  then show ?thesis using s' None by (auto simp: handle_event_def event_fd_def)
next
  case (Some p)
  have ok: "server_ok (active s) s" using inv by (simp add: server_inv_def)
  note D = server_okD [OF ok]
  obtain c where c: "hs_conns s p = Some c" using ev Some strip_conn [of s p] by (auto simp: ev_ok_def)
  have "c_fd c \<noteq> sv_listen_fd s" using D(5) D(7) [OF c] by (auto simp: conns_ok_def listening_def conn_ok_def sock_at_def)
  then have eq: "handle_event (m, d) s = handle_connection m p s" using c Some by (simp add: handle_event_def event_fd_def)
  show ?thesis using handle_connection_ok [OF inv _ now, of m p] ev Some unfolding eq by (auto simp: handled_def spares_def)
qed

lemma ev_ok_spared:
  assumes "ev_ok s (m, d)" and "spares e s s'" and "d = None \<or> d \<noteq> e"
  shows "ev_ok s' (m, d)"
  using assms unfolding ev_ok_def spares_def by (metis fst_conv option.distinct(1) snd_conv)

section \<open>A round of the loop\<close>

lemma handle_events_ok:
  "server_inv s \<Longrightarrow> \<forall>ev \<in> set evs. ev_ok s ev \<Longrightarrow> distinct (map snd evs) \<Longrightarrow> 0 \<le> clock s \<Longrightarrow> timeout s < clock s \<Longrightarrow>
   (\<exists>s'. handle_events evs s = Some s' \<and> server_inv s' \<and> same_setup s s') \<or>
   (\<exists>pre m p post s1. evs = pre @ (m, Some p) # post \<and> handle_events pre s = Some s1 \<and> server_inv s1 \<and> stuck m p s1)"
proof (induction evs arbitrary: s)
  case (Cons ev evs)
  obtain m d where e: "ev = (m, d)" by fastforce
  from handle_event_ok [OF Cons.prems(1) _ Cons.prems(4,5), of m d] Cons.prems(2) e
  consider s1 where "handle_event ev s = Some s1" "server_inv s1" "spares d s s1" | p where "d = Some p" "stuck m p s" by auto
  then show ?case
  proof cases
    case 1
    have su: "same_setup s s1" using 1(3) by (simp add: spares_def)
    have "ev_ok s1 ev'" if "ev' \<in> set evs" for ev'
      by (cases ev') (use that Cons.prems(2,3) e ev_ok_spared [OF _ 1(3)] in force)
    then have "(\<exists>s'. handle_events evs s1 = Some s' \<and> server_inv s' \<and> same_setup s1 s') \<or>
      (\<exists>pre m p post s2. evs = pre @ (m, Some p) # post \<and> handle_events pre s1 = Some s2 \<and> server_inv s2 \<and> stuck m p s2)"
      using Cons.prems(3-5) su by (intro Cons.IH [OF 1(2)]) (auto simp: same_setup_def)
    then show ?thesis
    proof (elim disjE exE conjE)
      fix s' assume "handle_events evs s1 = Some s'" "server_inv s'" "same_setup s1 s'"
      then show ?thesis using 1(1) same_setup_trans [OF su] by auto
    next
      fix pre m' p post s2 assume "evs = pre @ (m', Some p) # post" "handle_events pre s1 = Some s2" "server_inv s2" "stuck m' p s2"
      then have "ev # evs = (ev # pre) @ (m', Some p) # post" "handle_events (ev # pre) s = Some s2" using 1(1) by simp_all
      with \<open>server_inv s2\<close> \<open>stuck m' p s2\<close> show ?thesis by blast
    qed
  next
    case 2
    then have "ev # evs = [] @ (m, Some p) # evs" "handle_events [] s = Some s" using e by simp_all
    with 2(2) Cons.prems(1) show ?thesis by blast
  qed
qed simp

text \<open>
  What \<open>epoll_wait\<close> may report: entries for distinct registered descriptors, each with the pointer it
  was registered with, and events that were asked for, or an error or hang-up.
\<close>

definition epoll_reports :: "'x kernel_scheme \<Rightarrow> (32 word \<times> nat option) list \<Rightarrow> bool" where
  "epoll_reports k evs \<longleftrightarrow> (\<exists>fds. distinct fds \<and>
     list_all2 (\<lambda>f ev. \<exists>m. k_epoll k f = Some (m, snd ev) \<and> fst ev AND NOT (m OR 0x18) = 0) fds evs)"

lemma registered:
  assumes ok: "conns_ok C w l" and ev: "k_epoll w f = Some (m, d)"
  shows "f = (case d of None \<Rightarrow> l | Some p \<Rightarrow> c_fd (the (C p)))" and "d = Some p \<Longrightarrow> \<exists>c. C p = Some c \<and> c_events c = m"
proof -
  have "f = l \<and> d = None \<or> (\<exists>p c. d = Some p \<and> C p = Some c \<and> c_fd c = f \<and> c_events c = m)"
  proof (cases "f = l")
    case True
    then show ?thesis using ok ev by (simp add: conns_ok_def listening_def)
  next
    case False
    then obtain p c where pc: "C p = Some c" "c_fd c = f" using conns_ok_reg [OF ok ev] by blast
    then show ?thesis using conns_okD [OF ok pc(1)] ev by (auto simp: conn_ok_def input_ok_def interest_ok_def event_of_def)
  qed
  then show "f = (case d of None \<Rightarrow> l | Some p \<Rightarrow> c_fd (the (C p)))" "d = Some p \<Longrightarrow> \<exists>c. C p = Some c \<and> c_events c = m" by auto
qed

lemma reports_ok:
  assumes inv: "server_inv s" and rep: "epoll_reports (sv_world s) evs"
  shows "\<forall>ev \<in> set evs. ev_ok s ev" and "distinct (map snd evs)"
proof -
  have ok: "conns_ok (strip_idx s) (sv_world s) (sv_listen_fd s)" using inv server_okD(5) by (auto simp: server_inv_def)
  obtain fds where fds: "distinct fds"
    "list_all2 (\<lambda>f ev. \<exists>m. k_epoll (sv_world s) f = Some (m, snd ev) \<and> fst ev AND NOT (m OR 0x18) = 0) fds evs"
    using rep by (auto simp: epoll_reports_def)
  let ?g = "\<lambda>d. case d of None \<Rightarrow> sv_listen_fd s | Some p \<Rightarrow> c_fd (the (strip_idx s p))"
  have "fds = map ?g (map snd evs)"
    using fds(2) registered(1) [OF ok] by (intro list_eq_iff_nth_eq [THEN iffD2]) (auto simp: list_all2_conv_all_nth)
  then show "distinct (map snd evs)" using fds(1) by (metis distinct_map)
  show "\<forall>ev \<in> set evs. ev_ok s ev"
  proof
    fix ev assume "ev \<in> set evs"
    then obtain f m where m: "k_epoll (sv_world s) f = Some (m, snd ev)" "fst ev AND NOT (m OR 0x18) = 0"
      using fds(2) by (auto simp: list_all2_conv_all_nth in_set_conv_nth)
    have "bit m 0" if "fst ev AND EPOLLIN \<noteq> 0"
    proof -
      have "bit (fst ev) 0" using that and_exp_eq_0_iff_not_bit [of "fst ev" 0] by simp
      moreover have "\<not> bit (fst ev AND NOT (m OR 0x18)) 0" using m(2) by simp
      ultimately show ?thesis by (simp add: bit_simps)
    qed
    then show "ev_ok s ev" using registered(2) [OF ok m(1)] by (auto simp: ev_ok_def is_in_bit)
  qed
qed

definition stops_at :: "(32 word \<times> nat option) list \<Rightarrow> server \<Rightarrow> bool" where
  "stops_at evs s \<longleftrightarrow> (\<exists>pre m p post s1. evs = pre @ (m, Some p) # post \<and> handle_events pre s = Some s1 \<and> server_inv s1 \<and> stuck m p s1)"

lemma handle_events_append: "handle_events (evs @ evs') s = handle_events evs s \<bind> handle_events evs'"
proof (induction evs arbitrary: s)
  case (Cons ev evs)
  then show ?case by (cases "handle_event ev s") simp_all
qed simp

lemma stuck_none:
  assumes inv: "server_inv s" and st: "stuck m p s"
  shows "handle_event (m, Some p) s = None"
proof -
  have ok: "server_ok (active s) s" using inv by (simp add: server_inv_def)
  note D = server_okD [OF ok]
  obtain c where c: "hs_conns s p = Some c" "\<not> connecion_is_expired c s"
    "m AND EPOLLIN \<noteq> 0 \<and> request_handle c (sv_world s) = None \<or>
     m AND EPOLLOUT \<noteq> 0 \<and> (\<exists>s1 c1. (if m AND EPOLLIN \<noteq> 0 then run_handler request_handle p s = Some s1 else s1 = s) \<and>
        hs_conns s1 p = Some c1 \<and> response_handle c1 (sv_world s1) = None)"
    using st by (auto simp: stuck_def)
  have "c_fd c \<noteq> sv_listen_fd s" using D(5) D(7) [OF c(1)] by (auto simp: conns_ok_def listening_def conn_ok_def sock_at_def)
  then have eq: "handle_event (m, Some p) s = handle_connection m p s" using c(1) by (simp add: handle_event_def event_fd_def)
  from c(3) show ?thesis
  proof (elim disjE conjE exE)
    assume "m AND EPOLLIN \<noteq> 0" "request_handle c (sv_world s) = None"
    then show ?thesis unfolding eq using c(1,2) by (simp add: handle_connection_def run_handler_def)
  next
    fix s1 c1 assume "m AND EPOLLOUT \<noteq> 0" "if m AND EPOLLIN \<noteq> 0 then run_handler request_handle p s = Some s1 else s1 = s"
      "hs_conns s1 p = Some c1" "response_handle c1 (sv_world s1) = None"
    then show ?thesis unfolding eq using c(1,2)
      by (cases "m AND EPOLLIN = 0") (simp_all add: handle_connection_def run_handler_def [of response_handle])
  qed
qed

lemma stops_at_none: "stops_at evs s \<Longrightarrow> main_loop evs s = None"
  unfolding stops_at_def main_loop_def using stuck_none by (auto simp: handle_events_append)

lemma main_loop_ok:
  assumes inv: "server_inv s" and rep: "epoll_reports (sv_world s) evs" and now: "0 \<le> clock s" "timeout s < clock s"
  shows "(\<exists>s'. main_loop evs s = Some s' \<and> server_inv s' \<and> same_setup s s' \<and>
      (\<forall>p \<in> members s'. clock s - atime s' p < timeout s)) \<or> stops_at evs s"
proof (cases "stops_at evs s")
  case False
  then obtain s1 where s1: "handle_events evs s = Some s1" "server_inv s1" "same_setup s s1"
    using handle_events_ok [OF inv reports_ok [OF inv rep] now] unfolding stops_at_def by blast
  then have ok: "server_ok (active s1) s1" by (simp add: server_inv_def)
  from prune_ok [OF ok] obtain s' where s': "connection_prune s1 = Some s'" "pruning (active s1) s1 s'"
    "members s' = {q \<in> members s1. clock s1 - atime s1 q < timeout s1}" "\<forall>q \<in> members s'. atime s' q = atime s1 q" by blast
  then have "active s' \<subseteq> active s1" by (auto simp: active_def)
  then have "server_inv s'" using s'(2) server_ok_mono by (auto simp: pruning_def server_inv_def)
  moreover have "same_setup s s'" using s'(2) same_setup_trans [OF s1(3)] by (simp add: pruning_def)
  moreover have "main_loop evs s = Some s'" using s1(1) s'(1) by (simp add: main_loop_def)
  moreover have "\<forall>p \<in> members s'. clock s - atime s' p < timeout s" using s'(3,4) s1(3) by (simp add: same_setup_def)
  ultimately show ?thesis by blast
qed simp

section \<open>Reachable states\<close>

text \<open>
  What may happen while the loop waits: the clock goes on, and the kernel gets new answers for every
  socket, path, file and allocation; what is open stays open and registered.
\<close>

definition env_step :: "world \<Rightarrow> world \<Rightarrow> bool" where
  "env_step w w' \<longleftrightarrow> fds_kept w w' \<and> k_epoll w' = k_epoll w \<and> k_now w \<le> k_now w' \<and> g_rootdir_fd w' = g_rootdir_fd w \<and>
     g_status_table w' = g_status_table w \<and> g_mime_dict w' = g_mime_dict w \<and> g_err_page w' = g_err_page w \<and> w_header_dict w' = w_header_dict w"

inductive reaches :: "server \<Rightarrow> server \<Rightarrow> bool" for s0 where
  start: "reaches s0 s0"
| waits: "reaches s0 s \<Longrightarrow> env_step (sv_world s) w \<Longrightarrow> reaches s0 (s\<lparr>sv_world := w\<rparr>)"
| turn: "reaches s0 s \<Longrightarrow> epoll_reports (sv_world s) evs \<Longrightarrow> main_loop evs s = Some s' \<Longrightarrow> reaches s0 s'"

inductive_cases reachesE: "reaches s0 s"

lemma env_step_inv:
  fixes s :: server
  assumes "server_inv s" and "env_step (sv_world s) w"
  shows "server_inv (s\<lparr>sv_world := w\<rparr>)"
proof -
  have "active (s\<lparr>sv_world := w\<rparr>) = active s" by (simp add: active_def)
  then show ?thesis using assms conns_ok_frame [of "sv_world s" w] by (simp add: server_inv_def server_ok_def env_step_def)
qed

text \<open>The tables the request handlers rely on.\<close>

definition tables_set :: "world \<Rightarrow> bool" where
  "tables_set w \<longleftrightarrow> tables_ok w \<and> handlers_ok w"

lemma reaches_inv:
  assumes "reaches s0 s" and "server_inv s0" and "tables_set (sv_world s0)" and "0 \<le> clock s0" and "timeout s0 < clock s0"
  shows "server_inv s \<and> tables_set (sv_world s) \<and> sv_config s = sv_config s0 \<and> sv_listen_fd s = sv_listen_fd s0 \<and> clock s0 \<le> clock s \<and>
    mp_block_num (sv_pool s) = mp_block_num (sv_pool s0)"
  using assms(1)
proof (induction rule: reaches.induct)
  case start
  then show ?case using assms by simp
next
  case (waits s w)
  then show ?case using env_step_inv [of s w] by (auto simp: env_step_def tables_set_def tables_ok_def handlers_ok_def)
next
  case (turn s evs s')
  then have "server_inv s' \<and> same_setup s s'"
  proof -
    have "0 \<le> clock s" "timeout s < clock s" using turn.IH assms(4,5) by auto
    from main_loop_ok [OF _ turn.hyps(2) this] turn.IH show ?thesis
      using turn.hyps(3) stops_at_none [of evs s] by auto
  qed
  then show ?case using turn.IH by (auto simp: same_setup_def tables_set_def tables_ok_def handlers_ok_def)
qed

end
