(* ===== verification/Startup.thy ===== *)
theory Startup
  imports Event_Loop
begin

text \<open>
  From the start of a worker to its event loop. \<open>server_setup\<close> establishes the invariant the loop keeps;
  together they give the properties of the running server: memory safety of the loop, exact
  pruning, and what accepting a connection does.
\<close>

section \<open>Setting up\<close>

text \<open>A process that has read its configuration and set up nothing else.\<close>

definition unstarted :: "server \<Rightarrow> bool" where
  "unstarted s \<longleftrightarrow> heap_size s = 0 \<and> hs_conns s = Map.empty \<and> k_epoll (sv_world s) = Map.empty \<and> 0 \<le> g_rootdir_fd (sv_world s) \<and>
     (\<exists>d off. fd_lookup (sv_world s) (g_rootdir_fd (sv_world s)) = Some (Fd_file d off))"

text \<open>When the start has to fail: no error page under the document root, no memory, or no listening socket.\<close>

definition cannot_start :: "start_answers \<Rightarrow> world \<Rightarrow> bool" where
  "cannot_start a w \<longleftrightarrow> fst (sys_openat (g_rootdir_fd w) ''error.html'' w) = ERROR \<or> \<not> fst (next_malloc w) \<or>
     \<not> sa_calloc a \<or> \<not> sa_socket a \<or> \<not> sa_bind a \<or> \<not> sa_listen a \<or> \<not> sa_epoll a \<or> \<not> k_epoll_room w"

lemma fd_update_kept: "fd_lookup w f = None \<Longrightarrow> fds_kept w (fd_update f ob w)" for w :: world
  by (auto simp: fds_kept_def split: fd_object.splits)

lemma fds_kept_trans:
  assumes "fds_kept w w1" and "fds_kept w1 w2"
  shows "fds_kept w w2"
  unfolding fds_kept_def
proof (intro allI impI)
  fix f ob assume f: "fd_lookup w f = Some ob"
  show "case ob of Fd_sock _ \<Rightarrow> \<exists>s. fd_lookup w2 f = Some (Fd_sock s) | _ \<Rightarrow> fd_lookup w2 f = Some ob"
  proof (cases ob)
    case (Fd_sock s)
    then obtain s' where "fd_lookup w1 f = Some (Fd_sock s')" using assms(1) f unfolding fds_kept_def by fastforce
    then show ?thesis using assms(2) Fd_sock unfolding fds_kept_def by fastforce
  qed (use assms f in \<open>fastforce simp: fds_kept_def\<close>)+
qed

lemma err_page_init_cases:
  fixes w :: world
  shows "(fst (sys_openat (g_rootdir_fd w) ''error.html'' w) = ERROR \<or> \<not> fst (next_malloc w)) \<and> err_page_init w = Some None \<or>
    \<not> (fst (sys_openat (g_rootdir_fd w) ''error.html'' w) = ERROR \<or> \<not> fst (next_malloc w)) \<and>
    (\<exists>fds ms ep. err_page_init w = Some (Some (w\<lparr>k_fds := fds, k_malloc := ms, g_err_page := ep\<rparr>)) \<and> fds_kept w (w\<lparr>k_fds := fds\<rparr>))"
proof -
  obtain f w1 where op: "sys_openat (g_rootdir_fd w) ''error.html'' w = (f, w1)" by fastforce
  show ?thesis
  proof (cases "f = ERROR")
    case True
    then show ?thesis using op by (simp add: err_page_init_def)
  next
    case False
    then obtain i where i: "f = new_fd w" "w1 = fd_update (new_fd w) (Fd_file i 0) w" using sys_openat_cases [OF op] by auto
    obtain st where st: "sys_fstat f w1 = Some st" using i by (simp add: sys_fstat_def)
    obtain ok w2 where m: "next_malloc w1 = (ok, w2)" by fastforce
    have m': "fst (next_malloc w) = ok" "\<exists>ms. w2 = w1\<lparr>k_malloc := ms\<rparr>"
      using m i(2) by (cases "k_malloc w"; auto simp: next_malloc_def fd_update_def intro: exI [of _ "[]"])+
    show ?thesis
    proof (cases ok)
      case False
      then show ?thesis using op \<open>f \<noteq> ERROR\<close> st m m'(1) by (simp add: err_page_init_def buffer_init_def buffer_new_def)
    next
      case True
      obtain ms where ms: "w2 = w1\<lparr>k_malloc := ms\<rparr>" using m'(2) by blast
      obtain b where b: "buffer_init True = Some b" by (simp add: buffer_init_def buffer_new_def)
      have "fd_lookup w2 f = Some (Fd_file i 0)" using i ms fd_lookup_cong [of w2 w1] by simp
      then obtain ep where "err_page_init w = Some (Some (w2\<lparr>g_err_page := ep\<rparr>))"
        using op \<open>f \<noteq> ERROR\<close> st m True b by (simp add: err_page_init_def)
      moreover have "w2\<lparr>g_err_page := ep\<rparr> = w\<lparr>k_fds := k_fds w1, k_malloc := ms, g_err_page := ep\<rparr>" using i ms by (simp add: fd_update_def)
      moreover have "w\<lparr>k_fds := k_fds w1\<rparr> = w1" using i by (simp add: fd_update_def)
      then have "fds_kept w (w\<lparr>k_fds := k_fds w1\<rparr>)" using i fd_update_kept [OF new_fd_fresh] by simp
      ultimately show ?thesis using m'(1) True op \<open>f \<noteq> ERROR\<close> by auto
    qed
  qed
qed

text \<open>The sockets: both descriptors are new, so what was open stays open.\<close>

lemma sockets_made:
  fixes w :: world
  assumes "k_epoll w = Map.empty" and "make_server_socket a w = (l, w1)" and "lotos_epoll_create a w1 = (e, w2)"
    and "add_listen_fd l w2 = (st, w3)" and "l \<noteq> ERROR" and "e \<noteq> ERROR" and "st \<noteq> ERROR"
  shows "\<exists>fds. w3 = w\<lparr>k_fds := fds, k_epoll := [l \<mapsto> (EPOLLIN, None)]\<rparr>" and "fds_kept w w3"
    and "0 \<le> l" and "fd_lookup w3 l = Some Fd_other"
proof -
  have l: "l = new_fd w" "w1 = fd_update l Fd_other w" using assms(2,5) by (auto simp: make_server_socket_def Let_def split: if_splits)
  have e: "e = new_fd w1" "w2 = fd_update e Fd_other w1" using assms(3,6) by (auto simp: lotos_epoll_create_def split: if_splits)
  have k: "k_epoll w2 = Map.empty" using assms(1) l e by simp
  then have w3: "w3 = w2\<lparr>k_epoll := [l \<mapsto> (EPOLLIN, None)]\<rparr>" using assms(4,7) by (auto simp: add_listen_fd_def epoll_ctl_def split: if_splits)
  have lk: "fd_lookup w3 = fd_lookup w2" by (rule fd_lookup_cong) (simp add: w3)
  have "w3 = w\<lparr>k_fds := k_fds w2, k_epoll := [l \<mapsto> (EPOLLIN, None)]\<rparr>" using w3 l e by (simp add: fd_update_def)
  then show "\<exists>fds. w3 = w\<lparr>k_fds := fds, k_epoll := [l \<mapsto> (EPOLLIN, None)]\<rparr>" by blast
  have "fd_lookup w l = None" "fd_lookup w1 e = None" unfolding l(1) e(1) by (rule new_fd_fresh)+
  then have "fds_kept w w1" "fds_kept w1 w2" using l(2) e(2) fd_update_kept by blast+
  then show "fds_kept w w3" using fds_kept_trans lk fds_kept_same [of w3 w2] by blast
  show "0 \<le> l" using l by simp
  have "e \<noteq> l" using e l new_fd_fresh [of w1] by auto
  then show "fd_lookup w3 l = Some Fd_other" using lk e l by simp
qed

lemma setup_cond:
  fixes w :: world
  shows "fst (sys_openat r p (w\<lparr>g_mime_dict := dm, w_header_dict := dh, g_status_table := t\<rparr>)) = fst (sys_openat r p w)"
    and "fst (next_malloc (w\<lparr>g_mime_dict := dm, w_header_dict := dh, g_status_table := t\<rparr>)) = fst (next_malloc w)"
proof -
  let ?w = "w\<lparr>g_mime_dict := dm, w_header_dict := dh, g_status_table := t\<rparr>"
  have "fd_lookup ?w = fd_lookup w" by (rule fd_lookup_cong) simp
  moreover have "new_fd ?w = new_fd w" by (simp add: new_fd_def)
  ultimately show "fst (sys_openat r p ?w) = fst (sys_openat r p w)" by (auto simp: sys_openat_def split: option.splits fd_object.splits)
  show "fst (next_malloc ?w) = fst (next_malloc w)" by (auto simp: next_malloc_def split: list.splits)
qed

lemma setup_sockets_ok:
  assumes un: "unstarted s" and own: "pool.owns pool {}" "mp_block_num pool = 1024"
    and w: "fds_kept (sv_world s) w" "k_epoll w = Map.empty" "g_rootdir_fd w = g_rootdir_fd (sv_world s)"
  shows "if \<not> sa_socket a \<or> \<not> sa_bind a \<or> \<not> sa_listen a \<or> \<not> sa_epoll a \<or> \<not> k_epoll_room w then setup_sockets a pool w s = None
    else \<exists>s' fds l. setup_sockets a pool w s = Some s' \<and> server_inv s' \<and> members s' = {} \<and> sv_config s' = sv_config s \<and>
      mp_block_num (sv_pool s') = 1024 \<and> sv_world s' = w\<lparr>k_fds := fds, k_epoll := [l \<mapsto> (EPOLLIN, None)]\<rparr>"
proof -
  obtain l w1 where l: "make_server_socket a w = (l, w1)" by fastforce
  obtain e w2 where e: "lotos_epoll_create a w1 = (e, w2)" by fastforce
  obtain st w3 where st: "add_listen_fd l w2 = (st, w3)" by fastforce
  have eq: "setup_sockets a pool w s = (if l = ERROR \<or> e = ERROR \<or> st = ERROR then None
      else Some (s\<lparr>sv_world := w3, sv_pool := pool, sv_listen_fd := l\<rparr>))"
    using l e st by (simp add: setup_sockets_def)
  have fail: "(\<not> sa_socket a \<or> \<not> sa_bind a \<or> \<not> sa_listen a) = (l = ERROR)" using l by (auto simp: make_server_socket_def Let_def split: if_splits)
  moreover have "(\<not> sa_epoll a) = (e = ERROR)" using e by (auto simp: lotos_epoll_create_def split: if_splits)
  moreover have "k_epoll_room w2 = k_epoll_room w" "k_epoll w2 = Map.empty"
    using w(2) l e by (auto simp: make_server_socket_def lotos_epoll_create_def fd_update_def Let_def split: if_splits)
  then have "(\<not> k_epoll_room w) = (st = ERROR)" using st by (auto simp: add_listen_fd_def epoll_ctl_def split: if_splits)
  ultimately have cond: "(\<not> sa_socket a \<or> \<not> sa_bind a \<or> \<not> sa_listen a \<or> \<not> sa_epoll a \<or> \<not> k_epoll_room w) = (l = ERROR \<or> e = ERROR \<or> st = ERROR)"
    by blast
  show ?thesis
  proof (cases "l = ERROR \<or> e = ERROR \<or> st = ERROR")
    case False
    then have ne: "l \<noteq> ERROR" "e \<noteq> ERROR" "st \<noteq> ERROR" by auto
    note m = sockets_made [OF w(2) l e st ne]
    obtain fds where fds: "w3 = w\<lparr>k_fds := fds, k_epoll := [l \<mapsto> (EPOLLIN, None)]\<rparr>" using m(1) by blast
    obtain d off where root: "0 \<le> g_rootdir_fd (sv_world s)" "fd_lookup (sv_world s) (g_rootdir_fd (sv_world s)) = Some (Fd_file d off)"
      using un by (auto simp: unstarted_def)
    have "fd_lookup w3 (g_rootdir_fd w3) = Some (Fd_file d off)" "g_rootdir_fd w3 = g_rootdir_fd (sv_world s)"
      using fds_keptD(3) [OF fds_kept_trans [OF w(1) m(2)] root(2)] fds w(3) by simp_all
    then have listen: "listening l w3" using m(3,4) root(1) fds unfolding listening_def by (auto intro: exI [of _ d])
    let ?s = "s\<lparr>sv_world := w3, sv_pool := pool, sv_listen_fd := l\<rparr>"
    have empty: "members ?s = {}" "strip_idx ?s = Map.empty" "heap_inv ?s"
      using un by (auto simp: unstarted_def members_def strip_idx_def heap_inv_def heap_wf_def ord_heap_def)
    have "conns_ok Map.empty w3 l" using listen by (intro conns_okI) (auto simp: fds split: if_splits)
    then have "server_inv ?s" using empty own by (auto simp: server_inv_def server_ok_def held_def)
    then show ?thesis using cond False eq empty(1) fds own(2) by (auto intro!: exI [of _ l])
  qed (use cond eq in auto)
qed

lemma server_setup_ok:
  assumes un: "unstarted s" and fits: "pool_fits 1024 sz"
  shows "if cannot_start a (sv_world s) then server_setup a sz s = Some None
    else \<exists>s'. server_setup a sz s = Some (Some s') \<and> server_inv s' \<and> members s' = {} \<and> tables_set (sv_world s') \<and>
      mp_block_num (sv_pool s') = 1024 \<and> k_epoll_room (sv_world s') \<and>
      sv_config s' = sv_config s \<and> clock s' = clock s \<and> k_pending (sv_world s') = k_pending (sv_world s)"
proof -
  let ?w = "sv_world s"
  obtain dm dh where tb: "put_mime dict_init mime_list = Some dm" "put_handlers dict_init hf_list = Some dh" using put_tables by auto
  define w0 where "w0 = ?w\<lparr>g_mime_dict := dm, w_header_dict := dh, g_status_table := fill_status (\<lambda>_. None) HTTP_STATUS_MAP\<rparr>"
  have r0: "g_rootdir_fd w0 = g_rootdir_fd ?w" "k_epoll w0 = k_epoll ?w" "k_epoll_room w0 = k_epoll_room ?w"
    and lk: "fds_kept ?w w0" by (simp_all add: w0_def) (rule fds_kept_same, rule fd_lookup_cong, simp)
  have c0: "fst (sys_openat (g_rootdir_fd w0) ''error.html'' w0) = fst (sys_openat (g_rootdir_fd ?w) ''error.html'' ?w)"
    "fst (next_malloc w0) = fst (next_malloc ?w)" unfolding r0 unfolding w0_def by (rule setup_cond)+
  have eq: "server_setup a sz s = do { page \<leftarrow> err_page_init w0; case page of None \<Rightarrow> Some None
      | Some w \<Rightarrow> do { created \<leftarrow> pool_create (sa_calloc a) 1024 sz;
          case created of Create_exit \<Rightarrow> Some None | Create_ok pool \<Rightarrow> Some (setup_sockets a pool w s) } }"
    unfolding server_setup_def mime_dict_init_def header_handler_dict_init_def status_table_init_def by (simp add: tb w0_def)
  show ?thesis
  proof (cases "fst (sys_openat (g_rootdir_fd ?w) ''error.html'' ?w) = ERROR \<or> \<not> fst (next_malloc ?w) \<or> \<not> sa_calloc a")
    case True
    then show ?thesis using err_page_init_cases [of w0] eq c0 by (auto simp: cannot_start_def pool_create_def)
  next
    case False
    obtain fds ms ep where e: "err_page_init w0 = Some (Some (w0\<lparr>k_fds := fds, k_malloc := ms, g_err_page := ep\<rparr>))" "fds_kept w0 (w0\<lparr>k_fds := fds\<rparr>)"
      using err_page_init_cases [of w0] c0 False by auto
    let ?v = "w0\<lparr>k_fds := fds, k_malloc := ms, g_err_page := ep\<rparr>"
    have "fd_lookup ?v = fd_lookup (w0\<lparr>k_fds := fds\<rparr>)" by (rule fd_lookup_cong) simp
    then have kept: "fds_kept ?w ?v" using fds_kept_trans [OF lk fds_kept_trans [OF e(2) fds_kept_same]] by blast
    obtain pl where pl: "pool_create True 1024 sz = Some (Create_ok pl)" using pool_create_ok [of 1024 sz] fits by (auto simp: pool_fits_def)
    note own = pool_run_owns [OF fits pool_run.create [OF pl]]
    have v: "k_epoll ?v = Map.empty" "g_rootdir_fd ?v = g_rootdir_fd ?w" "k_epoll_room ?v = k_epoll_room ?w"
      "k_now ?v = k_now ?w" "k_pending ?v = k_pending ?w" using un r0 by (simp_all add: unstarted_def w0_def)
    have run: "server_setup a sz s = Some (setup_sockets a pl ?v s)" using eq e(1) pl False by simp
    have "tables_set ?v" using tb by (simp add: tables_set_def tables_ok_def handlers_ok_def w0_def)
    then show ?thesis using setup_sockets_ok [OF un _ _ kept v(1,2), of pl a] own run v(3-) False
      by (auto simp: cannot_start_def tables_set_def tables_ok_def handlers_ok_def)
  qed
qed

section \<open>Properties\<close>


text \<open>A process for concrete runs: the document root is open, one client waits to be accepted.\<close>

definition boot_world :: "int \<Rightarrow> world" where
  "boot_world now = \<lparr>k_fds = [(3, Fd_file 0 0)], k_epoll = Map.empty, k_epoll_room = True,
     k_pending = [Some \<lparr>s_in = [], s_send = [], s_out = []\<rparr>],
     k_namei = (\<lambda>d p. if d = 0 \<and> p = ''error.html'' then Some 1 else None),
     k_inode = (\<lambda>i. if i = 1 then Regular ''%s'' else Directory 4096), k_now = now, k_realloc = [], k_malloc = replicate 9 True,
     g_rootdir_fd = 3, g_status_table = (\<lambda>_. None), g_mime_dict = dict_init,
     g_err_page = \<lparr>err_page_fd = - 1, raw_err_page = [], raw_page_size = 0, rendered_err_page = buf_of [], rendered_page_size = 0\<rparr>,
     w_header_dict = dict_init\<rparr>"

definition boot :: "int \<Rightarrow> server" where
  "boot now = \<lparr>hs_conns = Map.empty, lotos_connections = (\<lambda>_. None), heap_size = 0, sv_world = boot_world now,
     sv_pool = \<lparr>mp_block_num = 0, mp_block_size = 0, mp_block_allocated = 0, mp_next = None, mp_blocks = None\<rparr>,
     sv_config = server_config, sv_listen_fd = - 1, sv_block = (\<lambda>_. demo_conn)\<rparr>"

definition all_granted :: start_answers where
  "all_granted = \<lparr>sa_socket = True, sa_bind = True, sa_listen = True, sa_epoll = True, sa_calloc = True\<rparr>"

lemma boot_unstarted: "unstarted (boot now)"
  by (simp add: unstarted_def boot_def boot_world_def fd_lookup_def)

lemma boot_can_start: "\<not> cannot_start all_granted (sv_world (boot now))"
proof -
  have "fst (sys_openat 3 ''error.html'' (boot_world now)) = new_fd (boot_world now)" by (simp add: sys_openat_def fd_lookup_def boot_world_def)
  then have "fst (sys_openat 3 ''error.html'' (boot_world now)) \<noteq> ERROR" by simp
  moreover have "fst (next_malloc (boot_world now))" by (simp add: next_malloc_def boot_world_def numeral_eq_Suc)
  ultimately show ?thesis by (simp add: cannot_start_def boot_def) (simp add: all_granted_def boot_world_def)
qed

lemma pool_fits_conn: "pool_fits 1024 500"
  by (simp add: pool_fits_def)


lemma worker_state:
  assumes "unstarted s" and "pool_fits 1024 sz" and "server_setup a sz s = Some (Some s0)"
    and "0 \<le> clock s" and "timeout s < clock s" and "reaches s0 s1"
  shows "server_inv s1" and "timeout s1 = timeout s" and "clock s \<le> clock s1" and "tables_set (sv_world s1)"
    and "mp_block_num (sv_pool s1) = 1024"
proof -
  have "\<not> cannot_start a (sv_world s)" using server_setup_ok [OF assms(1,2), of a] assms(3) by (auto split: if_splits)
  then have s0: "server_inv s0" "tables_set (sv_world s0)" "timeout s0 = timeout s" "clock s0 = clock s" "mp_block_num (sv_pool s0) = 1024"
    using server_setup_ok [OF assms(1,2), of a] assms(3) by auto
  then show "server_inv s1" "timeout s1 = timeout s" "clock s \<le> clock s1" "tables_set (sv_world s1)" "mp_block_num (sv_pool s1) = 1024"
    using reaches_inv [OF assms(6) s0(1,2)] assms(4,5) by auto
qed

text \<open>
  C2. Memory safety of the event loop. In every state a worker can reach after its start, whatever clients send, however
  the kernel answers and in whatever order it reports events: every pointer in the epoll set is that of a live
  connection in the heap, every registration is the one its connection has recorded, and the blocks taken
  from the pool are those of the live connections. A round of the loop does not return only if a request or response
  handler, called for a live connection, does not return; after a round no connection idle for the
  timeout is left.
\<close>

theorem event_loop_safe:
  assumes "unstarted s" and "pool_fits 1024 sz" and "server_setup a sz s = Some (Some s0)"
    and "0 \<le> clock s" and "timeout s < clock s" and "reaches s0 s1" and "epoll_reports (sv_world s1) evs"
  shows "(\<forall>f m p. k_epoll (sv_world s1) f = Some (m, Some p) \<longrightarrow>
      (\<exists>c. hs_conns s1 p = Some c \<and> p \<in> members s1 \<and> c_fd c = f \<and> c_events c = m)) \<and>
    dom (hs_conns s1) = members s1 \<and> heap_inv s1 \<and> pool.owns (sv_pool s1) (int ` members s1) \<and>
    (main_loop evs s1 = None \<longleftrightarrow> stops_at evs s1) \<and>
    (\<forall>s2. main_loop evs s1 = Some s2 \<longrightarrow> reaches s0 s2 \<and> (\<forall>p \<in> members s2. clock s1 - atime s2 p < timeout s1))"
proof -
  note s1 = worker_state [OF assms(1-6)]
  have ok: "server_ok (active s1) s1" using s1(1) by (simp add: server_inv_def)
  note D = server_okD [OF ok]
  have "\<exists>c. hs_conns s1 p = Some c \<and> p \<in> members s1 \<and> c_fd c = f \<and> c_events c = m" if ev: "k_epoll (sv_world s1) f = Some (m, Some p)" for f m p
  proof -
    obtain d where d: "strip_idx s1 p = Some d" "c_events d = m" "f = c_fd d" using registered [OF D(5) ev] by auto
    then show ?thesis using strip_conn [of s1 p d] D(7) [of p] by auto
  qed
  moreover have "dom (hs_conns s1) = dom (strip_idx s1)" by (auto simp: strip_idx_def dom_def)
  moreover have now: "0 \<le> clock s1" "timeout s1 < clock s1" using s1 assms(4,5) by auto
  note round = main_loop_ok [OF s1(1) assms(7) now] stops_at_none [of evs s1]
  then have "main_loop evs s1 = None \<longleftrightarrow> stops_at evs s1" by auto
  moreover have "reaches s0 s2 \<and> (\<forall>p \<in> members s2. clock s1 - atime s2 p < timeout s1)" if "main_loop evs s1 = Some s2" for s2
    using reaches.turn [OF assms(6,7) that] round that by auto
  ultimately show ?thesis using D by auto
qed

theorem event_loop_safe_witness:
  "\<exists>s0 s2. server_setup all_granted 500 (boot 100) = Some (Some s0) \<and> main_loop [(EPOLLIN, None)] s0 = Some s2 \<and> reaches s0 s2 \<and>
     dom (hs_conns s0) = members s0 \<and> pool.owns (sv_pool s0) {}"
proof -
  obtain s0 where s0: "server_setup all_granted 500 (boot 100) = Some (Some s0)" "server_inv s0" "members s0 = {}"
    using server_setup_ok [OF boot_unstarted pool_fits_conn, of all_granted 100] boot_can_start [of 100] by auto
  have "k_epoll (sv_world s0) (sv_listen_fd s0) = Some (EPOLLIN, None)"
    using s0(2) by (auto simp: server_inv_def server_ok_def conns_ok_def listening_def)
  then have rep: "epoll_reports (sv_world s0) [(EPOLLIN, None)]"
    unfolding epoll_reports_def by (intro exI [of _ "[sv_listen_fd s0]"]) simp
  have clk: "0 \<le> clock (boot 100)" "timeout (boot 100) < clock (boot 100)" by (simp_all add: boot_def boot_world_def server_config_def)
  note safe = event_loop_safe [OF boot_unstarted pool_fits_conn s0(1) clk reaches.start rep]
  have "\<not> stops_at [(EPOLLIN, None)] s0" by (auto simp: stops_at_def Cons_eq_append_conv)
  with safe obtain s2 where "main_loop [(EPOLLIN, None)] s0 = Some s2" by fastforce
  then show ?thesis using safe s0(1,3) by auto
qed

lemma live_strip: "dom (strip_idx s) = dom (hs_conns s)"
  by (auto simp: strip_idx_def dom_def)

lemma unused: "\<forall>q c. hs_conns s q = Some c \<longrightarrow> c_fd c \<noteq> fd \<Longrightarrow> strip_idx s q = Some d \<Longrightarrow> c_fd d \<noteq> fd"
proof -
  assume a: "\<forall>q c. hs_conns s q = Some c \<longrightarrow> c_fd c \<noteq> fd" and d: "strip_idx s q = Some d"
  obtain c where "hs_conns s q = Some c" "d = c\<lparr>c_heap_idx := 0\<rparr>" using d by (auto simp: strip_idx_def)
  then show ?thesis using a by fastforce
qed

lemma pruned:
  assumes ok: "server_ok A s"
  shows "\<exists>s'. connection_prune s = Some s' \<and> server_ok A s' \<and> members s' = {q \<in> members s. clock s - atime s q < timeout s} \<and>
    (\<forall>q \<in> members s'. atime s' q = atime s q \<and> strip_idx s' q = strip_idx s q) \<and>
    (\<forall>q c. hs_conns s q = Some c \<and> q \<notin> members s' \<longrightarrow>
       hs_conns s' q = None \<and> fd_lookup (sv_world s') (c_fd c) = None \<and> k_epoll (sv_world s') (c_fd c) = None)"
proof -
  from prune_ok [OF ok] obtain s' where s': "connection_prune s = Some s'" "pruning A s s'"
    "members s' = {q \<in> members s. clock s - atime s q < timeout s}" "\<forall>q \<in> members s'. atime s' q = atime s q" by blast
  then have ok': "server_ok A s'" and sub: "strip_idx s' \<subseteq>\<^sub>m strip_idx s" by (auto simp: pruning_def)
  note D = server_okD [OF ok']
  have "\<forall>q \<in> members s'. strip_idx s' q = strip_idx s q" using sub D(2) by (auto simp: map_le_def)
  moreover have "hs_conns s' q = None \<and> fd_lookup (sv_world s') (c_fd c) = None \<and> k_epoll (sv_world s') (c_fd c) = None"
    if q: "hs_conns s q = Some c" "q \<notin> members s'" for q c
  proof -
    have "hs_conns s' q = None" using D(2) live_strip [of s'] q(2) by (metis domIff)
    moreover have "c_fd (c\<lparr>c_heap_idx := 0\<rparr>) = c_fd c" by simp
    ultimately show ?thesis using s'(2) strip_idx_Some [OF q(1)] q(2) unfolding pruning_def by metis
  qed
  ultimately show ?thesis using s' ok' by blast
qed

text \<open>
  C6. Pruning is exact. \<open>connection_prune\<close> ends, and leaves exactly the connections that have been idle for less than
  the timeout, each unchanged but for its place in the heap. The socket of every other connection is
  closed and out of the epoll set, and its memory is back in the pool.
\<close>

theorem connection_prune_exact:
  assumes "server_inv s"
  shows "\<exists>s'. connection_prune s = Some s' \<and> server_inv s' \<and> members s' = {q \<in> members s. clock s - atime s q < timeout s} \<and>
    (\<forall>q \<in> members s'. strip_idx s' q = strip_idx s q) \<and> pool.owns (sv_pool s') (int ` members s') \<and>
    (\<forall>q c. hs_conns s q = Some c \<and> q \<notin> members s' \<longrightarrow>
       hs_conns s' q = None \<and> fd_lookup (sv_world s') (c_fd c) = None \<and> k_epoll (sv_world s') (c_fd c) = None)"
proof -
  have ok: "server_ok (active s) s" using assms by (simp add: server_inv_def)
  from pruned [OF ok] obtain s' where s': "connection_prune s = Some s'" "server_ok (active s) s'"
    "members s' = {q \<in> members s. clock s - atime s q < timeout s}" "\<forall>q \<in> members s'. atime s' q = atime s q \<and> strip_idx s' q = strip_idx s q"
    "\<forall>q c. hs_conns s q = Some c \<and> q \<notin> members s' \<longrightarrow>
       hs_conns s' q = None \<and> fd_lookup (sv_world s') (c_fd c) = None \<and> k_epoll (sv_world s') (c_fd c) = None" by blast
  have "active s' \<subseteq> active s" using s'(3,4) by (auto simp: active_def)
  then have "server_inv s'" using server_ok_mono [OF s'(2)] by (simp add: server_inv_def)
  then show ?thesis using s' server_okD(3) [OF s'(2)] by blast
qed

text \<open>
  C13. Accepting. For a socket that no connection has, \<open>connection_accept\<close> returns null exactly when the
  pool is used up, there is no memory for the buffers or the epoll set is full, and then every
  connection is as before. Otherwise it adds one connection, for that socket, registered with epoll under its own address.
\<close>

theorem connection_accept_correct:
  assumes "server_inv s" and "0 \<le> clock s" and "0 \<le> fd" and "sock_at fd (sv_world s) \<noteq> None" and "\<forall>q c. hs_conns s q = Some c \<longrightarrow> c_fd c \<noteq> fd"
  shows "\<exists>r s'. connection_accept fd s = Some (r, s') \<and> server_inv s' \<and> (r = None \<longleftrightarrow> no_memory s \<or> \<not> k_epoll_room (sv_world s)) \<and>
    (case r of None \<Rightarrow> members s' = members s \<and> strip_idx s' = strip_idx s
     | Some p \<Rightarrow> p \<notin> members s \<and> members s' = insert p (members s) \<and> (\<forall>q \<in> members s. strip_idx s' q = strip_idx s q) \<and>
        (\<exists>c. hs_conns s' p = Some c \<and> c_fd c = fd \<and> c_active_time c = clock s \<and> k_epoll (sv_world s') fd = Some (c_events c, Some p)))"
proof -
  let ?A = "active s \<union> - members s"
  have ok: "server_ok ?A s" by (rule with_strangers [OF assms(1)])
  have "c_fd d \<noteq> fd" if "strip_idx s q = Some d" for q d using unused [OF assms(5)] that by blast
  then obtain r s' where s': "connection_accept fd s = Some (r, s')" "accepted ?A fd s r s'" "r = None \<longleftrightarrow> no_memory s \<or> \<not> k_epoll_room (sv_world s)"
    using connection_accept_ok [OF ok assms(3,4) _ assms(2)] by blast
  have ok': "server_ok ?A s'" using s'(2) by (simp add: accepted_def)
  note D = server_okD [OF ok] and D' = server_okD [OF ok']
  have inv: "server_inv s'" by (rule grown_inv [OF assms(1) ok' accepted_grown [OF s'(2) ok]])
  show ?thesis
  proof (cases r)
    case None
    then have "strip_idx s' = strip_idx s" using s'(2) by (simp add: accepted_def)
    then show ?thesis using s'(1,3) inv None D(2) D'(2) by (intro exI [of _ r] exI [of _ s']) simp
  next
    case (Some p)
    then obtain c where c: "p \<notin> members s" "strip_idx s' = (strip_idx s)(p \<mapsto> c)" "c_fd c = fd" "c_active_time c = clock s"
      using s'(2) by (auto simp: accepted_def)
    then obtain i where i: "hs_conns s' p = Some (c\<lparr>c_heap_idx := i\<rparr>)" using strip_conn [of s' p c] by auto
    have "k_epoll (sv_world s') fd = Some (c_events c, Some p)"
      using D'(7) [OF i] c(3) by (simp add: conn_ok_def input_ok_def interest_ok_def event_of_def)
    then have "\<exists>c. hs_conns s' p = Some c \<and> c_fd c = fd \<and> c_active_time c = clock s \<and> k_epoll (sv_world s') fd = Some (c_events c, Some p)"
      using i c by (intro exI [of _ "c\<lparr>c_heap_idx := i\<rparr>"]) simp
    moreover have "members s' = insert p (members s)" using D(2) D'(2) c(2) by auto
    ultimately show ?thesis using s'(1,3) inv Some c(1,2) by (intro exI [of _ r] exI [of _ s']) auto
  qed
qed

text \<open>
  C33. A client that comes when the pool is used up is lost: \<open>connection_accept\<close> returns null without closing the socket, which stays
  open, outside the epoll set and outside every connection.
\<close>

theorem accept_leaks_socket:
  assumes "server_inv s" and "no_memory s" and "sock_at fd (sv_world s) \<noteq> None" and "\<forall>q c. hs_conns s q = Some c \<longrightarrow> c_fd c \<noteq> fd"
  shows "\<exists>s'. connection_accept fd s = Some (None, s') \<and> hs_conns s' = hs_conns s \<and>
    fd_lookup (sv_world s') fd = fd_lookup (sv_world s) fd \<and> k_epoll (sv_world s') fd = None"
proof -
  have ok: "server_ok (active s) s" using assms(1) by (simp add: server_inv_def)
  note D = server_okD [OF ok]
  obtain s' ms where s': "connection_init s = Some (None, s')" "sv_world s' = (sv_world s)\<lparr>k_malloc := ms\<rparr>" "hs_conns s' = hs_conns s"
    using connection_init_ok [OF ok] assms(2) by fastforce
  have "fd \<noteq> sv_listen_fd s" using assms(3) D(5) by (auto simp: conns_ok_def listening_def sock_at_def)
  moreover have "c_fd d \<noteq> fd" if "strip_idx s q = Some d" for q d using unused [OF assms(4)] that by blast
  ultimately have "k_epoll (sv_world s) fd = None" using conns_ok_reg [OF D(5), of fd] by (cases "k_epoll (sv_world s) fd") auto
  then show ?thesis using s' malloc_frame(3) [OF s'(2)] by (simp add: connection_accept_def connection_close_def)
qed

text \<open>
  Servers for concrete runs: the booted worker with a client's socket and given answers for its
  memory, and the same worker when it has accepted the client.
\<close>

lemma booted:
  "\<exists>s fd. server_inv s \<and> members s = {} \<and> clock s = 100 \<and> timeout s = 60 \<and> k_epoll_room (sv_world s) \<and> k_malloc (sv_world s) = ms \<and>
     0 \<le> fd \<and> sock_at fd (sv_world s) \<noteq> None \<and> hs_conns s = Map.empty \<and> mp_block_num (sv_pool s) = 1024"
proof -
  obtain s0 where s0: "server_inv s0" "members s0 = {}" "sv_config s0 = sv_config (boot 100)" "clock s0 = clock (boot 100)"
    "k_epoll_room (sv_world s0)" "mp_block_num (sv_pool s0) = 1024"
    using server_setup_ok [OF boot_unstarted pool_fits_conn, of all_granted 100] boot_can_start [of 100] by auto
  let ?w = "sv_world s0" let ?v = "(fd_update (new_fd ?w) (Fd_sock \<lparr>s_in = [], s_send = [], s_out = []\<rparr>) ?w)\<lparr>k_malloc := ms\<rparr>"
  have lk: "fd_lookup ?v = (fd_lookup ?w)(new_fd ?w \<mapsto> Fd_sock \<lparr>s_in = [], s_send = [], s_out = []\<rparr>)"
    unfolding fd_lookup_update [symmetric] by (rule fd_lookup_cong) simp
  then have "fds_kept ?w ?v" using new_fd_fresh [of ?w] by (auto simp: fds_kept_def split: fd_object.splits)
  then have "env_step ?w ?v" by (simp add: env_step_def fd_update_def)
  from env_step_inv [OF s0(1) this] have "server_inv (s0\<lparr>sv_world := ?v\<rparr>)" .
  moreover have "dom (hs_conns s0) = {}" using s0(1,2) server_okD(2) live_strip [of s0] by (auto simp: server_inv_def)
  then have "hs_conns s0 = Map.empty" by simp
  moreover have "sock_at (new_fd ?w) ?v \<noteq> None" using lk by (simp add: sock_at_def)
  ultimately show ?thesis using s0 new_fd_nonneg(1) [of ?w]
    by (intro exI [of _ "s0\<lparr>sv_world := ?v\<rparr>"] exI [of _ "new_fd ?w"]) (simp add: boot_def boot_world_def server_config_def fd_update_def)
qed

theorem connection_accept_correct_witness:
  "\<exists>s fd p s'. server_inv s \<and> members s = {} \<and> connection_accept fd s = Some (Some p, s') \<and> server_inv s' \<and> members s' = {p}"
proof -
  obtain s fd where s: "server_inv s" "members s = {}" "clock s = 100" "k_epoll_room (sv_world s)" "k_malloc (sv_world s) = [True, True]"
    "0 \<le> fd" "sock_at fd (sv_world s) \<noteq> None" "hs_conns s = Map.empty" "mp_block_num (sv_pool s) = 1024" using booted by blast
  have "fst (request_init 0 (sv_world s)) \<noteq> None"
    using s(5) by (simp add: request_init_def next_malloc_def buffer_init_def buffer_new_def)
  then have "\<not> no_memory s" using s(2,9) by (simp add: no_memory_def)
  moreover have "\<forall>q c. hs_conns s q = Some c \<longrightarrow> c_fd c \<noteq> fd" using s(8) by simp
  ultimately obtain p s' where "connection_accept fd s = Some (Some p, s')" "server_inv s'" "members s' = insert p (members s)"
    using connection_accept_correct [OF s(1) _ s(6,7)] s(3,4) by (auto split: option.splits)
  then show ?thesis using s(1,2) by auto
qed

theorem accept_leaks_socket_witness:
  "\<exists>s fd s'. server_inv s \<and> sock_at fd (sv_world s) \<noteq> None \<and> connection_accept fd s = Some (None, s') \<and>
     fd_lookup (sv_world s') fd = fd_lookup (sv_world s) fd \<and> k_epoll (sv_world s') fd = None"
proof -
  obtain s fd where s: "server_inv s" "k_malloc (sv_world s) = []" "sock_at fd (sv_world s) \<noteq> None" "hs_conns s = Map.empty" using booted by blast
  have "fst (request_init 0 (sv_world s)) = None" using s(2) by (simp add: request_init_def next_malloc_def buffer_init_def buffer_new_def)
  then have "no_memory s" by (simp add: no_memory_def)
  moreover have "\<forall>q c. hs_conns s q = Some c \<longrightarrow> c_fd c \<noteq> fd" using s(4) by simp
  ultimately show ?thesis using accept_leaks_socket [OF s(1) _ s(3)] s(1,3) by blast
qed

lemma one_client:
  "\<exists>s p c. server_inv s \<and> members s = {p} \<and> hs_conns s p = Some c \<and> c_active_time c = 100 \<and> clock s = 100 \<and> timeout s = 60 \<and>
     sock_at (c_fd c) (sv_world s) \<noteq> None \<and> 0 \<le> c_fd c"
proof -
  obtain s0 fd where s: "server_inv s0" "members s0 = {}" "clock s0 = 100" "timeout s0 = 60" "k_epoll_room (sv_world s0)"
    "k_malloc (sv_world s0) = [True, True]" "0 \<le> fd" "sock_at fd (sv_world s0) \<noteq> None" "hs_conns s0 = Map.empty"
    "mp_block_num (sv_pool s0) = 1024" using booted by blast
  have ok: "server_ok (active s0 \<union> - members s0) s0" by (rule with_strangers [OF s(1)])
  have "fst (request_init 0 (sv_world s0)) \<noteq> None"
    using s(6) by (simp add: request_init_def next_malloc_def buffer_init_def buffer_new_def)
  then have nm: "\<not> no_memory s0" using s(2,10) by (simp add: no_memory_def)
  have "c_fd d \<noteq> fd" if "strip_idx s0 q = Some d" for q d using that s(9) by (simp add: strip_idx_def)
  then obtain p s1 where s1: "accepted (active s0 \<union> - members s0) fd s0 (Some p) s1"
    using connection_accept_ok [OF ok s(7,8)] s(3,5) nm by fastforce
  then have ok1: "server_ok (active s0 \<union> - members s0) s1" and su: "same_setup s0 s1" by (simp_all add: accepted_def)
  obtain c where c: "strip_idx s1 = (strip_idx s0)(p \<mapsto> c)" "c_active_time c = 100" using s1 s(3) by (auto simp: accepted_def)
  have m1: "members s1 = {p}" using server_okD(2) [OF ok1] server_okD(2) [OF ok] c(1) s(2) by simp
  obtain x where x: "hs_conns s1 p = Some x" "c_active_time x = 100" using strip_conn [of s1 p c] c by auto
  note k = server_okD(7) [OF ok1 x(1)]
  have "server_inv s1" by (rule grown_inv [OF s(1) ok1 accepted_grown [OF s1 ok]])
  then show ?thesis using m1 x su s(3,4) k by (auto simp: same_setup_def conn_ok_def)
qed

lemma time_passes:
  assumes "server_inv s" and "clock s \<le> t"
  shows "server_inv (s\<lparr>sv_world := (sv_world s)\<lparr>k_now := t\<rparr>\<rparr>)"
proof (rule env_step_inv [OF assms(1)])
  have "fd_lookup ((sv_world s)\<lparr>k_now := t\<rparr>) = fd_lookup (sv_world s)" by (rule fd_lookup_cong) simp
  then show "env_step (sv_world s) ((sv_world s)\<lparr>k_now := t\<rparr>)" using fds_kept_same assms(2) by (simp add: env_step_def)
qed

theorem connection_prune_exact_witness:
  "\<exists>s p s'. server_inv s \<and> members s = {p} \<and> connection_prune s = Some s' \<and> members s' = {} \<and> hs_conns s' p = None"
proof -
  obtain s p c where s: "server_inv s" "members s = {p}" "hs_conns s p = Some c" "c_active_time c = 100" "clock s = 100" "timeout s = 60"
    using one_client by blast
  let ?s = "s\<lparr>sv_world := (sv_world s)\<lparr>k_now := 200\<rparr>\<rparr>"
  have inv: "server_inv ?s" using time_passes [OF s(1), of 200] s(5) by simp
  have "atime ?s p = 100" "members ?s = {p}" "hs_conns ?s p = Some c" using s(2-4) by (simp_all add: atime_def)
  then have old: "{q \<in> members ?s. clock ?s - atime ?s q < timeout ?s} = {}" using s(6) by auto
  obtain s' where "connection_prune ?s = Some s'" "members s' = {}" "hs_conns s' p = None"
    using connection_prune_exact [OF inv, unfolded old] \<open>hs_conns ?s p = Some c\<close> by fastforce
  with inv \<open>members ?s = {p}\<close> show ?thesis by blast
qed

lemma dict_used: "dict_inv m d \<Longrightarrow> dict_free d = 0"
  by (simp add: dict_free_def foldl_chain_free dict_inv_def)

text \<open>
  C16. The number of connections is bounded. In every state a worker can reach the heap holds as many connections as blocks of the pool are
  handed out, at most the 1024 of the pool, so \<open>connection_register\<close> never finds the array of \<open>MAX_CONNECTION\<close>
  entries full; the index of each connection is inside the part of the array in use, and the entry there is the connection.
\<close>

theorem connections_bounded:
  assumes "unstarted s" and "pool_fits 1024 sz" and "server_setup a sz s = Some (Some s0)"
    and "0 \<le> clock s" and "timeout s < clock s" and "reaches s0 s1"
  shows "heap_size s1 = int (card (members s1)) \<and> heap_size s1 = int (unat (mp_block_allocated (sv_pool s1))) \<and>
    heap_size s1 \<le> 1024 \<and> heap_size s1 < MAX_CONNECTION \<and>
    (\<forall>p \<in> members s1. \<exists>c. hs_conns s1 p = Some c \<and> 0 \<le> c_heap_idx c \<and> c_heap_idx c < heap_size s1 \<and> lotos_connections s1 (c_heap_idx c) = Some p)"
proof -
  note s1 = worker_state [OF assms]
  have ok: "server_ok (active s1) s1" using s1(1) by (simp add: server_inv_def)
  then have h: "heap_inv s1" "pool.owns (sv_pool s1) (int ` members s1)" by (auto simp: server_ok_def)
  note n = heap_size_card [OF h(1)] owns_count [OF h(2)]
  have "card (int ` members s1) = card (members s1)" by (simp add: card_image)
  moreover have "card (int ` members s1) \<le> 1024" using n(2,4) s1(5) card_mono [OF finite_block_starts n(2)] by simp
  moreover have "\<exists>c. hs_conns s1 p = Some c \<and> 0 \<le> c_heap_idx c \<and> c_heap_idx c < heap_size s1 \<and> lotos_connections s1 (c_heap_idx c) = Some p"
    if "p \<in> members s1" for p
    using that h(1) heap_wfD [of s1] by (fastforce simp: heap_inv_def members_def)
  ultimately show ?thesis using n by auto
qed


lemma granted:
  "\<exists>s0. server_setup all_granted 500 (boot 100) = Some (Some s0) \<and> members s0 = {}" "0 \<le> clock (boot 100)" "timeout (boot 100) < clock (boot 100)"
  using server_setup_ok [OF boot_unstarted pool_fits_conn, of all_granted 100] boot_can_start [of 100]
  by (auto simp: boot_def boot_world_def server_config_def)

theorem connections_bounded_witness:
  "\<exists>s0. server_setup all_granted 500 (boot 100) = Some (Some s0) \<and> heap_size s0 = 0 \<and> mp_block_allocated (sv_pool s0) = 0"
proof -
  obtain s0 where s0: "server_setup all_granted 500 (boot 100) = Some (Some s0)" "members s0 = {}" using granted(1) by blast
  from connections_bounded [OF boot_unstarted pool_fits_conn s0(1) granted(2,3) reaches.start] s0 show ?thesis by (auto simp: uint_0_iff)
qed




end
