(* ===== verification/Serving.thy ===== *)
theory Serving
  imports Headers
begin

text \<open>
  A request from its first byte to the last byte of its response: the receive loop, the three
  request handlers and the assembly of the head composed, and the sending side after them.
\<close>

section \<open>Assembling the head\<close>

lemma appends_bind:
  assumes "appends f x r g" and "\<And>r' g'. ob.extends_by x (r, g) (r', g') \<Longrightarrow> appends h y r' g'"
  shows "appends (\<lambda>r g. f r g \<bind> (\<lambda>(r, g). h r g)) (x @ y) r g"
proof -
  obtain r1 g1 where f: "f r g = Some (r1, g1)" "ob.extends_by x (r, g) (r1, g1)"
    using assms(1) by (auto simp: appends_def)
  obtain r2 g2 where "h r1 g1 = Some (r2, g2)" "ob.extends_by y (r1, g1) (r2, g2)"
    using assms(2) [OF f(2)] by (auto simp: appends_def)
  then show ?thesis using f ob.extends_trans unfolding appends_def by fastforce
qed

text \<open>The texts of the head do not depend on the output buffer or the allocator.\<close>

lemma texts_frame [simp]:
  "status_line (r\<lparr>r_ob := b\<rparr>) (g\<lparr>k_realloc := rs\<rparr>) = status_line r g" "date_line (g\<lparr>k_realloc := rs\<rparr>) = date_line g"
  "content_type (r\<lparr>r_ob := b\<rparr>) = content_type r" "ext_readable (r\<lparr>r_ob := b\<rparr>) = ext_readable r"
  "tables_ok (g\<lparr>k_realloc := rs\<rparr>) = tables_ok g" "page_ok (g\<lparr>k_realloc := rs\<rparr>) = page_ok g"
  by (simp_all add: status_line_def date_line_def content_type_def ext_readable_def tables_ok_def page_ok_def req_mem_def)

lemma extends_frame:
  assumes "ob.extends_by x (r, g) (r', g')"
  shows "status_line r' g' = status_line r g" and "date_line g' = date_line g" and "content_type r' = content_type r"
    and "ext_readable r' = ext_readable r" and "tables_ok g' = tables_ok g" and "page_ok g' = page_ok g"
    and "r_par r' = r_par r" and "r_status_code r' = r_status_code r" and "r_resource_size r' = r_resource_size r"
    and "k_now g' = k_now g" and "ob_ok r'" and "ob_room r' = ob_room r - int (length x)"
proof -
  obtain b rs where rg: "r' = r\<lparr>r_ob := b\<rparr>" "g' = g\<lparr>k_realloc := rs\<rparr>"
    using extends_by_parts(1,2) [OF assms] by blast
  show "status_line r' g' = status_line r g" "date_line g' = date_line g" "content_type r' = content_type r"
    "ext_readable r' = ext_readable r" "tables_ok g' = tables_ok g" "page_ok g' = page_ok g"
    "r_par r' = r_par r" "r_status_code r' = r_status_code r" "r_resource_size r' = r_resource_size r" "k_now g' = k_now g"
    by (simp_all add: rg)
qed (use extends_by_parts(3,5) [OF assms] in simp_all)

definition ok_head :: "request_t \<Rightarrow> 'x globals_scheme \<Rightarrow> string" where
  "ok_head r g = status_line r g @ date_line g @ server_line @ content_type_line (content_type r) @
     content_length_line (r_resource_size r) @ connection_line (ar_keep_alive (r_par r)) @ CRLF"

text \<open>No line is longer than the numbers below, so the whole head has less than 256 bytes.\<close>

lemma line_lengths:
  "tables_ok g \<Longrightarrow> length (status_line r g) \<le> 46" "length (date_line g) \<le> 44" "length server_line = 19"
  "length (content_type_line (content_type r)) \<le> 38"
  "- (2 ^ 31) \<le> n \<Longrightarrow> n < 2 ^ 31 \<Longrightarrow> length (content_length_line n) \<le> 29" "length (connection_line k) \<le> 24"
proof -
  show "tables_ok g \<Longrightarrow> length (status_line r g) \<le> 46"
    using status_entry [of g "r_status_code r"] by (auto simp: status_line_def split: option.splits)
  show "length (date_line g) \<le> 44" using length_date_bound by (auto simp: date_line_def split: option.splits)
  show "length (content_type_line (content_type r)) \<le> 38" using content_type_facts(2) [of r] by (simp add: content_type_line_def)
  show "- (2 ^ 31) \<le> n \<Longrightarrow> n < 2 ^ 31 \<Longrightarrow> length (content_length_line n) \<le> 29"
    using length_dec [of 10 n] by (simp add: content_length_line_def)
qed (simp_all add: server_line_def connection_line_def)

lemma assemble_ok:
  assumes "ob_ok r" and "tables_ok g" and "0 \<le> r_status_code r" and "r_status_code r < 512"
    and "gmtime (k_now g) = Some t" and "ext_readable r" and "\<not> ar_err_req (r_par r)"
    and "- (2 ^ 31) \<le> r_resource_size r" and "r_resource_size r < 2 ^ 31" and "256 \<le> ob_room r"
  shows "appends response_assemble_buffer (ok_head r g) r g"
proof -
  note len = line_lengths(1) [OF assms(2), of r] line_lengths(2) [of g] line_lengths(3) line_lengths(4) [of r]
    line_lengths(5) [OF assms(8,9)] line_lengths(6) [of "ar_keep_alive (r_par r)"]
  have "appends (\<lambda>r g. response_append_status_line r g \<bind> (\<lambda>(r, g). response_append_date r g \<bind>
      (\<lambda>(r, g). response_append_server r g \<bind> (\<lambda>(r, g). response_append_content_type r g \<bind>
      (\<lambda>(r, g). response_append_content_length r g \<bind> (\<lambda>(r, g). response_append_connection r g \<bind>
      (\<lambda>(r, g). response_append_crlf r g))))))) (ok_head r g) r g"
    unfolding ok_head_def
  proof (intro appends_bind)
    show "appends response_append_status_line (status_line r g) r g"
      by (rule status_line_appends) (use assms len in auto)
    fix r1 g1 assume e1: "ob.extends_by (status_line r g) (r, g) (r1, g1)"
    note f1 = extends_frame [OF e1]
    show "appends response_append_date (date_line g) r1 g1"
      using date_line_appends [of r1 g1 t] f1 assms len by simp
    fix r2 g2 assume e2: "ob.extends_by (date_line g) (r1, g1) (r2, g2)"
    note f2 = extends_frame [OF e2]
    show "appends response_append_server server_line r2 g2"
      by (rule server_line_appends) (use f1 f2 assms len in auto)
    fix r3 g3 assume e3: "ob.extends_by server_line (r2, g2) (r3, g3)"
    note f3 = extends_frame [OF e3]
    show "appends response_append_content_type (content_type_line (content_type r)) r3 g3"
      using content_type_appends [of r3 g3] f1 f2 f3 assms len by simp
    fix r4 g4 assume e4: "ob.extends_by (content_type_line (content_type r)) (r3, g3) (r4, g4)"
    note f4 = extends_frame [OF e4]
    show "appends response_append_content_length (content_length_line (r_resource_size r)) r4 g4"
      using content_length_appends [of r4 g4] f1 f2 f3 f4 assms len by simp
    fix r5 g5 assume e5: "ob.extends_by (content_length_line (r_resource_size r)) (r4, g4) (r5, g5)"
    note f5 = extends_frame [OF e5]
    show "appends response_append_connection (connection_line (ar_keep_alive (r_par r))) r5 g5"
      using connection_line_appends [of r5 g5] f1 f2 f3 f4 f5 assms len by simp
    fix r6 g6 assume e6: "ob.extends_by (connection_line (ar_keep_alive (r_par r))) (r5, g5) (r6, g6)"
    show "appends response_append_crlf CRLF r6 g6"
      by (rule crlf_appends) (use extends_frame [OF e6] f1 f2 f3 f4 f5 assms len in auto)
  qed
  then show ?thesis by (simp add: appends_def response_assemble_buffer_def)
qed

section \<open>Opening the resource\<close>

text \<open>
  What a name below the document root stands for: a regular file, or a directory whose
  \<open>index.html\<close> is one. The flag says which.
\<close>

definition resource :: "'x world_scheme \<Rightarrow> string \<Rightarrow> (nat \<times> bool) option" where
  "resource w path =
     (case fd_lookup w (g_rootdir_fd w) of
        Some (Fd_file d _) \<Rightarrow>
          (case k_namei w d path of
             None \<Rightarrow> None
           | Some i \<Rightarrow>
               (case k_inode w i of
                  Regular _ \<Rightarrow> Some (i, False)
                | Directory _ \<Rightarrow> map_option (\<lambda>j. (j, True)) (k_namei w i ''index.html'')))
      | _ \<Rightarrow> None)"

text \<open>The extension the type is chosen by.\<close>

definition resource_ext :: "string \<Rightarrow> bool \<Rightarrow> string" where
  "resource_ext p dir = (if dir then ''html'' else path_ext p)"

definition set_ext :: "ssstr_t \<Rightarrow> parse_archive \<Rightarrow> parse_archive" where
  "set_ext e ar = ar\<lparr>ar_url := (ar_url ar)\<lparr>url_mime_extension := e\<rparr>\<rparr>"

lemma set_ext_same: "set_ext (url_mime_extension (ar_url ar)) ar = ar"
  by (simp add: set_ext_def)

lemma fd_update_fds: "fd_update fd ob k = k\<lparr>k_fds := AList.update fd ob (k_fds k)\<rparr>"
  "close_fd fd k = k\<lparr>k_fds := AList.delete fd (k_fds k)\<rparr>"
  by (simp_all add: fd_update_def close_fd_def)

lemma kept_fd: "fd_lookup k f = Some ob \<Longrightarrow> f \<noteq> new_fd k"
  using new_fd_fresh [of k] by auto

lemma set_html: "ssstr_set m (PLit ''html'' 0) = Some (SSSTR ''html'')"
  by (simp add: ssstr_set_def SSSTR_def lit_block_def to_int32_id)

lemma open_resource_ok:
  assumes res: "resource w path = Some (i, dir)" and x: "k_inode w i = Regular x" "length x < 2 ^ 31"
  shows "\<exists>fd fds e. open_resource path c w =
      Some (OK, upd_req (\<lambda>r. r\<lparr>r_par := set_ext e (r_par r), r_resource_fd := fd, r_resource_size := int (length x),
                               r_req_handler := Some request_handle_headers_h\<rparr>) c, w\<lparr>k_fds := fds\<rparr>) \<and>
    fd_lookup (w\<lparr>k_fds := fds\<rparr>) fd = Some (Fd_file i 0) \<and> fd \<noteq> - 1 \<and>
    (\<forall>f ob. fd_lookup w f = Some ob \<longrightarrow> f \<noteq> fd \<and> fd_lookup (w\<lparr>k_fds := fds\<rparr>) f = Some ob) \<and>
    e = (if dir then SSSTR ''html'' else url_mime_extension (ar_url (r_par (c_req c))))"
proof -
  obtain d off j where d: "fd_lookup w (g_rootdir_fd w) = Some (Fd_file d off)" "k_namei w d path = Some j"
    using res by (auto simp: resource_def split: option.splits fd_object.splits)
  let ?f = "new_fd w" let ?w = "fd_update ?f (Fd_file j 0) w"
  have opn: "sys_openat (g_rootdir_fd w) path w = (?f, ?w)" using d by (simp add: sys_openat_def)
  have len: "to_int32 (int (length x)) = int (length x)" using x(2) by (simp add: to_int32_id)
  show ?thesis
  proof (cases dir)
    case False
    then have j: "j = i" using res d by (auto simp: resource_def split: inode.splits)
    have "open_resource path c w = Some (OK, upd_req (\<lambda>r. r\<lparr>r_par := set_ext (url_mime_extension (ar_url (r_par (c_req c)))) (r_par r),
        r_resource_fd := ?f, r_resource_size := int (length x), r_req_handler := Some request_handle_headers_h\<rparr>) c, ?w)"
      using opn x j len by (simp add: open_resource_def sys_fstat_def set_ext_same)
    then show ?thesis using False j kept_fd [of w]
      by (intro exI [of _ ?f] exI [of _ "AList.update ?f (Fd_file j 0) (k_fds w)"] exI)
        (auto simp flip: fd_update_fds)
  next
    case True
    then obtain n where n: "k_inode w j = Directory n" "k_namei w j ''index.html'' = Some i"
      using res d by (auto simp: resource_def split: inode.splits)
    let ?g = "new_fd ?w" let ?w2 = "fd_update ?g (Fd_file i 0) ?w"
    have ne: "?g \<noteq> ?f" using kept_fd [of ?w ?f] by auto
    have "sys_openat ?f ''index.html'' ?w = (?g, ?w2)" using n by (simp add: sys_openat_def)
    then have "open_resource path c w = Some (OK, upd_req (\<lambda>r. r\<lparr>r_par := set_ext (SSSTR ''html'') (r_par r),
        r_resource_fd := ?g, r_resource_size := int (length x), r_req_handler := Some request_handle_headers_h\<rparr>) c, close_fd ?f ?w2)"
      using opn x n len ne by (simp add: open_resource_def sys_fstat_def set_ext_def set_html)
    moreover have "f \<noteq> ?g \<and> f \<noteq> ?f" if "fd_lookup w f = Some ob" for f ob
      using kept_fd [of w f] kept_fd [of ?w f] that by auto
    moreover have "w\<lparr>k_fds := k_fds (close_fd ?f ?w2)\<rparr> = close_fd ?f ?w2" by (simp add: fd_update_fds)
    ultimately show ?thesis using True ne
      by (intro exI [of _ ?g] exI [of _ "k_fds (close_fd ?f ?w2)"] exI) auto
  qed
qed

section \<open>The end of the request\<close>

text \<open>The connection stops waiting for input and waits to be able to send.\<close>

lemma turn_to_output:
  assumes "interest_ok c w"
  obtains ev e c1 w1 where "connection_disable_in c w = (OK, c1, w1)"
    and "connection_enable_out c1 w1 = (OK, c\<lparr>c_events := ev\<rparr>, w\<lparr>k_epoll := e\<rparr>)"
    and "interest_ok (c\<lparr>c_events := ev\<rparr>) (w\<lparr>k_epoll := e\<rparr>)" and "bit ev 2" and "\<not> bit ev 0"
proof -
  let ?ev = "c_events c AND NOT EPOLLIN" let ?ev2 = "?ev OR EPOLLOUT"
  obtain c1 w1 where 1: "with_events ?ev c w = (c1, w1)" by fastforce
  note i = with_events_interest [OF 1]
  let ?e = "(k_epoll w)(c_fd c \<mapsto> (?ev2, c_data_ptr c))"
  have 2: "with_events (c_events c1 OR EPOLLOUT) c1 w1 = (c\<lparr>c_events := ?ev2\<rparr>, w\<lparr>k_epoll := ?e\<rparr>)"
    using 1 unfolding with_events_def by auto
  show thesis
  proof (rule that)
    show "connection_disable_in c w = (OK, c1, w1)" using wrapper_with_events(2) [OF assms] 1 by simp
    show "connection_enable_out c1 w1 = (OK, c\<lparr>c_events := ?ev2\<rparr>, w\<lparr>k_epoll := ?e\<rparr>)"
      using wrapper_with_events(3) [OF i] 2 by simp
    show "interest_ok (c\<lparr>c_events := ?ev2\<rparr>) (w\<lparr>k_epoll := ?e\<rparr>)" by (rule with_events_interest [OF 2])
    show "bit ?ev2 2" "\<not> bit ?ev2 0" unfolding mask_bits by simp_all
  qed
qed

lemma ok_head_cong:
  assumes "ar_version (r_par r') = ar_version (r_par r)" and "ar_url (r_par r') = ar_url (r_par r)"
    and "ar_err_req (r_par r') = ar_err_req (r_par r)" and "ar_keep_alive (r_par r') = ar_keep_alive (r_par r)"
    and "r_status_code r' = r_status_code r" and "r_resource_size r' = r_resource_size r"
    and "r_ib r' = r_ib r" and "r_ib_at r' = r_ib_at r"
    and "g_status_table g' = g_status_table g" and "k_now g' = k_now g"
  shows "ok_head r' g' = ok_head r g" and "ext_readable r' = ext_readable r"
  using assms by (simp_all add: ok_head_def status_line_def date_line_def content_type_def ext_readable_def req_mem_def)

lemma body_handled:
  fixes c :: conn and w :: "'x world_scheme"
  defines "r \<equiv> c_req c"
  defines "ar \<equiv> r_par r"
  assumes b: "buffer_inv (r_ib r)" and d: "buffer_data (r_ib r) = pre @ body"
    and pos: "ar_next_parse_pos ar = PBlk (r_ib_at r) (int (length pre))" and te: "ar_transfer_encoding ar = TE_IDENTITY"
    and br: "ar_body_received ar = 0" and cl: "ar_content_length ar \<le> INT_MAX" "ar_content_length ar \<le> int (length body)"
    and i: "interest_ok c w" and ob: "ob_ok r" "256 \<le> ob_room r" and tab: "tables_ok w" and now: "gmtime (k_now w) = Some t"
    and code: "0 \<le> r_status_code r" "r_status_code r < 512" and ext: "ext_readable r" and err: "\<not> ar_err_req ar"
    and size: "- (2 ^ 31) \<le> r_resource_size r" "r_resource_size r < 2 ^ 31"
  shows "\<exists>ev e ob' rs n p. let ar' = ar\<lparr>ar_body_received := n, ar_next_parse_pos := p\<rparr>;
      c' = c\<lparr>c_events := ev, c_req := r\<lparr>r_par := ar', r_req_handler := None, r_ob := ob'\<rparr>\<rparr>;
      w' = w\<lparr>k_epoll := e, k_realloc := rs\<rparr> in
    request_handle_body c w = Some (OK, c', w') \<and> interest_ok c' w' \<and> CONN_IS_OUT c' \<and> \<not> CONN_IS_IN c' \<and>
    ob_ok (c_req c') \<and> ob_text (c_req c') = ob_text r @ ok_head r w"
proof -
  have k: "length pre \<le> length (buffer_data (r_ib r))" using d by simp
  note body = body_status(1) [OF b cl(1) k pos]
  have "\<exists>n p. parse_header_body_identity (r_ib_at r) (r_ib r) ar =
      Some (OK, ar\<lparr>ar_body_received := n, ar_next_parse_pos := p\<rparr>)"
  proof (cases "ar_content_length ar \<le> 0")
    case True
    then show ?thesis using body br by (intro exI [of _ "ar_body_received ar"] exI [of _ "ar_next_parse_pos ar"]) simp
  next
    case False
    then show ?thesis using body br cl(2) d by (intro exI) simp
  qed
  then obtain n p where par: "parse_header_body_identity (r_ib_at r) (r_ib r) ar =
      Some (OK, ar\<lparr>ar_body_received := n, ar_next_parse_pos := p\<rparr>)" by blast
  let ?ar = "ar\<lparr>ar_body_received := n, ar_next_parse_pos := p\<rparr>"
  let ?c = "upd_req (\<lambda>r. r\<lparr>r_par := ?ar\<rparr>) c" let ?r = "r\<lparr>r_par := ?ar, r_req_handler := None\<rparr>"
  have "interest_ok ?c w" using i by (simp add: interest_ok_def event_of_def)
  then obtain ev e c1 w1 where ep: "connection_disable_in ?c w = (OK, c1, w1)"
    "connection_enable_out c1 w1 = (OK, ?c\<lparr>c_events := ev\<rparr>, w\<lparr>k_epoll := e\<rparr>)"
    "interest_ok (?c\<lparr>c_events := ev\<rparr>) (w\<lparr>k_epoll := e\<rparr>)" "bit ev 2" "\<not> bit ev 0" by (rule turn_to_output)
  have r: "ok_head ?r (w\<lparr>k_epoll := e\<rparr>) = ok_head r w" "ext_readable ?r = ext_readable r"
    by (rule ok_head_cong; simp add: ar_def)+
  have "appends response_assemble_buffer (ok_head r w) ?r (w\<lparr>k_epoll := e\<rparr>)"
    unfolding r(1) [symmetric]
    by (rule assemble_ok [where t = t]) (use ob tab now code ext err size r(2) in \<open>simp_all add: ob_ok_def ob_room_def tables_ok_def ar_def\<close>)
  then obtain r2 w2 where a: "response_assemble_buffer ?r (w\<lparr>k_epoll := e\<rparr>) = Some (r2, w2)"
    "ob.extends_by (ok_head r w) (?r, w\<lparr>k_epoll := e\<rparr>) (r2, w2)" by (auto simp: appends_def)
  note x = extends_by_parts [OF a(2)]
  let ?c' = "c\<lparr>c_events := ev, c_req := ?r\<lparr>r_ob := r_ob r2\<rparr>\<rparr>" let ?w' = "w\<lparr>k_epoll := e, k_realloc := k_realloc w2\<rparr>"
  have "r2 = ?r\<lparr>r_ob := r_ob r2\<rparr>" "w2 = ?w'" using x(1,2) by simp_all
  then have "request_handle_body c w = Some (OK, ?c', ?w')"
    using par te ep(1,2) a(1) by (simp add: request_handle_body_def with_req_def r_def ar_def Let_def)
  moreover have "interest_ok ?c' ?w'" using ep(3) by (simp add: interest_ok_def event_of_def)
  moreover have "ob_ok (?r\<lparr>r_ob := r_ob r2\<rparr>)" "ob_text (?r\<lparr>r_ob := r_ob r2\<rparr>) = ob_text r @ ok_head r w"
    using x(1,3,4) by (simp_all add: ob_text_def ob_ok_def)
  ultimately show ?thesis using ep(4,5) unfolding Let_def is_in_bit is_out_bit
    by (intro exI [of _ ev] exI [of _ e] exI [of _ "r_ob r2"] exI [of _ "k_realloc w2"] exI [of _ n] exI [of _ p]) simp
qed

section \<open>A whole request\<close>

text \<open>The head of the response with a file of \<open>sz\<close> bytes.\<close>

definition response_head :: "'x globals_scheme \<Rightarrow> string \<Rightarrow> string \<Rightarrow> int \<Rightarrow> bool \<Rightarrow> string" where
  "response_head g mn ext sz keep =
     (if digits_val mn = 1 then ''HTTP/1.1 '' else ''HTTP/1.0 '') @ ''200 OK'' @ CRLF @ date_line g @ server_line @
     content_type_line (mime_of ext) @ content_length_line sz @ connection_line keep @ CRLF"

lemma dec_codes:
  "dec_nat 200 = ''200''" "dec_nat 400 = ''400''" "dec_nat 404 = ''404''" "dec_nat 501 = ''501''" "dec_nat 505 = ''505''"
  by code_simp+

lemma status_texts:
  assumes "tables_ok g"
  shows "g_status_table g 200 = Some ''200 OK''" "g_status_table g 400 = Some ''400 Bad Request''"
    "g_status_table g 404 = Some ''404 Not Found''" "g_status_table g 501 = Some ''501 Not Implemented''"
    "g_status_table g 505 = Some ''505 HTTP Version Not Supported''"
proof -
  have t: "g_status_table g c = (case find (\<lambda>e. int (fst e) = c) HTTP_STATUS_MAP of None \<Rightarrow> None
      | Some e \<Rightarrow> Some (dec_nat (fst e) @ '' '' @ snd e))" for c
    using assms fill_status_map [OF status_map_facts(1), of "\<lambda>_. None" c] by (simp add: tables_ok_def)
  show "g_status_table g 200 = Some ''200 OK''" "g_status_table g 400 = Some ''400 Bad Request''"
    "g_status_table g 404 = Some ''404 Not Found''" "g_status_table g 501 = Some ''501 Not Implemented''"
    "g_status_table g 505 = Some ''505 HTTP Version Not Supported''"
    unfolding t HTTP_STATUS_MAP_def by (simp_all add: dec_codes)
qed

lemma ok_head_eq:
  assumes "tables_ok g" and "short_num mn" and "http_minor (ar_version (r_par r)) = word_of_int (digits_val mn)"
    and "r_status_code r = 200" and "\<not> ar_err_req (r_par r)"
    and "ss_view (req_mem r) (url_mime_extension (ar_url (r_par r))) = Some e"
  shows "ok_head r g = response_head g mn e (r_resource_size r) (ar_keep_alive (r_par r))"
  using assms by (simp add: ok_head_def response_head_def status_line_def status_texts(1) content_type_def version_word_1)

lemma aside_sel:
  assumes "aside x = aside y"
  shows "ar_url x = ar_url y" "ar_version x = ar_version y" "ar_transfer_encoding x = ar_transfer_encoding y"
    "ar_body_received x = ar_body_received y" "ar_buffer_sent x = ar_buffer_sent y"
    "ar_response_done x = ar_response_done y" "ar_err_req x = ar_err_req y"
  using arg_cong [OF assms, of ar_url] arg_cong [OF assms, of ar_version] arg_cong [OF assms, of ar_transfer_encoding]
    arg_cong [OF assms, of ar_body_received] arg_cong [OF assms, of ar_buffer_sent]
    arg_cong [OF assms, of ar_response_done] arg_cong [OF assms, of ar_err_req]
  by (simp_all add: aside_def)

lemma req_loop_next:
  "r_req_handler (c_req c) = Some h \<Longrightarrow> call_req_handler h c w = Some (OK, c', w') \<Longrightarrow> r_req_handler (c_req c') \<noteq> None \<Longrightarrow>
   req_handler_loop c w = req_handler_loop c' w'"
  by (subst req_handler_loop.simps) simp

lemma req_loop_stop:
  "r_req_handler (c_req c) = Some h \<Longrightarrow> call_req_handler h c w = Some (st, c', w') \<Longrightarrow>
   r_req_handler (c_req c') = None \<or> st \<noteq> OK \<Longrightarrow> req_handler_loop c w = Some (st, c', w')"
  by (subst req_handler_loop.simps) auto

text \<open>What the handlers leave of the request's response part.\<close>

definition same_response :: "request_t \<Rightarrow> request_t \<Rightarrow> bool" where
  "same_response r r' \<longleftrightarrow> r_resource_fd r' = r_resource_fd r \<and> r_resource_size r' = r_resource_size r \<and>
     r_res_handler r' = r_res_handler r \<and> ar_buffer_sent (r_par r') = ar_buffer_sent (r_par r) \<and>
     ar_response_done (r_par r') = ar_response_done (r_par r) \<and> buffer_inv (r_ib r')"

lemma head_and_body:
  fixes c :: conn and w :: "'x world_scheme"
  defines "r \<equiv> c_req c"
  assumes b: "buffer_inv (r_ib r)" and d: "buffer_data (r_ib r) = pre @ head_text hs fin @ body"
    and h: "r_req_handler r = Some request_handle_headers_h"
    and fresh: "hd_fresh (r_ib_at r) (length pre) (r_par r)" and hs: "header_lines hs" "empty_line fin" "handlers_ok w"
    and te: "ar_transfer_encoding (r_par r) = TE_IDENTITY" "ar_body_received (r_par r) = 0" "\<not> ar_err_req (r_par r)"
    and cl: "snd (header_options hs (options (r_par r))) \<le> int (length body)"
    and i: "interest_ok c w" and ob: "ob_ok r" "256 \<le> ob_room r" and tab: "tables_ok w" and now: "gmtime (k_now w) = Some t"
    and mn: "short_num mn" "http_minor (ar_version (r_par r)) = word_of_int (digits_val mn)"
    and code: "r_status_code r = 200" and size: "- (2 ^ 31) \<le> r_resource_size r" "r_resource_size r < 2 ^ 31"
    and ext: "\<And>m. holds m (r_ib_at r) pre \<Longrightarrow> ss_view m (url_mime_extension (ar_url (r_par r))) = Some e"
  defines "keep \<equiv> fst (header_options hs (options (r_par r)))"
  shows "\<exists>c' e' rs. let w' = w\<lparr>k_epoll := e', k_realloc := rs\<rparr> in req_handler_loop c w = Some (OK, c', w') \<and>
    interest_ok c' w' \<and> CONN_IS_OUT c' \<and> \<not> CONN_IS_IN c' \<and> c_fd c' = c_fd c \<and> same_response r (c_req c') \<and>
    ob_ok (c_req c') \<and> ob_text (c_req c') = ob_text r @ response_head w mn e (r_resource_size r) keep \<and>
    r_req_handler (c_req c') = None \<and> ar_keep_alive (r_par (c_req c')) = keep"
proof -
  obtain hd ar where l: "request_handle_headers c w =
      Some (OK, upd_req (\<lambda>r. r\<lparr>r_ib := ib_with (pre @ hd @ body) (r_ib r), r_par := ar,
                               r_req_handler := Some request_handle_body_h\<rparr>) c, w)"
    "length hd = length (head_text hs fin)" "hd_fresh (r_ib_at r) (length pre + length hd) ar"
    "options ar = header_options hs (options (r_par r))" "aside ar = aside (r_par r)"
    using headers_loop [of c pre hs fin body w] b d hs fresh unfolding r_def by blast
  let ?r1 = "r\<lparr>r_ib := ib_with (pre @ hd @ body) (r_ib r), r_par := ar, r_req_handler := Some request_handle_body_h\<rparr>"
  let ?c1 = "c\<lparr>c_req := ?r1\<rparr>"
  note as = aside_sel [OF l(5)]
  have b1: "buffer_inv (r_ib ?r1)" "buffer_data (r_ib ?r1) = (pre @ hd) @ body"
    using ib_with_ok(1,2) [OF b, of "pre @ hd @ body"] d l(2) by simp_all
  have "holds (req_mem ?r1) (r_ib_at r) pre"
    using holds_buffer [OF b1(1), of "r_ib_at r"] holds_prefix b1(2) by (simp add: req_mem_def)
  then have e1: "ss_view (req_mem ?r1) (url_mime_extension (ar_url ar)) = Some e" using ext as(1) by simp
  have opt: "ar_keep_alive ar = keep" "ar_content_length ar \<le> int (length body)"
    using l(4) cl unfolding keep_def by (metis fst_conv options_def, metis options_def snd_conv)
  have max: "ar_content_length ar \<le> INT_MAX"
    using opt(2) length_buffer_data [OF b1(1)] buffer_small [OF b1(1)] b1(2) by simp
  have okh: "ok_head ?r1 w = response_head w mn e (r_resource_size r) keep"
    using ok_head_eq [OF tab mn(1), of ?r1 e] e1 mn(2) as code te(3) opt(1) by simp
  have "\<exists>ev e ob' rs n p. let ar' = ar\<lparr>ar_body_received := n, ar_next_parse_pos := p\<rparr>;
      c' = ?c1\<lparr>c_events := ev, c_req := ?r1\<lparr>r_par := ar', r_req_handler := None, r_ob := ob'\<rparr>\<rparr>;
      w' = w\<lparr>k_epoll := e, k_realloc := rs\<rparr> in
    request_handle_body ?c1 w = Some (OK, c', w') \<and> interest_ok c' w' \<and> CONN_IS_OUT c' \<and> \<not> CONN_IS_IN c' \<and>
    ob_ok (c_req c') \<and> ob_text (c_req c') = ob_text ?r1 @ ok_head ?r1 w"
    using body_handled [of ?c1 "pre @ hd" body w t] b1 l(3) as te max opt(2) i ob tab now code e1 size
    by (simp add: hd_fresh_def interest_ok_def event_of_def ob_ok_def ob_room_def ext_readable_def)
  then obtain ev e' ob' rs n p where
    "let ar' = ar\<lparr>ar_body_received := n, ar_next_parse_pos := p\<rparr>;
      c' = ?c1\<lparr>c_events := ev, c_req := ?r1\<lparr>r_par := ar', r_req_handler := None, r_ob := ob'\<rparr>\<rparr>;
      w' = w\<lparr>k_epoll := e', k_realloc := rs\<rparr> in
    request_handle_body ?c1 w = Some (OK, c', w') \<and> interest_ok c' w' \<and> CONN_IS_OUT c' \<and> \<not> CONN_IS_IN c' \<and>
    ob_ok (c_req c') \<and> ob_text (c_req c') = ob_text ?r1 @ ok_head ?r1 w" by blast
  note body = this [unfolded Let_def okh]
  have "req_handler_loop c w = req_handler_loop ?c1 w"
    using req_loop_next [of c request_handle_headers_h w ?c1 w] h l(1) by (simp add: call_req_handler_def r_def)
  also have "\<dots> = request_handle_body ?c1 w"
    using req_loop_stop [of ?c1 request_handle_body_h w] body by (auto simp: call_req_handler_def)
  finally show ?thesis using body opt(1) as b1(1) unfolding Let_def
    by (intro exI conjI, elim conjE, simp) (simp_all add: same_response_def r_def ob_text_def)
qed

lemma fd_lookup_set_in:
  "sock_at fd k = Some s \<Longrightarrow> fd_lookup (set_in fd as k) f = (if f = fd then Some (Fd_sock (s\<lparr>s_in := as\<rparr>)) else fd_lookup k f)"
  by (simp add: set_in_eq)

lemma realloc_frame [simp]:
  "fd_lookup (k\<lparr>k_realloc := rs\<rparr>) = fd_lookup k" "fd_lookup (k\<lparr>k_epoll := e, k_realloc := rs\<rparr>) = fd_lookup k"
  by (simp_all add: fd_lookup_def fun_eq_iff)

lemma set_in_frame [simp]:
  "k_epoll (set_in fd as k) = k_epoll k" "k_inode (set_in fd as k) = k_inode k"
  "k_namei (set_in fd as k) = k_namei k" "k_now (set_in fd as k) = k_now k"
  by (simp_all add: set_in_def split: option.splits)

lemma set_in_globals [simp]:
  fixes w :: "'x world_scheme"
  shows "g_rootdir_fd (set_in fd as w) = g_rootdir_fd w" "tables_ok (set_in fd as w) = tables_ok w"
    "handlers_ok (set_in fd as w) = handlers_ok w" "g_err_page (set_in fd as w) = g_err_page w"
    "g_status_table (set_in fd as w) = g_status_table w" "g_mime_dict (set_in fd as w) = g_mime_dict w"
    "w_header_dict (set_in fd as w) = w_header_dict w"
  by (auto simp: set_in_def fd_update_def tables_ok_def handlers_ok_def split: option.splits)

lemma resource_set_in:
  assumes "sock_at fd w = Some s"
  shows "resource ((set_in fd as w)\<lparr>k_realloc := rs\<rparr>) path = resource w path"
proof -
  let ?w = "(set_in fd as w)\<lparr>k_realloc := rs\<rparr>"
  have eqs: "k_namei ?w = k_namei w" "k_inode ?w = k_inode w" "g_rootdir_fd ?w = g_rootdir_fd w" by simp_all
  show ?thesis unfolding resource_def eqs using sock_at_lookup [THEN iffD1, OF assms]
    by (cases "g_rootdir_fd w = fd") (simp_all add: fd_lookup_set_in [OF assms])
qed

text \<open>The request line is received and understood; what follows depends on the file system.\<close>

lemma line_received:
  assumes idle: "idle c w" and s: "sock_at (c_fd c) w = Some s" and pull: "pull (s_in s) = (AGAIN, y, as')"
    and y: "y = line @ rest" and line: "good_line me u t maj mn line"
    and room: "int (length y) \<le> b_free (r_ib (c_req c))"
  shows "\<exists>ib ar pre rs. let c2 = upd_req (\<lambda>r. r\<lparr>r_par := ar, r_ib := ib\<rparr>) c; w1 = (set_in (c_fd c) as' w)\<lparr>k_realloc := rs\<rparr> in
    request_handle c w = do { (st, c', w') \<leftarrow> open_resource (rel_path (url_path u)) c2 w1;
        if r_req_handler (c_req c') \<noteq> None \<and> st = OK then req_handler_loop c' w' else Some (st, c', w') } \<and>
    buffer_inv ib \<and> buffer_data ib = pre @ rest \<and> line_parsed (r_ib_at (c_req c)) (length pre) maj mn ar \<and>
    (\<forall>m. holds m (r_ib_at (c_req c)) pre \<longrightarrow> ss_view m (url_mime_extension (ar_url ar)) = Some (path_ext (url_path u)))"
proof -
  obtain a ib0 ob where f: "c_req c = fresh_request a ib0 (Some ob)" "buffer_inv ib0" "buffer_data ib0 = []"
    using idle by (auto simp: idle_def)
  have ib0: "r_ib (c_req c) = ib0" using f(1) by (simp add: fresh_request_def)
  obtain ib rs where recv: "request_recv c w = Some (AGAIN, upd_req (\<lambda>r. r\<lparr>r_ib := ib\<rparr>) c, (set_in (c_fd c) as' w)\<lparr>k_realloc := rs\<rparr>)"
    "buffer_inv ib" "buffer_data ib = y"
    using request_recv_pull [OF _ s pull room] f(2,3) ib0 by auto
  let ?w1 = "(set_in (c_fd c) as' w)\<lparr>k_realloc := rs\<rparr>" let ?c1 = "upd_req (\<lambda>r. r\<lparr>r_ib := ib\<rparr>) c"
  have r1: "r_par (c_req ?c1) = parse_archive_init (r_ib_at (c_req ?c1))" "buffer_inv (r_ib (c_req ?c1))"
    "buffer_data (r_ib (c_req ?c1)) = line @ rest" "r_req_handler (c_req ?c1) = Some request_handle_request_line_h"
    using f(1) recv(2,3) y by (simp_all add: fresh_request_def)
  obtain line' ar where l: "request_handle_request_line ?c1 ?w1 =
      open_resource (rel_path (url_path u)) (upd_req (\<lambda>r. r\<lparr>r_par := ar, r_ib := ib_with (line' @ rest) (r_ib r)\<rparr>) ?c1) ?w1"
    "length line' = length line" "line_parsed (r_ib_at (c_req ?c1)) (length line) maj mn ar"
    "\<forall>m. holds m (r_ib_at (c_req ?c1)) line' \<longrightarrow> ss_view m (url_mime_extension (ar_url ar)) = Some (path_ext (url_path u))"
    using request_line_handled [OF r1(1-3) line, of ?w1] by blast
  let ?ib = "ib_with (line' @ rest) ib"
  have "request_handle c w = do { (st, c', w') \<leftarrow> open_resource (rel_path (url_path u)) (upd_req (\<lambda>r. r\<lparr>r_par := ar, r_ib := ?ib\<rparr>) c) ?w1;
      if r_req_handler (c_req c') \<noteq> None \<and> st = OK then req_handler_loop c' w' else Some (st, c', w') }"
    using recv(1) r1(4) l(1) by (simp add: request_handle_def req_handler_loop.simps [of ?c1] call_req_handler_def)
  moreover have "buffer_inv ?ib" "buffer_data ?ib = line' @ rest"
    using ib_with_ok(1,2) [OF recv(2), of "line' @ rest"] recv(3) y l(2) by simp_all
  ultimately show ?thesis using l(2-) unfolding Let_def
    by (intro exI [of _ ?ib] exI [of _ ar] exI [of _ line'] exI [of _ rs]) simp
qed

text \<open>
  Once the resource is chosen, the rest of the request is handled and the head assembled. The
  resource enters only through its descriptor and its size.
\<close>

definition head_ready :: "conn \<Rightarrow> 'x world_scheme \<Rightarrow> int \<Rightarrow> int \<Rightarrow> string \<Rightarrow> bool \<Rightarrow> bool" where
  "head_ready c w fd n tx keep \<longleftrightarrow> interest_ok c w \<and> CONN_IS_OUT c \<and> \<not> CONN_IS_IN c \<and> buffer_inv (r_ib (c_req c)) \<and>
     ob_ok (c_req c) \<and> ob_text (c_req c) = tx \<and> r_resource_fd (c_req c) = fd \<and> r_resource_size (c_req c) = n \<and>
     r_res_handler (c_req c) = response_handle_send_buffer_h \<and> ar_buffer_sent (r_par (c_req c)) = 0 \<and>
     \<not> ar_response_done (r_par (c_req c)) \<and> r_req_handler (c_req c) = None \<and> ar_keep_alive (r_par (c_req c)) = keep"

lemma resource_then_head:
  fixes c :: conn and w :: "'x world_scheme" and fd :: int
  assumes idle: "idle c w0" and i: "interest_ok c w" and b: "buffer_inv ib" "buffer_data ib = pre @ head_text hs fin @ body"
    and lp: "line_parsed (r_ib_at (c_req c)) (length pre) maj mn ar" and mn: "short_num mn" and hs: "header_lines hs" "empty_line fin"
    and tab: "tables_ok w" "handlers_ok w" "gmtime (k_now w) = Some now"
    and ext: "\<And>m. holds m (r_ib_at (c_req c)) pre \<Longrightarrow> ss_view m e = Some ext"
    and size: "- (2 ^ 31) \<le> n" "n < 2 ^ 31" and room: "256 \<le> ob_room (c_req c)"
    and ops: "header_options hs (digits_val maj = 1 \<and> digits_val mn = 1, - 1) = (keep, len)" "len \<le> int (length body)"
  defines "c3 \<equiv> upd_req (\<lambda>r. r\<lparr>r_ib := ib, r_par := set_ext e ar, r_resource_fd := fd, r_resource_size := n,
      r_req_handler := Some request_handle_headers_h\<rparr>) c"
  shows "\<exists>c' e' rs. req_handler_loop c3 w = Some (OK, c', w\<lparr>k_epoll := e', k_realloc := rs\<rparr>) \<and> c_fd c' = c_fd c \<and>
    head_ready c' (w\<lparr>k_epoll := e', k_realloc := rs\<rparr>) fd n (response_head w mn ext n keep) keep"
proof -
  obtain a ib0 ob where f: "c_req c = fresh_request a ib0 (Some ob)" "buffer_inv ob" "buffer_data ob = []"
    using idle by (auto simp: idle_def)
  note lp = lp [unfolded line_parsed_def]
  have keep: "fst (header_options hs (options (r_par (c_req c3)))) = keep"
    using lp ops(1) by (simp add: c3_def options_def set_ext_def)
  have "\<exists>c' e' rs. let w' = w\<lparr>k_epoll := e', k_realloc := rs\<rparr> in req_handler_loop c3 w = Some (OK, c', w') \<and>
    interest_ok c' w' \<and> CONN_IS_OUT c' \<and> \<not> CONN_IS_IN c' \<and> c_fd c' = c_fd c3 \<and> same_response (c_req c3) (c_req c') \<and>
    ob_ok (c_req c') \<and> ob_text (c_req c') = ob_text (c_req c3) @ response_head w mn ext (r_resource_size (c_req c3))
      (fst (header_options hs (options (r_par (c_req c3))))) \<and>
    r_req_handler (c_req c') = None \<and> ar_keep_alive (r_par (c_req c')) = fst (header_options hs (options (r_par (c_req c3))))"
  proof (rule head_and_body [where t = now and pre = pre and fin = fin and body = body])
    show "buffer_inv (r_ib (c_req c3))" "buffer_data (r_ib (c_req c3)) = pre @ head_text hs fin @ body"
      using b by (simp_all add: c3_def)
    show "hd_fresh (r_ib_at (c_req c3)) (length pre) (r_par (c_req c3))"
      using lp by (simp add: c3_def hd_fresh_def spans_ok_def set_ext_def)
    show "interest_ok c3 w" using i by (simp add: c3_def interest_ok_def event_of_def)
    show "ob_ok (c_req c3)" "256 \<le> ob_room (c_req c3)" "r_status_code (c_req c3) = 200"
      using f(1,2) room by (simp_all add: c3_def ob_ok_def ob_room_def fresh_request_def)
    show "snd (header_options hs (options (r_par (c_req c3)))) \<le> int (length body)"
      using lp ops by (simp add: c3_def options_def set_ext_def)
  qed (use lp size ext hs tab mn in \<open>simp_all add: c3_def set_ext_def\<close>)
  then obtain c' e' rs where
    "let w' = w\<lparr>k_epoll := e', k_realloc := rs\<rparr> in req_handler_loop c3 w = Some (OK, c', w') \<and>
    interest_ok c' w' \<and> CONN_IS_OUT c' \<and> \<not> CONN_IS_IN c' \<and> c_fd c' = c_fd c3 \<and> same_response (c_req c3) (c_req c') \<and>
    ob_ok (c_req c') \<and> ob_text (c_req c') = ob_text (c_req c3) @ response_head w mn ext (r_resource_size (c_req c3))
      (fst (header_options hs (options (r_par (c_req c3))))) \<and>
    r_req_handler (c_req c') = None \<and> ar_keep_alive (r_par (c_req c')) = fst (header_options hs (options (r_par (c_req c3))))" by blast
  note fin = this [unfolded Let_def keep]
  have "same_response (c_req c3) (c_req c')" "ob_text (c_req c3) = []" "r_resource_size (c_req c3) = n" "c_fd c3 = c_fd c"
    using fin f by (simp_all add: c3_def ob_text_def fresh_request_def)
  then show ?thesis using fin lp f(1)
    by (intro exI [of _ c'] exI [of _ e'] exI [of _ rs]) (simp add: head_ready_def same_response_def c3_def fresh_request_def set_ext_def)
qed

text \<open>
  The two together, for any way \<open>open_resource\<close> may succeed; what is known of the descriptor it
  chose is the parameter \<open>Q\<close>.
\<close>

lemma request_to_head:
  assumes idle: "idle c w" and s: "sock_at (c_fd c) w = Some s" and pull: "pull (s_in s) = (AGAIN, y, as')"
    and y: "y = line @ head_text hs fin @ body" and line: "good_line me u t maj mn line"
    and hs: "header_lines hs" "empty_line fin"
    and tab: "tables_ok w" "handlers_ok w" "gmtime (k_now w) = Some now"
    and room: "int (length y) \<le> b_free (r_ib (c_req c))" "256 \<le> ob_room (c_req c)"
    and ops: "header_options hs (digits_val maj = 1 \<and> digits_val mn = 1, - 1) = (keep, len)" "len \<le> int (length body)"
    and n: "- (2 ^ 31) \<le> n" "n < 2 ^ 31"
    and opn: "\<And>c2 w1 rs. w1 = (set_in (c_fd c) as' w)\<lparr>k_realloc := rs\<rparr> \<Longrightarrow>
      \<exists>fd fds e. open_resource (rel_path (url_path u)) c2 w1 =
        Some (OK, upd_req (\<lambda>r. r\<lparr>r_par := set_ext e (r_par r), r_resource_fd := fd, r_resource_size := n,
                                 r_req_handler := Some request_handle_headers_h\<rparr>) c2, w1\<lparr>k_fds := fds\<rparr>) \<and>
        e = (if dir then SSSTR ''html'' else url_mime_extension (ar_url (r_par (c_req c2)))) \<and> Q fd (fd_lookup (w1\<lparr>k_fds := fds\<rparr>))"
  shows "\<exists>c' w' fd. request_handle c w = Some (OK, c', w') \<and> c_fd c' = c_fd c \<and>
    head_ready c' w' fd n (response_head w mn (resource_ext (url_path u) dir) n keep) keep \<and> Q fd (fd_lookup w') \<and> k_inode w' = k_inode w"
proof -
  obtain ib ar pre rs where "let c2 = upd_req (\<lambda>r. r\<lparr>r_par := ar, r_ib := ib\<rparr>) c; w1 = (set_in (c_fd c) as' w)\<lparr>k_realloc := rs\<rparr> in
    request_handle c w = do { (st, c', w') \<leftarrow> open_resource (rel_path (url_path u)) c2 w1;
        if r_req_handler (c_req c') \<noteq> None \<and> st = OK then req_handler_loop c' w' else Some (st, c', w') } \<and>
    buffer_inv ib \<and> buffer_data ib = pre @ head_text hs fin @ body \<and> line_parsed (r_ib_at (c_req c)) (length pre) maj mn ar \<and>
    (\<forall>m. holds m (r_ib_at (c_req c)) pre \<longrightarrow> ss_view m (url_mime_extension (ar_url ar)) = Some (path_ext (url_path u)))"
    using line_received [OF idle s pull y line room(1)] by blast
  note l = this [unfolded Let_def]
  let ?w1 = "(set_in (c_fd c) as' w)\<lparr>k_realloc := rs\<rparr>" let ?c2 = "upd_req (\<lambda>r. r\<lparr>r_par := ar, r_ib := ib\<rparr>) c"
  obtain fd fds e where o: "open_resource (rel_path (url_path u)) ?c2 ?w1 =
      Some (OK, upd_req (\<lambda>r. r\<lparr>r_par := set_ext e (r_par r), r_resource_fd := fd, r_resource_size := n,
                               r_req_handler := Some request_handle_headers_h\<rparr>) ?c2, ?w1\<lparr>k_fds := fds\<rparr>)"
    "e = (if dir then SSSTR ''html'' else url_mime_extension (ar_url (r_par (c_req ?c2))))" "Q fd (fd_lookup (?w1\<lparr>k_fds := fds\<rparr>))"
    using opn [OF refl, of ?c2 rs] by blast
  let ?w3 = "?w1\<lparr>k_fds := fds\<rparr>"
  have w3: "interest_ok c ?w3" "tables_ok ?w3" "handlers_ok ?w3" "gmtime (k_now ?w3) = Some now" "short_num mn"
    using idle tab line request_line_parts [of me u t maj mn line]
    by (simp_all add: idle_def interest_ok_def handlers_ok_def tables_ok_def good_line_def)
  have ext: "ss_view m e = Some (resource_ext (url_path u) dir)" if "holds m (r_ib_at (c_req c)) pre" for m
    using l o(2) that by (simp add: resource_ext_def)
  have b: "buffer_inv ib" "buffer_data ib = pre @ head_text hs fin @ body" "line_parsed (r_ib_at (c_req c)) (length pre) maj mn ar"
    using l by blast+
  obtain c' e' rs' where r: "req_handler_loop (upd_req (\<lambda>r. r\<lparr>r_ib := ib, r_par := set_ext e ar, r_resource_fd := fd, r_resource_size := n,
      r_req_handler := Some request_handle_headers_h\<rparr>) c) ?w3 = Some (OK, c', ?w3\<lparr>k_epoll := e', k_realloc := rs'\<rparr>)" "c_fd c' = c_fd c"
    "head_ready c' (?w3\<lparr>k_epoll := e', k_realloc := rs'\<rparr>) fd n (response_head ?w3 mn (resource_ext (url_path u) dir) n keep) keep"
    using resource_then_head [OF idle w3(1) b w3(5) hs w3(2-4) ext n room(2) ops, of fd] by blast
  let ?w = "?w3\<lparr>k_epoll := e', k_realloc := rs'\<rparr>"
  have "fd_lookup ?w = fd_lookup ?w3" by (rule fd_lookup_cong) simp
  moreover have "request_handle c w = Some (OK, c', ?w)" using l o(1) r(1) by simp
  moreover have "response_head ?w3 mn x n keep = response_head w mn x n keep" for x by (simp add: response_head_def date_line_def)
  ultimately show ?thesis using r(2,3) o(3) by (intro exI [of _ c'] exI [of _ ?w] exI [of _ fd]) simp
qed

lemma request_handled:
  assumes idle: "idle c w" and s: "sock_at (c_fd c) w = Some s" and pull: "pull (s_in s) = (AGAIN, y, as')"
    and y: "y = line @ head_text hs fin @ body" and line: "good_line me u t maj mn line"
    and hs: "header_lines hs" "empty_line fin"
    and tab: "tables_ok w" "handlers_ok w" "gmtime (k_now w) = Some now"
    and res: "resource w (rel_path (url_path u)) = Some (i, dir)" "k_inode w i = Regular x" "length x < 2 ^ 31"
    and room: "int (length y) \<le> b_free (r_ib (c_req c))" "256 \<le> ob_room (c_req c)"
    and ops: "header_options hs (digits_val maj = 1 \<and> digits_val mn = 1, - 1) = (keep, len)" "len \<le> int (length body)"
  shows "\<exists>c' w'. request_handle c w = Some (OK, c', w') \<and> c_fd c' = c_fd c \<and> send_ready c' w' \<and>
    CONN_IS_OUT c' \<and> \<not> CONN_IS_IN c' \<and> buffer_inv (r_ib (c_req c')) \<and> sock_out (c_fd c) w' = s_out s \<and>
    to_send c' w' = response_head w mn (resource_ext (url_path u) dir) (int (length x)) keep @ x \<and>
    r_req_handler (c_req c') = None \<and> ar_keep_alive (r_par (c_req c')) = keep"
proof -
  let ?Q = "\<lambda>fd fds. fds fd = Some (Fd_file i 0) \<and> fd \<noteq> - 1 \<and> fds (c_fd c) = Some (Fd_sock (s\<lparr>s_in := as'\<rparr>))"
  have opn: "\<exists>fd fds e. open_resource (rel_path (url_path u)) c2 w1 =
        Some (OK, upd_req (\<lambda>r. r\<lparr>r_par := set_ext e (r_par r), r_resource_fd := fd, r_resource_size := int (length x),
                                 r_req_handler := Some request_handle_headers_h\<rparr>) c2, w1\<lparr>k_fds := fds\<rparr>) \<and>
        e = (if dir then SSSTR ''html'' else url_mime_extension (ar_url (r_par (c_req c2)))) \<and> ?Q fd (fd_lookup (w1\<lparr>k_fds := fds\<rparr>))"
    if w1: "w1 = (set_in (c_fd c) as' w)\<lparr>k_realloc := rs\<rparr>" for c2 w1 rs
  proof -
    have "resource w1 (rel_path (url_path u)) = Some (i, dir)" "k_inode w1 i = Regular x"
      using res resource_set_in [OF s] by (simp_all add: w1)
    moreover have "fd_lookup w1 (c_fd c) = Some (Fd_sock (s\<lparr>s_in := as'\<rparr>))" using s by (simp add: fd_lookup_set_in w1)
    ultimately show ?thesis using open_resource_ok [where w = w1 and c = c2, OF _ _ res(3)] by blast
  qed
  have n: "- (2 ^ 31) \<le> int (length x)" "int (length x) < 2 ^ 31" using res(3) by simp_all
  have "\<exists>c' w' fd. request_handle c w = Some (OK, c', w') \<and> c_fd c' = c_fd c \<and>
    head_ready c' w' fd (int (length x)) (response_head w mn (resource_ext (url_path u) dir) (int (length x)) keep) keep \<and>
    ?Q fd (fd_lookup w') \<and> k_inode w' = k_inode w"
    by (rule request_to_head [OF idle s pull y line hs tab room ops n, where Q = ?Q]) (rule opn)
  then obtain c' w' fd where r: "request_handle c w = Some (OK, c', w')" "c_fd c' = c_fd c"
    "head_ready c' w' fd (int (length x)) (response_head w mn (resource_ext (url_path u) dir) (int (length x)) keep) keep"
    "?Q fd (fd_lookup w')" "k_inode w' = k_inode w" by blast
  note h = r(3) [unfolded head_ready_def]
  have sk: "sock_at (c_fd c) w' = Some (s\<lparr>s_in := as'\<rparr>)" using r(4) by (simp add: sock_at_lookup)
  have "send_ready c' w'" using h r(2,4,5) sk res(2,3) by (auto simp: send_ready_def head_ok_def file_ok_def)
  moreover have "to_send c' w' = response_head w mn (resource_ext (url_path u) dir) (int (length x)) keep @ x"
    using h r(4,5) res(2) by (simp add: to_send_def head_rest_def file_rest_def)
  ultimately show ?thesis using h r(1,2) sk by (intro exI [of _ c'] exI [of _ w']) (simp add: sock_out_def)
qed

section \<open>Error responses\<close>

text \<open>
  The whole text of an error response with status text \<open>s\<close>: the page is rendered for its length,
  and what follows the head is what fits the buffer it is rendered into.
\<close>

definition error_text :: "'x globals_scheme \<Rightarrow> 16 word \<Rightarrow> string \<Rightarrow> string" where
  "error_text g mn s =
     (if mn = 1 then ''HTTP/1.1 '' else ''HTTP/1.0 '') @ s @ CRLF @ date_line g @ server_line @
     content_type_line ''text/html'' @ content_length_line (int (length (page_text g s))) @ connection_line False @ CRLF @
     take 8191 (page_text g s)"

lemma appendsE:
  assumes "appends f x r g"
  obtains b rs where "f r g = Some (r\<lparr>r_ob := b\<rparr>, g\<lparr>k_realloc := rs\<rparr>)" and "ob_ok (r\<lparr>r_ob := b\<rparr>)"
    and "ob_text (r\<lparr>r_ob := b\<rparr>) = ob_text r @ x" and "ob_room (r\<lparr>r_ob := b\<rparr>) = ob_room r - int (length x)"
proof -
  obtain r' g' where *: "f r g = Some (r', g')" "ob.extends_by x (r, g) (r', g')" using assms by (auto simp: appends_def)
  note p = extends_by_parts [OF *(2)]
  show thesis by (rule that [of "r_ob r'" "k_realloc g'"]) (use *(1) p in \<open>simp_all add: p(1,2) [symmetric]\<close>)
qed

lemma ob_keep_alive [simp]:
  "ob_ok (r\<lparr>r_par := p\<rparr>) = ob_ok r" "ob_text (r\<lparr>r_par := p\<rparr>) = ob_text r" "ob_room (r\<lparr>r_par := p\<rparr>) = ob_room r"
  by (simp_all add: ob_ok_def ob_text_def ob_room_def)

lemma err_length_appends:
  assumes "ob_ok r" and "page_ok g" and "ar_err_req (r_par r)" and "status_table_at g (r_status_code r) = Some (Some s)"
    and "NUL \<notin> set s" and n: "int (length (page_text g s)) < 2 ^ 31"
    and room: "int (length (content_length_line (int (length (page_text g s))))) \<le> ob_room r"
  obtains b ep rs where "response_append_content_length r g = Some (r\<lparr>r_ob := b\<rparr>, g\<lparr>g_err_page := ep, k_realloc := rs\<rparr>)"
    and "ob_ok (r\<lparr>r_ob := b\<rparr>)" and "ob_text (r\<lparr>r_ob := b\<rparr>) = ob_text r @ content_length_line (int (length (page_text g s)))"
    and "ob_room (r\<lparr>r_ob := b\<rparr>) = ob_room r - int (length (content_length_line (int (length (page_text g s)))))"
    and "page_ok (g\<lparr>g_err_page := ep\<rparr>)" and "raw_err_page ep = raw_err_page (g_err_page g)"
    and "cstring (b_buf (rendered_err_page ep)) = Some (take 8191 (page_text g s))"
proof -
  obtain ep where ep: "render_err_page r g = Some (int (length (page_text g s)), g\<lparr>g_err_page := ep\<rparr>)"
    "page_ok (g\<lparr>g_err_page := ep\<rparr>)" "raw_err_page ep = raw_err_page (g_err_page g)"
    "cstring (b_buf (rendered_err_page ep)) = Some (take 8191 (page_text g s))"
    using render_err_page_ok [OF assms(2,4,5) n] by blast
  let ?l = "content_length_line (int (length (page_text g s)))"
  have "appends (append_ob [?l]) ?l r (g\<lparr>g_err_page := ep\<rparr>)"
    using append_ob_appends [OF assms(1), of "[?l]"] line_no_nul(1) room by simp
  from appendsE [OF this] obtain b rs where
    "append_ob [?l] r (g\<lparr>g_err_page := ep\<rparr>) = Some (r\<lparr>r_ob := b\<rparr>, g\<lparr>g_err_page := ep\<rparr>\<lparr>k_realloc := rs\<rparr>)"
    "ob_ok (r\<lparr>r_ob := b\<rparr>)" "ob_text (r\<lparr>r_ob := b\<rparr>) = ob_text r @ ?l" "ob_room (r\<lparr>r_ob := b\<rparr>) = ob_room r - int (length ?l)" .
  then show thesis using ep assms(3) by (intro that [where b = b and ep = ep and rs = rs]) (simp_all add: response_append_content_length_def content_length_line_def)
qed

text \<open>The four lines every head starts with, and the end of an error response.\<close>

lemma head_start_appends:
  assumes "ob_ok r" and "tables_ok g" and "0 \<le> r_status_code r" and "r_status_code r < 512"
    and "gmtime (k_now g) = Some t" and "ext_readable r" and "160 \<le> ob_room r"
  shows "appends (\<lambda>r g. response_append_status_line r g \<bind> (\<lambda>(r, g). response_append_date r g \<bind>
      (\<lambda>(r, g). response_append_server r g \<bind> (\<lambda>(r, g). response_append_content_type r g))))
    (status_line r g @ date_line g @ server_line @ content_type_line (content_type r)) r g"
proof (intro appends_bind)
  note len = line_lengths(1) [OF assms(2), of r] line_lengths(2) [of g] line_lengths(3) line_lengths(4) [of r]
  show "appends response_append_status_line (status_line r g) r g"
    by (rule status_line_appends) (use assms len in auto)
  fix r1 g1 assume e1: "ob.extends_by (status_line r g) (r, g) (r1, g1)"
  note f1 = extends_frame [OF e1]
  show "appends response_append_date (date_line g) r1 g1"
    using date_line_appends [of r1 g1 t] f1 assms len by simp
  fix r2 g2 assume e2: "ob.extends_by (date_line g) (r1, g1) (r2, g2)"
  note f2 = extends_frame [OF e2]
  show "appends response_append_server server_line r2 g2"
    by (rule server_line_appends) (use f1 f2 assms len in auto)
  fix r3 g3 assume e3: "ob.extends_by server_line (r2, g2) (r3, g3)"
  note f3 = extends_frame [OF e3]
  show "appends response_append_content_type (content_type_line (content_type r)) r3 g3"
    using content_type_appends [of r3 g3] f1 f2 f3 assms len by simp
qed

lemma err_end_appends:
  assumes "ob_ok r" and "\<not> ar_keep_alive (r_par r)" and "NUL \<notin> set p" and "26 + int (length p) \<le> ob_room r"
    and "cstring (err_page_render_buf g) = Some p"
  shows "appends (\<lambda>r g. response_append_connection r g \<bind> (\<lambda>(r, g). response_append_crlf r g \<bind>
      (\<lambda>(r, g). cstring (err_page_render_buf g) \<bind> (\<lambda>p. append_ob [p] r g))))
    (connection_line False @ CRLF @ p) r g"
proof (intro appends_bind)
  show "appends response_append_connection (connection_line False) r g"
    using connection_line_appends [of r g] assms by (simp add: connection_line_def)
  fix r1 g1 assume e1: "ob.extends_by (connection_line False) (r, g) (r1, g1)"
  note f1 = extends_frame(11,12) [OF e1]
  show "appends response_append_crlf CRLF r1 g1" by (rule crlf_appends) (use f1 assms in \<open>simp_all add: connection_line_def\<close>)
  fix r2 g2 assume e2: "ob.extends_by CRLF (r1, g1) (r2, g2)"
  have "g_err_page g2 = g_err_page g"
    by (subst extends_by_parts(2) [OF e2], subst extends_by_parts(2) [OF e1]) simp
  then show "appends (\<lambda>r g. cstring (err_page_render_buf g) \<bind> (\<lambda>p. append_ob [p] r g)) p r2 g2"
    using append_ob_appends [of r2 "[p]" g2] extends_frame(11,12) [OF e2] f1 assms
    by (simp add: connection_line_def appends_def err_page_render_buf_def)
qed

lemma assemble_err_ok:
  fixes r :: request_t and w :: "'x world_scheme"
  assumes ob: "ob_ok r" and tab: "tables_ok w" "page_ok w" and code: "0 \<le> code" "code < 512" "g_status_table w code = Some s"
    and now: "gmtime (k_now w) = Some t" and n: "int (length (page_text w s)) < 2 ^ 31"
    and room: "256 + int (min 8191 (length (page_text w s))) \<le> ob_room r"
  shows "\<exists>b ep rs. let r' = r\<lparr>r_status_code := code, r_req_handler := None,
        r_par := (r_par r)\<lparr>ar_err_req := True, ar_keep_alive := False\<rparr>, r_ob := b\<rparr> in
    assemble_err_text code r w = Some (r', w\<lparr>g_err_page := ep, k_realloc := rs\<rparr>) \<and> ob_ok r' \<and>
    ob_text r' = ob_text r @ error_text w (http_minor (ar_version (r_par r))) s \<and>
    page_ok (w\<lparr>g_err_page := ep\<rparr>) \<and> raw_err_page ep = raw_err_page (g_err_page w)"
proof -
  let ?p = "page_text w s" let ?l = "content_length_line (int (length ?p))"
  let ?r = "r\<lparr>r_par := (r_par r)\<lparr>ar_err_req := True\<rparr>, r_status_code := code, r_req_handler := None\<rparr>"
  have o: "ob_ok ?r" "ob_text ?r = ob_text r" "ob_room ?r = ob_room r" using ob by (simp_all add: ob_ok_def ob_text_def ob_room_def)
  have nn: "NUL \<notin> set s" using status_entry [OF tab(1) code(3)] by simp
  have "length ?l \<le> 29" "length (connection_line False) \<le> 24" using line_lengths(5) [of "int (length ?p)"] n line_lengths(6) by auto
  note len = line_lengths(1) [OF tab(1), of ?r] line_lengths(2) [of w] line_lengths(3) line_lengths(4) [of ?r] this
  note rm = room len o
  have ct: "content_type ?r = ''text/html''" "status_line ?r w = (if http_minor (ar_version (r_par r)) = 1 then ''HTTP/1.1 '' else ''HTTP/1.0 '') @ s @ CRLF"
    using code(3) by (simp_all add: content_type_def status_line_def)
  have "appends (\<lambda>r g. response_append_status_line r g \<bind> (\<lambda>(r, g). response_append_date r g \<bind>
      (\<lambda>(r, g). response_append_server r g \<bind> (\<lambda>(r, g). response_append_content_type r g))))
    (status_line ?r w @ date_line w @ server_line @ content_type_line (content_type ?r)) ?r w"
    by (rule head_start_appends [where t = t]) (use rm tab code now in \<open>auto simp: ext_readable_def\<close>)
  from appendsE [OF this] obtain b1 rs1 where 1: "response_append_status_line ?r w \<bind> (\<lambda>(r, g). response_append_date r g \<bind>
      (\<lambda>(r, g). response_append_server r g \<bind> (\<lambda>(r, g). response_append_content_type r g))) = Some (?r\<lparr>r_ob := b1\<rparr>, w\<lparr>k_realloc := rs1\<rparr>)"
    "ob_ok (?r\<lparr>r_ob := b1\<rparr>)" "ob_text (?r\<lparr>r_ob := b1\<rparr>) = ob_text ?r @ status_line ?r w @ date_line w @ server_line @ content_type_line (content_type ?r)"
    "ob_room (?r\<lparr>r_ob := b1\<rparr>) = ob_room ?r - int (length (status_line ?r w @ date_line w @ server_line @ content_type_line (content_type ?r)))" .
  let ?r1 = "?r\<lparr>r_ob := b1\<rparr>" let ?w1 = "w\<lparr>k_realloc := rs1\<rparr>"
  have rm1: "100 + int (min 8191 (length ?p)) \<le> ob_room ?r1" using 1(4) rm by simp
  have st: "status_table_at ?w1 (r_status_code ?r1) = Some (Some s)" "page_text ?w1 s = ?p"
    using code by (simp_all add: status_table_at_def page_text_def)
  obtain b2 ep rs2 where 2: "response_append_content_length ?r1 ?w1 = Some (?r1\<lparr>r_ob := b2\<rparr>, ?w1\<lparr>g_err_page := ep, k_realloc := rs2\<rparr>)"
    "ob_ok (?r1\<lparr>r_ob := b2\<rparr>)" "ob_text (?r1\<lparr>r_ob := b2\<rparr>) = ob_text ?r1 @ ?l" "ob_room (?r1\<lparr>r_ob := b2\<rparr>) = ob_room ?r1 - int (length ?l)"
    "page_ok (?w1\<lparr>g_err_page := ep\<rparr>)" "raw_err_page ep = raw_err_page (g_err_page ?w1)"
    "cstring (b_buf (rendered_err_page ep)) = Some (take 8191 ?p)"
    by (rule err_length_appends [of ?r1 ?w1 s, unfolded st]) (use 1(2) tab nn n rm rm1 st in \<open>simp_all add: page_ok_def\<close>)
  let ?r2 = "r\<lparr>r_status_code := code, r_req_handler := None, r_ob := b2,
      r_par := (r_par r)\<lparr>ar_err_req := True, ar_keep_alive := False\<rparr>\<rparr>" let ?w2 = "w\<lparr>g_err_page := ep, k_realloc := rs2\<rparr>"
  have r2: "ob_ok ?r2" "ob_text ?r2 = ob_text ?r1 @ ?l" "ob_room ?r2 = ob_room ?r1 - int (length ?l)"
    using 2(2-4) by (simp_all add: ob_ok_def ob_text_def ob_room_def)
  have pn: "NUL \<notin> set (take 8191 ?p)"
    using format_s_no_nul [OF page_text_eq [OF tab(2), of s]] nn by (auto dest: in_set_takeD)
  have "appends (\<lambda>r g. response_append_connection r g \<bind> (\<lambda>(r, g). response_append_crlf r g \<bind>
      (\<lambda>(r, g). cstring (err_page_render_buf g) \<bind> (\<lambda>p. append_ob [p] r g))))
      (connection_line False @ CRLF @ take 8191 ?p) ?r2 ?w2"
    by (rule err_end_appends) (use r2 rm1 rm pn 2(7) in \<open>auto simp: err_page_render_buf_def\<close>)
  from appendsE [OF this] obtain b3 rs3 where 3: "response_append_connection ?r2 ?w2 \<bind> (\<lambda>(r, g). response_append_crlf r g \<bind>
      (\<lambda>(r, g). cstring (err_page_render_buf g) \<bind> (\<lambda>p. append_ob [p] r g))) = Some (?r2\<lparr>r_ob := b3\<rparr>, ?w2\<lparr>k_realloc := rs3\<rparr>)" "ob_ok (?r2\<lparr>r_ob := b3\<rparr>)"
    "ob_text (?r2\<lparr>r_ob := b3\<rparr>) = ob_text ?r2 @ connection_line False @ CRLF @ take 8191 ?p" .
  have "assemble_err_text code r w = Some (?r2\<lparr>r_ob := b3\<rparr>, ?w2\<lparr>k_realloc := rs3\<rparr>)"
    using 1(1) 2(1) 3(1) by (auto simp: assemble_err_text_def Let_def bind_eq_Some_conv)
  then show ?thesis using 3(2,3) r2(2) 1(3) 2(5,6) o(2) ct unfolding Let_def
    by (intro exI [of _ b3] exI [of _ ep] exI [of _ rs3]) (simp add: error_text_def page_ok_def)
qed

end
