(* ===== verification/Outcomes.thy ===== *)
theory Outcomes
  imports Serving
begin

text \<open>
  What the server does with a whole request, as a client sees it: the response to a well-formed
  request for a file, the error responses, and the cases where the code does something else than
  its comments say.
\<close>

section \<open>A file is served\<close>

lemma response_head_length:
  assumes "- (2 ^ 31) \<le> n" and "n < 2 ^ 31"
  shows "length (response_head g mn ext n keep) < 256"
  using line_lengths(2) [of g] line_lengths(3) line_lengths(5) [OF assms] line_lengths(6) [of keep] mime_of_facts [of ext]
  by (simp add: response_head_def content_type_line_def)

text \<open>
  C1. A request for a file is answered with the file. Let an idle connection receive, in any pieces,
  a request line for an existing file (or a directory with an \<open>index.html\<close>), header lines the server
  understands, the empty line and the announced body. Then \<open>request_handle\<close> succeeds and turns the
  connection to output, and the following calls of \<open>response_handle\<close>, however the kernel takes the
  bytes, put on the socket the head (version, status, date, type by extension, the file's size and
  the connection option chosen by version and headers) and then exactly the file's bytes. With
  keep-alive the connection is idle again, otherwise it is reported for closing.
\<close>
theorem request_served:
  assumes "idle c w" and "sock_at (c_fd c) w = Some s" and "pull (s_in s) = (AGAIN, y, as')"
    and "y = line @ head_text hs fin @ body" and "good_line me u t maj mn line" and "header_lines hs" and "empty_line fin"
    and "tables_ok w" and "handlers_ok w" and "gmtime (k_now w) = Some now"
    and "resource w (rel_path (url_path u)) = Some (i, dir)" and "k_inode w i = Regular x" and "length x < 2 ^ 31"
    and "int (length y) \<le> b_free (r_ib (c_req c))" and "256 \<le> ob_room (c_req c)"
    and "header_options hs (digits_val maj = 1 \<and> digits_val mn = 1, - 1) = (keep, len)" and "len \<le> int (length body)"
    and "list_all (\<lambda>as. Send_fail \<notin> set as) ass" and "256 + length x \<le> length (concat ass)"
  shows "\<exists>c1 w1 c2 w2. request_handle c w = Some (OK, c1, w1) \<and> CONN_IS_OUT c1 \<and> \<not> CONN_IS_IN c1 \<and>
    sock_out (c_fd c) w1 = s_out s \<and> deliver ass c1 w1 = Some (if keep then OK else ERROR, c2, w2) \<and>
    sock_out (c_fd c) w2 = s_out s @ response_head w mn (resource_ext (url_path u) dir) (int (length x)) keep @ x \<and>
    (keep \<longrightarrow> idle c2 w2)"
proof -
  let ?h = "response_head w mn (resource_ext (url_path u) dir) (int (length x)) keep"
  obtain c1 w1 where r: "request_handle c w = Some (OK, c1, w1)" "c_fd c1 = c_fd c" "send_ready c1 w1"
    "CONN_IS_OUT c1" "\<not> CONN_IS_IN c1" "buffer_inv (r_ib (c_req c1))" "sock_out (c_fd c) w1 = s_out s"
    "to_send c1 w1 = ?h @ x" "ar_keep_alive (r_par (c_req c1)) = keep"
    using request_handled [OF assms(1-17)] by blast
  obtain st c2 w2 y' z where d: "deliver ass c1 w1 = Some (st, c2, w2)" "?h @ x = y' @ z" "sock_out (c_fd c) w2 = s_out s @ y'"
    "if st = AGAIN then send_ready c2 w2 \<and> to_send c2 w2 = z \<and> length (concat ass) \<le> length y'
     else z = [] \<and> st = (if keep then OK else ERROR) \<and> (st = OK \<longrightarrow> idle c2 w2)"
    using deliver_stream [OF r(3,6) assms(18)] r(2,7,8,9) by auto
  have "length ?h < 256" using assms(13) by (intro response_head_length) auto
  then have "length y' < length (concat ass)" using arg_cong [OF d(2), of length] assms(19) by simp
  then have "st \<noteq> AGAIN" using d(4) by auto
  with d r show ?thesis by (auto split: if_splits)
qed

section \<open>A small site\<close>

text \<open>
  A server for concrete runs: the document root is inode 0 with one file \<open>index.html\<close>, and
  connection 5 waits to be read. The bytes of its request come in two pieces.
\<close>

definition site :: "recv_answer list \<Rightarrow> world" where
  "site ins = \<lparr>k_fds = [(3, Fd_file 0 0), (5, Fd_sock \<lparr>s_in = ins, s_send = [], s_out = []\<rparr>)],
     k_epoll = [5 \<mapsto> (0x80000001, Some 0)], k_epoll_room = True, k_pending = [],
     k_namei = (\<lambda>d p. if d = 0 \<and> p = ''./'' then Some 0 else if d = 0 \<and> p = ''index.html'' then Some 1 else
       if d = 0 \<and> p = ''empty'' then Some 2 else None),
     k_inode = (\<lambda>i. if i = 1 then Regular ''hello'' else Directory 4096), k_now = 0, k_realloc = [], k_malloc = [],
     g_rootdir_fd = 3, g_status_table = fill_status (\<lambda>_. None) HTTP_STATUS_MAP, g_mime_dict = the (put_mime dict_init mime_list),
     g_err_page = \<lparr>err_page_fd = 4, raw_err_page = map Some ''%s'' @ [Some NUL], raw_page_size = 2,
        rendered_err_page = the (buffer_init True), rendered_page_size = 0\<rparr>,
     w_header_dict = the (put_handlers dict_init hf_list)\<rparr>"

definition site_conn :: conn where
  "site_conn = \<lparr>c_fd = 5, c_events = 0x80000001, c_active_time = 0, c_heap_idx = 0, c_data_ptr = Some 0,
     c_req = fresh_request 0 (the (buffer_init True)) (buffer_init True)\<rparr>"

lemma site_tables: "tables_ok (site ins)" "handlers_ok (site ins)"
  using put_tables by (auto simp: tables_ok_def handlers_ok_def site_def)

lemma first_buffer: "\<exists>b. buffer_init True = Some b \<and> buffer_inv b \<and> buffer_data b = [] \<and> b_free b = 8192"
  using buffer_new_ok [of 8192] by (auto simp: buffer_init_def)

lemma site_idle:
  "idle site_conn (site ins)" "sock_at 5 (site ins) = Some \<lparr>s_in = ins, s_send = [], s_out = []\<rparr>" "c_fd site_conn = 5"
  "b_free (r_ib (c_req site_conn)) = 8192" "ob_room (c_req site_conn) = 8192"
  using first_buffer
  by (auto simp: idle_def site_conn_def site_def fresh_request_def interest_ok_def event_of_def CONN_IS_IN_def CONN_IS_OUT_def
      sock_at_def fd_lookup_def ob_room_def)

text \<open>The request, its lines and what they mean.\<close>

definition get_line :: "string \<Rightarrow> string" where
  "get_line u = ''GET '' @ u @ '' HTTP/1.1'' @ CRLF"

lemma get_line_good:
  assumes "u \<noteq> []" and "hd u = CHR ''/''" and "list_all url_char u"
  shows "good_line HTTP_GET u SP ''1'' ''1'' (get_line u)"
proof -
  have "request_line HTTP_GET u SP ''1'' ''1'' (get_line u)"
    unfolding request_line_def
    by (rule exI [of _ "''GET''"], rule exI [of _ "[]"], rule exI [of _ "[]"], rule exI [of _ "''HTTP/''"])
      (use assms in \<open>simp add: get_line_def method_of_def http_tag_def blank_def short_num_def is_digit_char_def
        ord_char_def digits_val_def list_all_iff\<close>)
  then show ?thesis by (simp add: good_line_def digits_val_def ord_char_def)
qed

definition host_line :: "((string \<times> string) \<times> string) list" where
  "host_line = [((''Host'', ''a''), ''Host: a'' @ CRLF)]"

lemma host_line_ok: "header_lines host_line" "header_options host_line ops = ops" "empty_line CRLF"
proof -
  have "header_line ''Host'' ''a'' (''Host: a'' @ CRLF)"
    unfolding header_line_def by (rule exI [of _ "[]"], rule exI [of _ "'' ''"])
      (simp add: blank_def is_name_char_def is_upper_char_def is_lower_char_def is_digit_char_def ord_char_def val_char_def)
  then show "header_lines host_line"
    by (simp add: header_lines_def host_line_def header_fine_def tolower_def is_upper_char_def ord_char_def)
  show "header_options host_line ops = ops"
    by (simp add: header_options_def host_line_def header_effect_def tolower_def is_upper_char_def ord_char_def)
  show "empty_line CRLF" by (simp add: empty_line_def)
qed

lemma gmtime_0: "gmtime 0 \<noteq> None" by code_simp

definition site_run :: "string \<Rightarrow> recv_answer list" where
  "site_run u = [Recv_bytes ''GET'', Recv_bytes (drop 3 (get_line u) @ head_text host_line CRLF)]"

lemma site_run_pull: "pull (site_run u) = (AGAIN, get_line u @ head_text host_line CRLF, [])"
  by (simp add: site_run_def get_line_def host_line_def head_text_def)

lemma root_url: "url_path ''/'' = ''/''" "rel_path ''/'' = ''./''" "list_all url_char ''/''"
  by (simp_all add: url_path_def rel_path_def url_char_def blank_def)

theorem request_served_witness:
  "\<exists>c1 w1 c2 w2. request_handle site_conn (site (site_run ''/'')) = Some (OK, c1, w1) \<and>
     deliver (replicate 300 [Send_some 0]) c1 w1 = Some (OK, c2, w2) \<and> idle c2 w2 \<and>
     sock_out 5 w2 = response_head (site (site_run ''/'')) ''1'' ''html'' 5 True @ ''hello''"
proof -
  let ?w = "site (site_run ''/'')" let ?y = "get_line ''/'' @ head_text host_line CRLF"
  obtain t where t: "gmtime (k_now ?w) = Some t" using gmtime_0 by (auto simp: site_def)
  have res: "resource ?w (rel_path (url_path ''/'')) = Some (1, True)" "k_inode ?w 1 = Regular ''hello''"
    by (simp_all add: resource_def site_def fd_lookup_def root_url)
  have pull: "pull (s_in \<lparr>s_in = site_run ''/'', s_send = [], s_out = []\<rparr>) = (AGAIN, ?y, [])" by (simp add: site_run_pull)
  have y: "?y = get_line ''/'' @ head_text host_line CRLF @ []" "int (length ?y) \<le> b_free (r_ib (c_req site_conn))"
    by (simp_all add: site_idle get_line_def head_text_def host_line_def)
  have ops: "header_options host_line (digits_val ''1'' = 1 \<and> digits_val ''1'' = 1, - 1) = (True, - 1)"
    by (simp add: host_line_ok digits_val_def ord_char_def)
  have ans: "list_all (\<lambda>as. Send_fail \<notin> set as) (replicate 300 [Send_some 0])"
    "256 + length ''hello'' \<le> length (concat (replicate 300 [Send_some 0]))"
    by (simp_all add: list_all_iff length_concat sum_list_replicate)
  show ?thesis
    using request_served [OF site_idle(1) site_idle(2) [folded site_idle(3)] pull y(1) get_line_good host_line_ok(1,3)
        site_tables t res _ y(2) _ ops _ ans] root_url
    by (simp add: site_idle resource_ext_def) blast
qed

section \<open>Refused requests\<close>

text \<open>
  A connection with an error response in its output buffer. The response counts as done before it
  is sent, and the connection is not kept alive.
\<close>

definition error_pending :: "conn \<Rightarrow> 'x world_scheme \<Rightarrow> string \<Rightarrow> bool" where
  "error_pending c w tx \<longleftrightarrow> interest_ok c w \<and> CONN_IS_OUT c \<and> \<not> CONN_IS_IN c \<and> ob_ok (c_req c) \<and> ob_text (c_req c) = tx \<and>
     r_req_handler (c_req c) = None \<and> ar_response_done (r_par (c_req c)) \<and> \<not> ar_keep_alive (r_par (c_req c)) \<and>
     r_res_handler (c_req c) = response_handle_send_buffer_h \<and> ar_buffer_sent (r_par (c_req c)) = 0"

text \<open>The server can render its error page for the status text \<open>s\<close> and the result fits the output buffer.\<close>

definition can_refuse :: "request_t \<Rightarrow> 'x world_scheme \<Rightarrow> bool" where
  "can_refuse r w \<longleftrightarrow> tables_ok w \<and> page_ok w \<and> gmtime (k_now w) \<noteq> None \<and> ob_ok r \<and>
     (\<forall>code s. g_status_table w code = Some s \<longrightarrow> 256 + int (length (page_text w s)) \<le> ob_room r)"

lemma err_buffer_ok:
  assumes "interest_ok c w" and "can_refuse (c_req c) w" and "0 \<le> code" "code < 512" and s: "g_status_table w code = Some s"
    and h: "r_res_handler (c_req c) = response_handle_send_buffer_h" "ar_buffer_sent (r_par (c_req c)) = 0"
  shows "\<exists>c' e ep rs. let w' = w\<lparr>g_err_page := ep, k_epoll := e, k_realloc := rs\<rparr> in
    response_assemble_err_buffer code c w = Some (OK, c', w') \<and> c_fd c' = c_fd c \<and> r_resource_fd (c_req c') = r_resource_fd (c_req c) \<and>
    error_pending c' w' (ob_text (c_req c) @ error_text w (http_minor (ar_version (r_par (c_req c)))) s)"
proof -
  let ?r = "c_req c"
  obtain t where ok: "tables_ok w" "page_ok w" "gmtime (k_now w) = Some t" "ob_ok ?r" "256 + int (length (page_text w s)) \<le> ob_room ?r"
    using assms(2) s by (auto simp: can_refuse_def)
  have "ob_room ?r < 2 ^ 31" using ok(4) by (auto simp: ob_ok_def ob_room_def buffer_inv_def split: option.splits)
  then have n: "int (length (page_text w s)) < 2 ^ 31" "256 + int (min 8191 (length (page_text w s))) \<le> ob_room ?r" using ok(5) by auto
  obtain b ep rs where a: "let r' = ?r\<lparr>r_status_code := code, r_req_handler := None,
        r_par := (r_par ?r)\<lparr>ar_err_req := True, ar_keep_alive := False\<rparr>, r_ob := b\<rparr> in
    assemble_err_text code ?r w = Some (r', w\<lparr>g_err_page := ep, k_realloc := rs\<rparr>) \<and> ob_ok r' \<and>
    ob_text r' = ob_text ?r @ error_text w (http_minor (ar_version (r_par ?r))) s \<and>
    page_ok (w\<lparr>g_err_page := ep\<rparr>) \<and> raw_err_page ep = raw_err_page (g_err_page w)"
    using assemble_err_ok [OF ok(4,1,2) assms(3,4) s ok(3) n] by blast
  let ?r' = "?r\<lparr>r_status_code := code, r_req_handler := None,
        r_par := (r_par ?r)\<lparr>ar_err_req := True, ar_keep_alive := False\<rparr>, r_ob := b\<rparr>"
  let ?w = "w\<lparr>g_err_page := ep, k_realloc := rs\<rparr>"
  have "interest_ok (c\<lparr>c_req := ?r'\<rparr>) ?w" using assms(1) by (simp add: interest_ok_def event_of_def)
  then obtain ev e c1 w1 where ep: "connection_disable_in (c\<lparr>c_req := ?r'\<rparr>) ?w = (OK, c1, w1)"
    "connection_enable_out c1 w1 = (OK, c\<lparr>c_req := ?r'\<rparr>\<lparr>c_events := ev\<rparr>, ?w\<lparr>k_epoll := e\<rparr>)"
    "interest_ok (c\<lparr>c_req := ?r'\<rparr>\<lparr>c_events := ev\<rparr>) (?w\<lparr>k_epoll := e\<rparr>)" "bit ev 2" "\<not> bit ev 0" by (rule turn_to_output)
  let ?c = "upd_par (\<lambda>ar. ar\<lparr>ar_response_done := True\<rparr>) (c\<lparr>c_events := ev, c_req := ?r'\<rparr>)"
  let ?w' = "w\<lparr>g_err_page := ep, k_epoll := e, k_realloc := rs\<rparr>"
  have "response_assemble_err_buffer code c w = Some (OK, ?c, ?w')"
    using a ep(1,2) by (simp add: response_assemble_err_buffer_def with_req_def Let_def)
  moreover have "error_pending ?c ?w' (ob_text ?r @ error_text w (http_minor (ar_version (r_par ?r))) s)"
    using a ep(3-5) h unfolding error_pending_def is_in_bit is_out_bit Let_def
    by (simp add: interest_ok_def event_of_def ob_ok_def ob_text_def)
  ultimately show ?thesis unfolding Let_def
    by (intro exI [of _ ?c] exI [of _ e] exI [of _ ep] exI [of _ rs]) simp
qed

lemma parse_url_sent: "parse_url m p q ar = Some (st, ar') \<Longrightarrow> ar_buffer_sent ar' = ar_buffer_sent ar"
proof -
  assume "parse_url m p q ar = Some (st, ar')"
  then obtain us r where "(case r of Inl (st, u) \<Rightarrow> Some (st, ar\<lparr>ar_request_url_string := us, ar_url := u\<rparr>)
     | Inr u \<Rightarrow> do { u' \<leftarrow> parse_extension m u; Some (OK, ar\<lparr>ar_request_url_string := us, ar_url := u'\<rparr>) }) = Some (st, ar')"
    by (auto simp: parse_url_def bind_eq_Some_conv Let_def)
  then show ?thesis by (cases r) (auto simp: bind_eq_Some_conv)
qed

lemma rl_body_sent:
  "rl_body m p ch ar = Some r \<Longrightarrow>
   case r of Next ar' \<Rightarrow> ar_buffer_sent ar' = ar_buffer_sent ar | Return st ar' \<Rightarrow> ar_buffer_sent ar' = ar_buffer_sent ar
     | Goto_done ar' \<Rightarrow> ar_buffer_sent ar' = ar_buffer_sent ar"
  by (cases "ar_state ar")
    (auto simp: rl_body_def rl_method_def rl_expect_def push_major_def push_minor_def Let_def bind_eq_Some_conv
      dest!: parse_url_sent split: if_splits)

lemma parse_request_line_sent:
  assumes "parse_request_line a b ar = Some (st, ar')"
  shows "ar_buffer_sent ar' = ar_buffer_sent ar"
proof -
  obtain r n where r: "scan_loop rl_body [a \<mapsto> b_buf b] (ar_next_parse_pos ar) n ar = Some r"
    and "(st, ar') = (case r of At_end ar \<Rightarrow> (AGAIN, ar\<lparr>ar_next_parse_pos := buffer_end a b\<rparr>) | Returned st ar \<Rightarrow> (st, ar)
     | Done_at p ar \<Rightarrow> (OK, ar\<lparr>ar_next_parse_pos := ptr_add p 1, ar_state := S_HD_BEGIN\<rparr>))"
    using assms by (auto simp: parse_request_line_def scan_def bind_eq_Some_conv)
  moreover note scan_loop_field [of rl_body _ ar_buffer_sent, OF rl_body_sent r]
  ultimately show ?thesis by (cases r) auto
qed

text \<open>
  The requests that are refused when their request line is read, with the status codes: a line that
  does not follow the grammar, a version beyond 1.1, a name that cannot be opened.
\<close>

definition not_found :: "'x world_scheme \<Rightarrow> string \<Rightarrow> bool" where
  "not_found w path \<longleftrightarrow> (case fd_lookup w (g_rootdir_fd w) of Some (Fd_file d _) \<Rightarrow> k_namei w d path = None | _ \<Rightarrow> True)"

inductive refused :: "'x world_scheme \<Rightarrow> string \<Rightarrow> int \<Rightarrow> bool" for w y where
  bad_line: "ref_request_line y = Ref_bad \<Longrightarrow> refused w y 400"
| bad_version: "request_line me u t maj mn line \<Longrightarrow> y = line @ rest \<Longrightarrow> 1 < digits_val maj \<or> 1 < digits_val mn \<Longrightarrow> refused w y 505"
| missing: "good_line me u t maj mn line \<Longrightarrow> y = line @ rest \<Longrightarrow> not_found w (rel_path (url_path u)) \<Longrightarrow> refused w y 404"

inductive_cases refusedE: "refused w y code"

lemma not_found_open: "not_found w path \<Longrightarrow> sys_openat (g_rootdir_fd w) path w = (ERROR, w)"
  by (auto simp: not_found_def sys_openat_def split: option.splits fd_object.splits)

lemma not_found_set_in:
  assumes "sock_at fd w = Some s"
  shows "not_found ((set_in fd as w)\<lparr>k_realloc := rs\<rparr>) path = not_found w path"
proof -
  let ?w = "(set_in fd as w)\<lparr>k_realloc := rs\<rparr>"
  have eqs: "k_namei ?w = k_namei w" "g_rootdir_fd ?w = g_rootdir_fd w" by simp_all
  show ?thesis unfolding not_found_def eqs using sock_at_lookup [THEN iffD1, OF assms]
    by (cases "g_rootdir_fd w = fd") (simp_all add: fd_lookup_set_in [OF assms])
qed

lemma can_refuse_frame:
  assumes "r_ob r' = r_ob r"
  shows "can_refuse r' ((set_in fd as w)\<lparr>k_realloc := rs\<rparr>) = can_refuse r w"
    and "error_text ((set_in fd as w)\<lparr>k_realloc := rs\<rparr>) mn s = error_text w mn s"
  using assms by (simp_all add: can_refuse_def ob_ok_def ob_room_def page_ok_def page_text_def error_text_def date_line_def tables_ok_def)

text \<open>Each refusal ends in \<open>response_assemble_err_buffer\<close> with its code, before any file is open.\<close>

lemma refused_line:
  assumes ref: "refused w y code" and par: "r_par (c_req c) = parse_archive_init (r_ib_at (c_req c))"
    and b: "buffer_inv (r_ib (c_req c))" "buffer_data (r_ib (c_req c)) = y"
  shows "\<exists>ar ib. request_handle_request_line c w = response_assemble_err_buffer code (upd_req (\<lambda>r. r\<lparr>r_par := ar, r_ib := ib\<rparr>) c) w \<and>
    ar_buffer_sent ar = 0"
  using ref
proof (cases rule: refused.cases)
  case bad_line
  then obtain ar where p: "parse_request_line (r_ib_at (c_req c)) (r_ib (c_req c)) (r_par (c_req c)) = Some (INVALID_REQUEST, ar)"
    using parse_request_line_ref [OF b(1) le0, of "r_ib_at (c_req c)" "r_par (c_req c)"] init_fresh b(2) unfolding par by auto
  have "ar_buffer_sent ar = 0" using parse_request_line_sent [OF p] par by (simp add: parse_archive_init_def)
  then show ?thesis using p bad_line
    by (intro exI [of _ ar] exI [of _ "r_ib (c_req c)"]) (simp add: request_handle_request_line_def Let_def)
next
  case (bad_version me u t maj mn line rest)
  then have g: "ref_request_line y = Ref_good (me, u, t, maj, mn, rest)"
    using request_line_rest [OF bad_version(2), of 0 y rest] by simp
  obtain i where p: "parse_request_line (r_ib_at (c_req c)) (r_ib (c_req c)) (r_par (c_req c)) = Some (OK,
      (rl_result (r_ib_at (c_req c)) 0 i me u t maj mn (r_par (c_req c)))
      \<lparr>ar_next_parse_pos := PBlk (r_ib_at (c_req c)) (b_len (r_ib (c_req c)) - int (length rest)), ar_state := S_HD_BEGIN\<rparr>)" (is "_ = Some (OK, ?ar)")
    using parse_request_line_ref [OF b(1) le0, of "r_ib_at (c_req c)" "r_par (c_req c)"] init_fresh g b(2) unfolding par by auto
  have "ar_buffer_sent ?ar = 0" using parse_request_line_sent [OF p] par by (simp add: parse_archive_init_def)
  moreover have "1 < http_major (ar_version ?ar) \<or> 1 < http_minor (ar_version ?ar)"
    using bad_version(4) request_line_parts [OF bad_version(2)] by (auto simp: rl_result_def set_version_def version_word)
  ultimately show ?thesis using p bad_version(1)
    by (intro exI [of _ ?ar] exI [of _ "r_ib (c_req c)"]) (auto simp: request_handle_request_line_def Let_def)
next
  case (missing me u t maj mn line rest)
  obtain line' ar where l: "request_handle_request_line c w =
      open_resource (rel_path (url_path u)) (upd_req (\<lambda>r. r\<lparr>r_par := ar, r_ib := ib_with (line' @ rest) (r_ib r)\<rparr>) c) w"
    "line_parsed (r_ib_at (c_req c)) (length line) maj mn ar"
    using request_line_handled [OF par b(1) _ missing(2), of rest w] b(2) missing(3) by blast
  then show ?thesis using not_found_open [OF missing(4)] missing(1)
    by (intro exI [of _ ar] exI [of _ "ib_with (line' @ rest) (r_ib (c_req c))"]) (simp add: open_resource_def line_parsed_def)
qed

text \<open>
  C3. A request line that breaks the grammar, has a version above 1.1 or names nothing that can be
  opened is refused with status 400, 505 or 404: \<open>request_handle\<close> ends with the complete error
  response (head, rendered page and its length) in the output buffer, opens no resource, sends
  nothing yet, turns the connection to output, clears keep-alive and calls no further handler.
\<close>
theorem request_refused:
  assumes "idle c w" and "sock_at (c_fd c) w = Some s" and "pull (s_in s) = (AGAIN, y, as')"
    and "int (length y) \<le> b_free (r_ib (c_req c))" and "can_refuse (c_req c) w"
    and "refused w y code" and "g_status_table w code = Some tx"
  shows "\<exists>c' w' mn. request_handle c w = Some (OK, c', w') \<and> c_fd c' = c_fd c \<and> r_resource_fd (c_req c') = - 1 \<and>
    sock_out (c_fd c) w' = s_out s \<and> error_pending c' w' (error_text w mn tx)"
proof -
  obtain a ib0 ob where f: "c_req c = fresh_request a ib0 (Some ob)" "buffer_inv ib0" "buffer_data ib0 = []"
    "interest_ok c w" "buffer_data ob = []" using assms(1) by (auto simp: idle_def)
  have ib0: "r_ib (c_req c) = ib0" using f(1) by (simp add: fresh_request_def)
  obtain ib rs where recv: "request_recv c w = Some (AGAIN, upd_req (\<lambda>r. r\<lparr>r_ib := ib\<rparr>) c, (set_in (c_fd c) as' w)\<lparr>k_realloc := rs\<rparr>)"
    "buffer_inv ib" "buffer_data ib = y"
    using request_recv_pull [OF _ assms(2-4)] f(2,3) ib0 by auto
  let ?w = "(set_in (c_fd c) as' w)\<lparr>k_realloc := rs\<rparr>" let ?c = "upd_req (\<lambda>r. r\<lparr>r_ib := ib\<rparr>) c"
  have ref: "refused ?w y code"
    using assms(6) by (cases rule: refused.cases) (auto intro: refused.intros simp: not_found_set_in [OF assms(2)])
  have r: "r_par (c_req ?c) = parse_archive_init (r_ib_at (c_req ?c))" "r_req_handler (c_req ?c) = Some request_handle_request_line_h"
    "buffer_inv (r_ib (c_req ?c))" "buffer_data (r_ib (c_req ?c)) = y"
    using f(1) recv by (simp_all add: fresh_request_def)
  obtain ar ib' where l: "request_handle_request_line ?c ?w = response_assemble_err_buffer code (upd_req (\<lambda>r. r\<lparr>r_par := ar, r_ib := ib'\<rparr>) ?c) ?w"
    "ar_buffer_sent ar = 0" using refused_line [OF ref r(1,3,4)] by blast
  let ?c1 = "upd_req (\<lambda>r. r\<lparr>r_par := ar, r_ib := ib'\<rparr>) c"
  have code: "0 \<le> code" "code < 512" using assms(6) by (auto elim: refusedE)
  have "\<exists>c' e ep rs'. let w' = ?w\<lparr>g_err_page := ep, k_epoll := e, k_realloc := rs'\<rparr> in
    response_assemble_err_buffer code ?c1 ?w = Some (OK, c', w') \<and> c_fd c' = c_fd ?c1 \<and> r_resource_fd (c_req c') = r_resource_fd (c_req ?c1) \<and>
    error_pending c' w' (ob_text (c_req ?c1) @ error_text ?w (http_minor (ar_version (r_par (c_req ?c1)))) tx)"
  proof (rule err_buffer_ok [OF _ _ code])
    show "interest_ok ?c1 ?w" using f(4) by (simp add: interest_ok_def event_of_def)
    show "can_refuse (c_req ?c1) ?w" using assms(5) by (subst can_refuse_frame(1) [of _ "c_req c"]) simp_all
  qed (use assms(7) f(1) l(2) in \<open>simp_all add: fresh_request_def\<close>)
  then obtain c' e ep rs' where "let w' = ?w\<lparr>g_err_page := ep, k_epoll := e, k_realloc := rs'\<rparr> in
    response_assemble_err_buffer code ?c1 ?w = Some (OK, c', w') \<and> c_fd c' = c_fd ?c1 \<and> r_resource_fd (c_req c') = r_resource_fd (c_req ?c1) \<and>
    error_pending c' w' (ob_text (c_req ?c1) @ error_text ?w (http_minor (ar_version (r_par (c_req ?c1)))) tx)" by blast
  note e = this [unfolded Let_def can_refuse_frame(2) [OF refl]]
  let ?w' = "?w\<lparr>g_err_page := ep, k_epoll := e, k_realloc := rs'\<rparr>"
  have "r_req_handler (c_req c') = None" using e by (simp add: error_pending_def)
  then have "request_handle c w = Some (OK, c', ?w')"
    using recv(1) l(1) e req_loop_stop [of ?c request_handle_request_line_h ?w OK c' ?w'] r(2)
    by (simp add: request_handle_def call_req_handler_def)
  moreover have "ob_text (c_req ?c1) = []" "r_resource_fd (c_req ?c1) = - 1" using f(1,5) by (simp_all add: ob_text_def fresh_request_def)
  moreover have "sock_out (c_fd c) ?w' = s_out s"
    using assms(2) by (simp add: sock_out_def sock_at_def fd_lookup_def set_in_def fd_update_def update_conv)
  ultimately show ?thesis using e by (intro exI [of _ c'] exI [of _ ?w'] exI [of _ "http_minor (ar_version ar)"]) simp
qed

lemma site_can_refuse: "can_refuse (c_req site_conn) (site ins)"
proof -
  have "page_ok (site ins)" using first_buffer by (auto simp: page_ok_def site_def buffer_inv_def buffer_data_def)
  moreover have "256 + int (length (page_text (site ins) s)) \<le> ob_room (c_req site_conn)"
    if "g_status_table (site ins) code = Some s" for code s
    using status_entry [OF site_tables(1) that] by (simp add: page_text_def site_def site_idle)
  moreover have "ob_ok (c_req site_conn)" using first_buffer by (auto simp: ob_ok_def site_conn_def fresh_request_def)
  moreover have "gmtime (k_now (site ins)) \<noteq> None" using gmtime_0 by (simp add: site_def)
  ultimately show ?thesis using site_tables(1) unfolding can_refuse_def by blast
qed

theorem request_refused_witness:
  "\<exists>c' w' mn. request_handle site_conn (site (site_run ''/x'')) = Some (OK, c', w') \<and>
     error_pending c' w' (error_text (site (site_run ''/x'')) mn ''404 Not Found'')"
proof -
  let ?w = "site (site_run ''/x'')" let ?y = "get_line ''/x'' @ head_text host_line CRLF"
  have pull: "pull (s_in \<lparr>s_in = site_run ''/x'', s_send = [], s_out = []\<rparr>) = (AGAIN, ?y, [])" by (simp add: site_run_pull)
  have y: "int (length ?y) \<le> b_free (r_ib (c_req site_conn))"
    by (simp add: site_idle get_line_def head_text_def host_line_def)
  have "good_line HTTP_GET ''/x'' SP ''1'' ''1'' (get_line ''/x'')" by (rule get_line_good) (simp_all add: url_char_def blank_def)
  moreover have "not_found ?w (rel_path (url_path ''/x''))"
    by (simp add: not_found_def site_def fd_lookup_def url_path_def rel_path_def)
  ultimately have "refused ?w ?y 404" by (intro missing) auto
  from request_refused [OF site_idle(1) site_idle(2) [folded site_idle(3)] pull y site_can_refuse this status_texts(3) [OF site_tables(1)]]
  show ?thesis by blast
qed

section \<open>A directory without an index\<close>

definition no_index :: "'x world_scheme \<Rightarrow> string \<Rightarrow> int \<Rightarrow> bool" where
  "no_index w path n \<longleftrightarrow>
     (case fd_lookup w (g_rootdir_fd w) of
        Some (Fd_file d _) \<Rightarrow>
          (case k_namei w d path of None \<Rightarrow> False
           | Some i \<Rightarrow> k_inode w i = Directory n \<and> k_namei w i ''index.html'' = None)
      | _ \<Rightarrow> False)"

lemma no_index_set_in:
  assumes "sock_at fd w = Some s"
  shows "no_index ((set_in fd as w)\<lparr>k_realloc := rs\<rparr>) path n = no_index w path n"
proof -
  let ?w = "(set_in fd as w)\<lparr>k_realloc := rs\<rparr>"
  have eqs: "k_namei ?w = k_namei w" "k_inode ?w = k_inode w" "g_rootdir_fd ?w = g_rootdir_fd w" by simp_all
  show ?thesis unfolding no_index_def eqs using sock_at_lookup [THEN iffD1, OF assms]
    by (cases "g_rootdir_fd w = fd") (simp_all add: fd_lookup_set_in [OF assms])
qed

lemma open_no_index:
  assumes "no_index w path n" and "fd_lookup w (- 1) = None" and "0 \<le> n" and "n < 2 ^ 31"
  shows "\<exists>fds. open_resource path c w =
      Some (OK, upd_req (\<lambda>r. r\<lparr>r_par := set_ext (SSSTR ''html'') (r_par r), r_resource_fd := - 1, r_resource_size := n,
                               r_req_handler := Some request_handle_headers_h\<rparr>) c, w\<lparr>k_fds := fds\<rparr>) \<and>
    fd_lookup (w\<lparr>k_fds := fds\<rparr>) = fd_lookup w"
proof -
  obtain d off i where d: "fd_lookup w (g_rootdir_fd w) = Some (Fd_file d off)" "k_namei w d path = Some i"
    "k_inode w i = Directory n" "k_namei w i ''index.html'' = None"
    using assms(1) by (auto simp: no_index_def split: option.splits fd_object.splits)
  let ?f = "new_fd w" let ?w = "fd_update ?f (Fd_file i 0) w"
  have 1: "sys_openat (g_rootdir_fd w) path w = (?f, ?w)" "sys_openat ?f ''index.html'' ?w = (ERROR, ?w)"
    using d by (simp_all add: sys_openat_def)
  have "sys_fstat (- 1) (close_fd ?f ?w) = None" using assms(2) by (simp add: sys_fstat_def)
  moreover have "sys_fstat ?f ?w = Some (True, n)" using d(3) by (simp add: sys_fstat_def)
  ultimately have "open_resource path c w =
      Some (OK, upd_req (\<lambda>r. r\<lparr>r_par := set_ext (SSSTR ''html'') (r_par r), r_resource_fd := - 1, r_resource_size := n,
                               r_req_handler := Some request_handle_headers_h\<rparr>) c, close_fd ?f ?w)"
    using 1 d(3) assms(3,4) by (simp add: open_resource_def set_ext_def set_html to_int32_id)
  moreover have "w\<lparr>k_fds := k_fds (close_fd ?f ?w)\<rparr> = close_fd ?f ?w" by (simp add: fd_update_fds)
  moreover have "fd_lookup (close_fd ?f ?w) = fd_lookup w" using new_fd_fresh [of w] by (auto simp: fun_eq_iff)
  ultimately show ?thesis by (intro exI [of _ "k_fds (close_fd ?f ?w)"]) simp
qed

text \<open>
  C32. A directory without an \<open>index.html\<close> is not answered with 404, as the comment in
  \<open>request_handle_request_line\<close> says: the check after opening \<open>index.html\<close> tests the directory's
  descriptor, so the client gets a head with status 200 and the directory's own size as
  \<open>Content-Length\<close>, and nothing after it. With keep-alive it waits for bytes that never come.
\<close>
theorem directory_without_index:
  assumes "idle c w" and "sock_at (c_fd c) w = Some s" and "pull (s_in s) = (AGAIN, y, as')"
    and "y = line @ head_text hs fin @ body" and "good_line me u t maj mn line" and "header_lines hs" and "empty_line fin"
    and "tables_ok w" and "handlers_ok w" and "gmtime (k_now w) = Some now"
    and "int (length y) \<le> b_free (r_ib (c_req c))" and "256 \<le> ob_room (c_req c)"
    and "header_options hs (digits_val maj = 1 \<and> digits_val mn = 1, - 1) = (keep, len)" and "len \<le> int (length body)"
    and "no_index w (rel_path (url_path u)) n" and "fd_lookup w (- 1) = None" and "0 \<le> n" and "n < 2 ^ 31"
  shows "\<exists>c' w'. request_handle c w = Some (OK, c', w') \<and> send_ready c' w' \<and>
    to_send c' w' = response_head w mn ''html'' n keep"
proof -
  let ?Q = "\<lambda>fd fds. fd = - 1 \<and> fds (c_fd c) = Some (Fd_sock (s\<lparr>s_in := as'\<rparr>))"
  have opn: "\<exists>fd fds e. open_resource (rel_path (url_path u)) c2 w1 =
        Some (OK, upd_req (\<lambda>r. r\<lparr>r_par := set_ext e (r_par r), r_resource_fd := fd, r_resource_size := n,
                                 r_req_handler := Some request_handle_headers_h\<rparr>) c2, w1\<lparr>k_fds := fds\<rparr>) \<and>
        e = (if True then SSSTR ''html'' else url_mime_extension (ar_url (r_par (c_req c2)))) \<and> ?Q fd (fd_lookup (w1\<lparr>k_fds := fds\<rparr>))"
    if w1: "w1 = (set_in (c_fd c) as' w)\<lparr>k_realloc := rs\<rparr>" for c2 w1 rs
  proof -
    have "no_index w1 (rel_path (url_path u)) n" using assms(15) no_index_set_in [OF assms(2)] by (simp add: w1)
    moreover have "fd_lookup w1 (c_fd c) = Some (Fd_sock (s\<lparr>s_in := as'\<rparr>))" using assms(2) by (simp add: fd_lookup_set_in w1)
    moreover have "fd_lookup w1 (- 1) = None"
      using assms(2,16) sock_at_lookup [THEN iffD1, OF assms(2)] by (auto simp: fd_lookup_set_in w1)
    ultimately show ?thesis using open_no_index [where w = w1 and c = c2, OF _ _ assms(17,18)] by fastforce
  qed
  have n: "- (2 ^ 31) \<le> n" "n < 2 ^ 31" using assms(17,18) by simp_all
  have "\<exists>c' w' fd. request_handle c w = Some (OK, c', w') \<and> c_fd c' = c_fd c \<and>
    head_ready c' w' fd n (response_head w mn (resource_ext (url_path u) True) n keep) keep \<and> ?Q fd (fd_lookup w') \<and> k_inode w' = k_inode w"
    by (rule request_to_head [OF assms(1-14) n, where Q = ?Q]) (rule opn)
  then obtain c' w' where r: "request_handle c w = Some (OK, c', w')" "c_fd c' = c_fd c"
    "head_ready c' w' (- 1) n (response_head w mn ''html'' n keep) keep" "fd_lookup w' (c_fd c) = Some (Fd_sock (s\<lparr>s_in := as'\<rparr>))"
    by (auto simp: resource_ext_def)
  then show ?thesis
    by (intro exI [of _ c'] exI [of _ w'])
      (auto simp: head_ready_def send_ready_def head_ok_def to_send_def head_rest_def file_rest_def sock_at_def)
qed

theorem directory_without_index_witness:
  "\<exists>c' w'. request_handle site_conn (site (site_run ''/empty'')) = Some (OK, c', w') \<and>
     to_send c' w' = response_head (site (site_run ''/empty'')) ''1'' ''html'' 4096 True"
proof -
  let ?w = "site (site_run ''/empty'')" let ?y = "get_line ''/empty'' @ head_text host_line CRLF"
  obtain t where t: "gmtime (k_now ?w) = Some t" using gmtime_0 by (auto simp: site_def)
  have pull: "pull (s_in \<lparr>s_in = site_run ''/empty'', s_send = [], s_out = []\<rparr>) = (AGAIN, ?y, [])" by (simp add: site_run_pull)
  have y: "?y = get_line ''/empty'' @ head_text host_line CRLF @ []" "int (length ?y) \<le> b_free (r_ib (c_req site_conn))"
    by (simp_all add: site_idle get_line_def head_text_def host_line_def)
  have ops: "header_options host_line (digits_val ''1'' = 1 \<and> digits_val ''1'' = 1, - 1) = (True, - 1)"
    by (simp add: host_line_ok digits_val_def ord_char_def)
  have "no_index ?w (rel_path (url_path ''/empty'')) 4096" "fd_lookup ?w (- 1) = None"
    by (simp_all add: no_index_def site_def fd_lookup_def url_path_def rel_path_def)
  moreover have line: "good_line HTTP_GET ''/empty'' SP ''1'' ''1'' (get_line ''/empty'')" by (rule get_line_good) (simp_all add: url_char_def blank_def)
  ultimately show ?thesis
    using directory_without_index [OF site_idle(1) site_idle(2) [folded site_idle(3)] pull y(1) line host_line_ok(1,3)
        site_tables t y(2) _ ops, of 4096] by (simp add: site_idle) blast
qed

end
