(* ===== verification/Command_Line.thy ===== *)
theory Command_Line
  imports Server
begin

text \<open>
  The command line of the server and the processes it starts: what \<open>config_parse\<close> makes of a list of
  options, however they are written, and how many workers the master forks.
\<close>

section \<open>Options\<close>

datatype opt = Opt_port nat | Opt_debug | Opt_timeout nat | Opt_worker nat | Opt_root string

text \<open>An option as it is written on the command line: its argument follows it, or is joined to it.\<close>

primrec opt_letter :: "opt \<Rightarrow> char" where
  "opt_letter (Opt_port n) = CHR ''p''"
| "opt_letter Opt_debug = CHR ''d''"
| "opt_letter (Opt_timeout n) = CHR ''t''"
| "opt_letter (Opt_worker n) = CHR ''w''"
| "opt_letter (Opt_root d) = CHR ''r''"

primrec opt_arg :: "opt \<Rightarrow> string" where
  "opt_arg (Opt_port n) = dec (int n)"
| "opt_arg Opt_debug = []"
| "opt_arg (Opt_timeout n) = dec (int n)"
| "opt_arg (Opt_worker n) = dec (int n)"
| "opt_arg (Opt_root d) = d"

definition opt_words :: "bool \<times> opt \<Rightarrow> string list" where
  "opt_words jo = (case jo of (joined, x) \<Rightarrow>
     if x = Opt_debug then [''-d'']
     else if joined then [CHR ''-'' # opt_letter x # opt_arg x]
     else [[CHR ''-'', opt_letter x], opt_arg x])"

text \<open>Numbers are in the range of an \<open>int\<close>; a joined argument is not empty.\<close>

primrec opt_ok :: "opt \<Rightarrow> bool" where
  "opt_ok (Opt_port n) \<longleftrightarrow> n < 2 ^ 31"
| "opt_ok Opt_debug \<longleftrightarrow> True"
| "opt_ok (Opt_timeout n) \<longleftrightarrow> n < 2 ^ 31"
| "opt_ok (Opt_worker n) \<longleftrightarrow> n < 2 ^ 31"
| "opt_ok (Opt_root d) \<longleftrightarrow> d \<noteq> []"

text \<open>What the options mean. Only the low 16 bits of a port are kept.\<close>

primrec set_opt :: "opt \<Rightarrow> config_t \<Rightarrow> config_t" where
  "set_opt (Opt_port n) cfg = cfg\<lparr>cfg_port := word_of_int (int n mod 65536)\<rparr>"
| "set_opt Opt_debug cfg = cfg\<lparr>cfg_debug := True\<rparr>"
| "set_opt (Opt_timeout n) cfg = cfg\<lparr>cfg_timeout := int n\<rparr>"
| "set_opt (Opt_worker n) cfg = cfg\<lparr>cfg_worker := word_of_int (int n)\<rparr>"
| "set_opt (Opt_root d) cfg = cfg\<lparr>cfg_rootdir := Some d\<rparr>"

definition too_many :: "int \<Rightarrow> opt \<Rightarrow> bool" where
  "too_many nproc x = (case x of Opt_worker n \<Rightarrow> int n > nproc | _ \<Rightarrow> False)"

fun set_opts :: "int \<Rightarrow> opt list \<Rightarrow> config_t \<Rightarrow> int \<times> config_t" where
  "set_opts nproc [] cfg = (OK, cfg)"
| "set_opts nproc (x # xs) cfg = (if too_many nproc x then (ERROR, set_opt x cfg) else set_opts nproc xs (set_opt x cfg))"

lemma atoi_dec: "n < 2 ^ 31 \<Longrightarrow> atoi (lit_block (dec (int n))) = Some (int n)"
proof -
  assume n: "n < 2 ^ 31"
  obtain c ds where d: "dec_nat n = c # ds" by (metis dec_nat.simps append_is_Nil_conv list.exhaust not_Cons_self2)
  have c: "is_digit_char c" using dec_nat_digits [of n] d by simp
  have "scan_digits 0 (map Some (dec_nat n) @ [Some NUL]) = Some (int n)"
    unfolding scan_dec_nat by (simp add: is_digit_char_def ord_char_def)
  then show ?thesis using digit_not_space [OF c] n d
    by (simp add: atoi_def strtol10_def lit_block_def dec_def Let_def to_int32_id)
qed

lemma getopt_words:
  assumes "opt_ok (snd jo)"
  shows "getopt [] (opt_words jo @ as) = (opt_letter (snd jo), opt_arg (snd jo)) # getopt [] as"
proof -
  have "dec (int n) \<noteq> []" for n by (simp add: dec_def dec_nat.simps [of n])
  then show ?thesis using assms by (cases jo, cases "snd jo") (auto simp: opt_words_def)
qed

lemma set_opt_parsed:
  assumes "opt_ok x"
  shows "parse_options nproc ((opt_letter x, opt_arg x) # opts) cfg =
    (if too_many nproc x then Some (ERROR, set_opt x cfg) else parse_options nproc opts (set_opt x cfg))"
proof (cases x)
  case (Opt_port n)
  have "(word_of_int (int n) :: 16 word) = word_of_int (int n mod 65536)"
    unfolding word_of_int_eq_iff by (simp add: take_bit_eq_mod)
  then show ?thesis using assms Opt_port atoi_dec [of n] by (simp add: too_many_def)
next
  case (Opt_worker n)
  have "uint (word_of_int (int n) :: 32 word) = int n" using assms Opt_worker unfolding uint_word_of_int_eq by (simp add: take_bit_int_eq_self)
  then show ?thesis using assms Opt_worker atoi_dec [of n] by (simp add: too_many_def Let_def)
qed (use assms atoi_dec in \<open>simp_all add: too_many_def\<close>)

lemma options_parsed:
  "list_all (\<lambda>jo. opt_ok (snd jo)) xs \<Longrightarrow>
   parse_options nproc (getopt [] (concat (map opt_words xs))) cfg = Some (set_opts nproc (map snd xs) cfg)"
proof (induction xs arbitrary: cfg)
  case (Cons x xs)
  then show ?case using set_opt_parsed [of "snd x" nproc "getopt [] (concat (map opt_words xs))" cfg]
    by (simp add: getopt_words)
qed simp

text \<open>The directory the configuration names as its root.\<close>

definition root_dir :: "'x globals_scheme \<Rightarrow> nat \<Rightarrow> config_t \<Rightarrow> nat option" where
  "root_dir g cwd cfg = do {
     path \<leftarrow> cfg_rootdir cfg;
     i \<leftarrow> k_namei g cwd path;
     (case k_inode g i of Directory _ \<Rightarrow> Some i | Regular _ \<Rightarrow> None)
   }"

text \<open>
  C17. The command line is read back. However options are written (arguments joined to their letters or
  following them) and whatever their order, \<open>config_parse\<close> sets exactly the fields they name, the
  last one of a kind winning and a port modulo \<open>2 ^ 16\<close>; it fails exactly if more
  workers are asked for than there are processors or the root names no directory, and otherwise the root
  is open when it returns, unless that one call failed, which it does not report.
\<close>

theorem config_parse_correct:
  assumes "list_all (\<lambda>jo. opt_ok (snd jo)) xs" and "set_opts nproc (map snd xs) cfg = (st0, cfg')"
  shows "\<exists>st g'. config_parse nproc cwd open_ok (concat (map opt_words xs)) cfg g = Some (st, cfg', g') \<and>
    (st = OK \<longleftrightarrow> st0 = OK \<and> root_dir g cwd cfg' \<noteq> None) \<and>
    (st \<noteq> OK \<longrightarrow> st = ERROR \<and> g' = g) \<and>
    (st = OK \<longrightarrow> (if open_ok then fd_lookup g' (g_rootdir_fd g') = map_option (\<lambda>i. Fd_file i 0) (root_dir g cwd cfg')
                   else g_rootdir_fd g' = ERROR))"
proof -
  have "st0 = OK \<or> st0 = ERROR" using assms(2) by (induction nproc "map snd xs" cfg arbitrary: xs rule: set_opts.induct) (auto split: if_splits)
  then have v: "config_parse nproc cwd open_ok (concat (map opt_words xs)) cfg g =
    Some (if st0 = OK then case root_dir g cwd cfg' of
        None \<Rightarrow> (ERROR, cfg', g)
      | Some i \<Rightarrow> (OK, cfg', if open_ok then (fd_update (new_fd g) (Fd_file i 0) g)\<lparr>g_rootdir_fd := new_fd g\<rparr> else g\<lparr>g_rootdir_fd := ERROR\<rparr>)
      else (ERROR, cfg', g))"
    using options_parsed [OF assms(1), of nproc cfg] assms(2)
    by (auto simp: config_parse_def root_dir_def split: option.splits inode.splits)
  show ?thesis
  proof (cases "st0 = OK \<and> root_dir g cwd cfg' \<noteq> None")
    case True
    then show ?thesis unfolding v by (cases open_ok) (auto simp: fd_lookup_def fd_update_def update_conv')
  next
    case False
    then show ?thesis unfolding v by (auto split: option.splits)
  qed
qed

definition demo_files :: globals where
  "demo_files = \<lparr>k_fds = [], k_epoll = Map.empty, k_epoll_room = True, k_pending = [], k_namei = (\<lambda>_ _. Some 9),
     k_inode = (\<lambda>_. Directory 0), k_now = 0, k_realloc = [], k_malloc = [], g_rootdir_fd = - 1,
     g_status_table = (\<lambda>_. None), g_mime_dict = dict_init,
     g_err_page = \<lparr>err_page_fd = - 1, raw_err_page = [], raw_page_size = 0, rendered_err_page = buf_of [],
        rendered_page_size = 0\<rparr>\<rparr>"

theorem config_parse_correct_witness:
  "\<exists>cfg g. config_parse 8 1 True [''-p80'', ''-w'', ''2'', ''-r'', ''www''] server_config
      demo_files = Some (OK, cfg, g) \<and>
     cfg = server_config\<lparr>cfg_port := 80, cfg_worker := 2, cfg_rootdir := Some ''www''\<rparr> \<and> fd_lookup g (g_rootdir_fd g) = Some (Fd_file 9 0)"
proof -
  let ?xs = "[(True, Opt_port 80), (False, Opt_worker 2), (False, Opt_root ''www'')]"
  have w: "concat (map opt_words ?xs) = [''-p80'', ''-w'', ''2'', ''-r'', ''www'']" by code_simp
  have ok: "list_all (\<lambda>jo. opt_ok (snd jo)) ?xs" by simp
  have s: "set_opts 8 (map snd ?xs) server_config = (OK, server_config\<lparr>cfg_port := 80, cfg_worker := 2, cfg_rootdir := Some ''www''\<rparr>)"
    by (simp add: too_many_def)
  have r: "root_dir demo_files 1 (server_config\<lparr>cfg_port := 80, cfg_worker := 2, cfg_rootdir := Some ''www''\<rparr>) = Some 9"
    by (simp add: root_dir_def demo_files_def)
  show ?thesis using config_parse_correct [OF ok s, of 1 True demo_files] r w by auto
qed

section \<open>Workers\<close>

lemma fork_workers_count:
  assumes "uint worker < 2 ^ 31" and "0 \<le> n" and "n + int k \<le> uint worker"
    and "\<forall>i < k. fork (nat n + i) \<notin> {- 1, 0}"
  shows "fork_workers worker fork n = fork_workers worker fork (n + int k)"
  using assms
proof (induction k arbitrary: n)
  case (Suc k)
  have n: "n < uint worker" "\<not> worker \<le> word_of_int n" "fork (nat n) \<notin> {- 1, 0}"
    using Suc.prems Suc.prems(4) [rule_format, of 0] by (auto simp: word_le_def uint_word_of_int_eq take_bit_int_eq_self)
  then have "fork_workers worker fork n = fork_workers worker fork (n + 1)"
    using Suc.prems(1) by (subst fork_workers.simps) simp
  also have "\<dots> = fork_workers worker fork (n + 1 + int k)"
  proof (rule Suc.IH)
    show "\<forall>i < k. fork (nat (n + 1) + i) \<notin> {- 1, 0}"
      using Suc.prems(2) Suc.prems(4) [rule_format, of "Suc i" for i] by (simp add: nat_add_distrib)
  qed (use Suc.prems n in auto)
  finally show ?case by (simp add: algebra_simps)
qed simp

text \<open>
  C18. Starting the workers ends, and the master forks exactly \<open>worker\<close> of them. Without debug mode and for a
  number of workers in the range of an \<open>int\<close> (as \<open>config_parse\<close> allows), let the first \<open>k\<close> forks
  succeed in the process at hand: if these are all, it is the master, which has forked that many
  and waits to end; a process for which the next one returns 0 is the worker with \<open>k\<close> elder siblings, and
  a failed one aborts it. In debug mode the process is itself the only worker.
\<close>

theorem start_workers_correct:
  assumes "uint (cfg_worker cfg) < 2 ^ 31" and "int k \<le> uint (cfg_worker cfg)" and "\<forall>i < k. fork i \<notin> {- 1, 0}"
    and "int k = uint (cfg_worker cfg) \<or> fork k \<in> {- 1, 0}"
  shows "start_workers cfg fork = Some (if cfg_debug cfg then Works 0
    else if int k = uint (cfg_worker cfg) then Interrupted (int k) else if fork k = 0 then Works (int k) else Aborted)"
proof -
  have c: "cfg_worker cfg \<le> word_of_int (int k) \<longleftrightarrow> int k = uint (cfg_worker cfg)"
    using assms(1,2) unfolding word_le_def uint_word_of_int_eq by (auto simp: take_bit_int_eq_self)
  have "fork_workers (cfg_worker cfg) fork 0 = fork_workers (cfg_worker cfg) fork (int k)"
    using fork_workers_count [of "cfg_worker cfg" 0 k fork] assms(1-3) by simp
  also have "\<dots> = Some (if int k = uint (cfg_worker cfg) then Interrupted (int k) else if fork k = 0 then Works (int k) else Aborted)"
    using assms(4) c by (subst fork_workers.simps) auto
  finally show ?thesis by (simp add: start_workers_def)
qed

theorem start_workers_correct_witness:
  "start_workers server_config (\<lambda>_. 1234) = Some (Interrupted 4) \<and> start_workers server_config (\<lambda>i. if i = 2 then 0 else 1) = Some (Works 2)"
  using start_workers_correct [of server_config 4 "\<lambda>_. 1234"] start_workers_correct [of server_config 2 "\<lambda>i. if i = 2 then 0 else 1"]
  by (simp add: server_config_def)

end
